(* ===== verification/Onced_Prelude.thy ===== *)
theory Onced_Prelude
  imports Main "HOL-Library.Word" "HOL-Library.AList" "HOL-Library.List_Lexorder"
    "HOL-Library.Multiset"
begin

text \<open>
  Shared vocabulary of the development: names for the machine types of the Rust
  sources, the parts of the Rust standard library that the components use
  (saturating addition, little- and big-endian byte conversion, UTF-8 validation,
  \<open>HashMap\<close> and \<open>BTreeMap\<close>), and the generic lemmas about them.

  \<^item> Unsigned integers are words of the source's width; \<open>+\<close> wraps, as it does in
    the release profile the workspace ships.
  \<^item> A \<open>String\<close> is its UTF-8 byte sequence (that is what Rust stores, compares,
    hashes and writes); \<open>utf8_valid\<close> is the validity check of \<open>String::from_utf8\<close>.
  \<^item> A \<open>HashMap\<close> is an association list with distinct keys; where the source
    iterates over one, the unspecified iteration order is an explicit parameter of
    the definition that iterates.
  \<^item> A \<open>BTreeMap\<close> is an association list strictly ascending in its keys.
\<close>

unbundle bit_operations_syntax

type_synonym u8 = "8 word"
type_synonym u16 = "16 word"
type_synonym u32 = "32 word"
type_synonym u64 = "64 word"
type_synonym bytes = "u8 list"

named_theorems codec_simps \<open>rewriting through the byte-level encoders and decoders\<close>
named_theorems map_simps \<open>lookups in the models of the standard maps\<close>

section \<open>Saturating arithmetic\<close>

definition saturating_add :: "'a::len word \<Rightarrow> 'a word \<Rightarrow> 'a word" where
  "saturating_add a b = (if unat a + unat b < 2 ^ LENGTH('a) then a + b else - 1)"

definition saturating_sub :: "'a::len word \<Rightarrow> 'a word \<Rightarrow> 'a word" where
  "saturating_sub a b = (if b \<le> a then a - b else 0)"

lemma unat_minus_one: "unat (- 1 :: 'a::len word) = 2 ^ LENGTH('a) - 1"
  by (simp add: unsigned_minus_1_eq_mask mask_eq_exp_minus_1)

lemma unat_saturating_add:
  "unat (saturating_add a (b :: 'a::len word)) = min (unat a + unat b) (2 ^ LENGTH('a) - 1)"
  by (auto simp: saturating_add_def unat_minus_one unat_word_ariths)

lemma saturating_add_ge: "a \<le> saturating_add a b"
proof -
  have "unat a < 2 ^ LENGTH('a)" for a :: "'a word" by simp
  then have "unat a \<le> 2 ^ LENGTH('a) - 1" for a :: "'a word"
    using less_Suc_eq_le by fastforce
  then show ?thesis
    by (simp add: word_le_nat_alt unat_saturating_add)
qed

lemma saturating_add_mono: "a \<le> a' \<Longrightarrow> saturating_add a b \<le> saturating_add a' b"
  by (auto simp: word_le_nat_alt unat_saturating_add)

lemma unat_saturating_sub: "unat (saturating_sub a b) = unat a - unat b"
  by (auto simp: saturating_sub_def word_le_nat_alt unat_sub)

lemma unat_plus_one: "w \<noteq> - 1 \<Longrightarrow> unat (w + 1) = Suc (unat w)"
  by (metis add.commute add.inverse_unique unatSuc)

lemma word_less_plus_one: "w \<noteq> - 1 \<Longrightarrow> w < w + (1 :: 'a::len word)"
  by (simp add: word_less_nat_alt unat_plus_one)

text \<open>\<open>leading_zeros\<close> of a machine integer.\<close>

definition leading_zeros :: "'a::len word \<Rightarrow> nat" where
  "leading_zeros w = length (takeWhile (\<lambda>i. \<not> bit w i) (rev [0..<LENGTH('a)]))"

lemma leading_zeros_bound:
  assumes "bit w n"
  shows "leading_zeros (w :: 'a::len word) \<le> LENGTH('a) - 1 - n"
proof -
  have n: "n < LENGTH('a)" using assms by (rule bit_imp_le_length)
  have "[0..<LENGTH('a)] = [0..<n] @ n # [Suc n..<LENGTH('a)]"
    using n upt_add_eq_append [of 0 n "LENGTH('a) - n"] upt_conv_Cons [OF n] by simp
  then have "rev [0..<LENGTH('a)] = rev [Suc n..<LENGTH('a)] @ n # rev [0..<n]" by simp
  then have "takeWhile (\<lambda>i. \<not> bit w i) (rev [0..<LENGTH('a)]) =
      takeWhile (\<lambda>i. \<not> bit w i) (rev [Suc n..<LENGTH('a)])"
    using assms by (simp add: takeWhile_tail)
  then show ?thesis
    unfolding leading_zeros_def using length_takeWhile_le [of _ "rev [Suc n..<LENGTH('a)]"]
    by (metis Suc_eq_plus1_left diff_diff_left length_rev length_upt)
qed

lemma length_takeWhile_ge:
  "n \<le> length xs \<Longrightarrow> n \<le> length (takeWhile P xs) \<longleftrightarrow> (\<forall>i < n. P (xs ! i))"
proof (induction xs arbitrary: n)
  case Nil
  then show ?case by simp
next
  case (Cons x xs)
  then show ?case by (cases n) (auto simp: less_Suc_eq_0_disj)
qed

lemma unat_less_bits: "unat (w :: 'a::len word) < 2 ^ k \<longleftrightarrow> (\<forall>i \<ge> k. \<not> bit w i)"
proof -
  have "unat w < 2 ^ k \<longleftrightarrow> take_bit k (unat w) = unat w" by (simp add: take_bit_nat_eq_self_iff)
  also have "\<dots> \<longleftrightarrow> (\<forall>i. bit (take_bit k (unat w)) i = bit (unat w) i)" by (simp add: bit_eq_iff)
  also have "\<dots> \<longleftrightarrow> (\<forall>i \<ge> k. \<not> bit w i)"
  proof -
    have e: "bit (unat w) i = bit w i" for i by (simp add: bit_unsigned_iff)
    show ?thesis unfolding bit_take_bit_iff e by (meson not_le)
  qed
  finally show ?thesis .
qed

text \<open>A word has at least \<open>n\<close> leading zeros when it is below \<open>2 ^ (width - n)\<close>.\<close>

lemma leading_zeros_ge:
  assumes "n \<le> LENGTH('a)"
  shows "n \<le> leading_zeros (w :: 'a::len word) \<longleftrightarrow> unat w < 2 ^ (LENGTH('a) - n)"
proof -
  have nth: "rev [0..<LENGTH('a)] ! i = LENGTH('a) - Suc i" if "i < n" for i
    using that assms by (simp add: rev_nth)
  have "n \<le> leading_zeros w \<longleftrightarrow> (\<forall>i < n. \<not> bit w (LENGTH('a) - Suc i))"
    unfolding leading_zeros_def using assms nth by (simp add: length_takeWhile_ge)
  also have "\<dots> \<longleftrightarrow> (\<forall>i \<ge> LENGTH('a) - n. \<not> bit w i)"
  proof safe
    fix i assume *: "\<forall>i < n. \<not> bit w (LENGTH('a) - Suc i)" and i: "LENGTH('a) - n \<le> i" "bit w i"
    from i(2) have "i < LENGTH('a)" by (rule bit_imp_le_length)
    then have "LENGTH('a) - Suc (LENGTH('a) - Suc i) = i" "LENGTH('a) - Suc i < n" using i(1) by linarith+
    with * i(2) show False by metis
  next
    fix i assume *: "\<forall>i \<ge> LENGTH('a) - n. \<not> bit w i" and "i < n" and b: "bit w (LENGTH('a) - Suc i)"
    then have "LENGTH('a) - n \<le> LENGTH('a) - Suc i" by simp
    with * b show False by blast
  qed
  finally show ?thesis by (simp add: unat_less_bits)
qed

lemma fold_max_ge: "\<forall>x \<in> insert a (set xs). x \<le> fold max xs (a :: 'a::linorder)"
  by (metis List.finite_set Max_ge finite.insertI Max.set_eq_fold list.set(2))

lemma fold_max_mem: "fold max xs (a :: 'a::linorder) \<in> insert a (set xs)"
  by (metis List.finite_set Max_in finite.insertI insert_not_empty Max.set_eq_fold list.set(2))

section \<open>Byte order\<close>

text \<open>\<open>to_le_bytes n w\<close> is \<open>w.to_le_bytes()\<close> for a word of \<open>n\<close> bytes.\<close>

primrec to_le_bytes :: "nat \<Rightarrow> 'a::len word \<Rightarrow> bytes" where
  "to_le_bytes 0 w = []"
| "to_le_bytes (Suc n) w = ucast w # to_le_bytes n (drop_bit 8 w)"

primrec from_le_bytes :: "bytes \<Rightarrow> 'a::len word" where
  "from_le_bytes [] = 0"
| "from_le_bytes (b # bs) = ucast b OR push_bit 8 (from_le_bytes bs)"

definition to_be_bytes :: "nat \<Rightarrow> 'a::len word \<Rightarrow> bytes" where
  "to_be_bytes n w = rev (to_le_bytes n w)"

definition from_be_bytes :: "bytes \<Rightarrow> 'a::len word" where
  "from_be_bytes bs = from_le_bytes (rev bs)"

lemma length_to_le_bytes [simp]: "length (to_le_bytes n w) = n"
  by (induction n arbitrary: w) simp_all

lemma length_to_be_bytes [simp]: "length (to_be_bytes n w) = n"
  by (simp add: to_be_bytes_def)

lemma from_to_le_bytes_take_bit:
  "from_le_bytes (to_le_bytes n w) = take_bit (8 * n) (w :: 'a::len word)"
proof (induction n arbitrary: w)
  case 0
  then show ?case by simp
next
  case (Suc n)
  have "ucast (ucast w :: u8) OR push_bit 8 (take_bit (8 * n) (drop_bit 8 w)) = take_bit (8 * Suc n) w"
    by (rule bit_word_eqI)
      (auto simp: bit_simps ac_simps not_less dest: bit_imp_le_length)
  then show ?case by (simp add: Suc.IH)
qed

lemma from_to_le_bytes [codec_simps]:
  "LENGTH('a) \<le> 8 * n \<Longrightarrow> from_le_bytes (to_le_bytes n w) = (w :: 'a::len word)"
  by (simp add: from_to_le_bytes_take_bit take_bit_word_eq_self)

lemma from_le_bytes_upper_bits:
  "8 * length bs \<le> n \<Longrightarrow> \<not> bit (from_le_bytes bs :: 'a::len word) n"
proof (induction bs arbitrary: n)
  case Nil
  then show ?case by simp
next
  case (Cons b bs)
  have "\<not> bit b n" using Cons.prems bit_imp_le_length by fastforce
  moreover have "\<not> bit (from_le_bytes bs :: 'a word) (n - 8)"
    using Cons.prems by (intro Cons.IH) simp
  ultimately show ?case by (auto simp: bit_simps)
qed

lemma to_from_le_bytes:
  "length bs = n \<Longrightarrow> 8 * n \<le> LENGTH('a) \<Longrightarrow> to_le_bytes n (from_le_bytes bs :: 'a::len word) = bs"
proof (induction n arbitrary: bs)
  case 0
  then show ?case by simp
next
  case (Suc n)
  then obtain b cs where bs: "bs = b # cs" "length cs = n" by (cases bs) auto
  let ?r = "from_le_bytes cs :: 'a word"
  have len: "8 * n + 8 \<le> LENGTH('a)" using Suc.prems by simp
  have up: "m < 8 * n" if "bit ?r m" for m
    using that bs from_le_bytes_upper_bits [of cs m] by (meson leI)
  have head: "ucast (ucast b OR push_bit 8 ?r) = b"
    by (rule bit_word_eqI) (use len in \<open>auto simp: bit_simps\<close>)
  have tail: "drop_bit 8 (ucast b OR push_bit 8 ?r) = ?r"
  proof (rule bit_word_eqI)
    fix m assume "m < LENGTH('a)"
    have "\<not> bit b (m + 8)" using bit_imp_le_length by fastforce
    moreover have "m + 8 < LENGTH('a)" if "bit ?r m" using up [OF that] len by linarith
    ultimately show "bit (drop_bit 8 (ucast b OR push_bit 8 ?r)) m = bit ?r m"
      by (auto simp: bit_simps ac_simps not_less)
  qed
  show ?case using bs head tail Suc.IH [of cs] len by simp
qed

lemma from_to_be_bytes [codec_simps]:
  "LENGTH('a) \<le> 8 * n \<Longrightarrow> from_be_bytes (to_be_bytes n w) = (w :: 'a::len word)"
  by (simp add: to_be_bytes_def from_be_bytes_def from_to_le_bytes)

lemma to_le_bytes_inject:
  "LENGTH('a) \<le> 8 * n \<Longrightarrow> to_le_bytes n w = to_le_bytes n v \<longleftrightarrow> w = (v :: 'a::len word)"
  by (metis from_to_le_bytes)

lemma to_be_bytes_inject:
  "LENGTH('a) \<le> 8 * n \<Longrightarrow> to_be_bytes n w = to_be_bytes n v \<longleftrightarrow> w = (v :: 'a::len word)"
  by (metis from_to_be_bytes)

section \<open>Strings\<close>

text \<open>A string literal of the source, as its bytes.\<close>

definition ascii :: "string \<Rightarrow> bytes" where
  "ascii s = map of_char s"

text \<open>The well-formed byte sequences of \<open>core::str::from_utf8\<close> (Unicode table 3-7).\<close>

definition utf8_cont :: "u8 \<Rightarrow> bool" where
  "utf8_cont b \<longleftrightarrow> 0x80 \<le> b \<and> b \<le> 0xBF"

definition utf8_second3 :: "u8 \<Rightarrow> u8 \<Rightarrow> bool" where
  "utf8_second3 b0 b1 \<longleftrightarrow>
     (if b0 = 0xE0 then 0xA0 \<le> b1 \<and> b1 \<le> 0xBF
      else if b0 = 0xED then 0x80 \<le> b1 \<and> b1 \<le> 0x9F
      else utf8_cont b1)"

definition utf8_second4 :: "u8 \<Rightarrow> u8 \<Rightarrow> bool" where
  "utf8_second4 b0 b1 \<longleftrightarrow>
     (if b0 = 0xF0 then 0x90 \<le> b1 \<and> b1 \<le> 0xBF
      else if b0 = 0xF4 then 0x80 \<le> b1 \<and> b1 \<le> 0x8F
      else utf8_cont b1)"

fun utf8_valid :: "bytes \<Rightarrow> bool" where
  "utf8_valid [] = True"
| "utf8_valid (b0 # bs) =
     (if b0 < 0x80 then utf8_valid bs
      else if 0xC2 \<le> b0 \<and> b0 \<le> 0xDF then
        (case bs of b1 # r \<Rightarrow> utf8_cont b1 \<and> utf8_valid r | _ \<Rightarrow> False)
      else if 0xE0 \<le> b0 \<and> b0 \<le> 0xEF then
        (case bs of b1 # b2 # r \<Rightarrow> utf8_second3 b0 b1 \<and> utf8_cont b2 \<and> utf8_valid r
         | _ \<Rightarrow> False)
      else if 0xF0 \<le> b0 \<and> b0 \<le> 0xF4 then
        (case bs of b1 # b2 # b3 # r \<Rightarrow>
           utf8_second4 b0 b1 \<and> utf8_cont b2 \<and> utf8_cont b3 \<and> utf8_valid r
         | _ \<Rightarrow> False)
      else False)"

declare utf8_valid.simps(2) [simp del]

lemma utf8_valid_ascii: "\<forall>b \<in> set bs. b < 0x80 \<Longrightarrow> utf8_valid bs"
  by (induction bs) (simp_all add: utf8_valid.simps(2))

section \<open>Standard maps\<close>

type_synonym ('k, 'v) hashmap = "('k \<times> 'v) list"

abbreviation hm_wf :: "('k, 'v) hashmap \<Rightarrow> bool" where
  "hm_wf m \<equiv> distinct (map fst m)"

abbreviation hm_get :: "('k, 'v) hashmap \<Rightarrow> 'k \<Rightarrow> 'v option" where
  "hm_get \<equiv> map_of"

definition hm_insert :: "'k \<Rightarrow> 'v \<Rightarrow> ('k, 'v) hashmap \<Rightarrow> ('k, 'v) hashmap" where
  "hm_insert k v m = AList.update k v m"

definition hm_remove :: "'k \<Rightarrow> ('k, 'v) hashmap \<Rightarrow> ('k, 'v) hashmap" where
  "hm_remove k m = filter (\<lambda>(k', v). k' \<noteq> k) m"

definition hm_retain :: "('k \<Rightarrow> 'v \<Rightarrow> bool) \<Rightarrow> ('k, 'v) hashmap \<Rightarrow> ('k, 'v) hashmap" where
  "hm_retain keep m = filter (\<lambda>(k, v). keep k v) m"

lemma hm_get_insert [map_simps]:
  "hm_get (hm_insert k v m) k' = (if k' = k then Some v else hm_get m k')"
  by (simp add: hm_insert_def update_conv)

lemma hm_wf_insert [simp]: "hm_wf m \<Longrightarrow> hm_wf (hm_insert k v m)"
  by (simp add: hm_insert_def distinct_update)

lemma map_fst_hm_insert:
  "map fst (hm_insert k v m) = (if k \<in> fst ` set m then map fst m else map fst m @ [k])"
  by (simp add: hm_insert_def update_keys)

lemma hm_wf_filter [simp]: "hm_wf m \<Longrightarrow> hm_wf (filter P m)"
  by (simp add: distinct_map_filter)

lemma hm_wf_retain [simp]: "hm_wf m \<Longrightarrow> hm_wf (hm_retain keep m)"
  by (simp add: hm_retain_def)

lemma hm_get_filter:
  "hm_wf m \<Longrightarrow> hm_get (filter P m) k =
     (case hm_get m k of None \<Rightarrow> None | Some v \<Rightarrow> if P (k, v) then Some v else None)"
  by (induction m) (auto split: option.splits simp: map_of_eq_None_iff image_iff)

lemma hm_get_retain [map_simps]:
  "hm_wf m \<Longrightarrow> hm_get (hm_retain keep m) k =
     (case hm_get m k of None \<Rightarrow> None | Some v \<Rightarrow> if keep k v then Some v else None)"
  by (simp add: hm_retain_def hm_get_filter split: option.splits)

lemma hm_get_remove [map_simps]:
  "hm_get (hm_remove k m) k' = (if k' = k then None else hm_get m k')"
  by (induction m) (auto simp: hm_remove_def)

lemma hm_get_perm:
  assumes "hm_wf m" and "mset m' = mset m"
  shows "hm_get m' = hm_get m"
proof -
  from assms(2) have "mset (map fst m') = mset (map fst m)" by simp
  then have "hm_wf m'" using assms(1) mset_eq_imp_distinct_iff by blast
  moreover have "set m' = set m" using assms(2) by (rule mset_eq_setD)
  ultimately show ?thesis using assms(1) by (intro map_of_inject_set [THEN iffD2]) auto
qed

text \<open>The iteration order of a hash map: any order of its entries, and the first key in it.\<close>

definition iteration_order :: "(('k, 'v) hashmap \<Rightarrow> ('k, 'v) hashmap) \<Rightarrow> bool" where
  "iteration_order ord \<longleftrightarrow> (\<forall>m. mset (ord m) = mset m)"

definition hm_first :: "(('k, 'v) hashmap \<Rightarrow> ('k, 'v) hashmap) \<Rightarrow> ('k, 'v) hashmap \<Rightarrow> 'k option" where
  "hm_first ord m = (case ord m of [] \<Rightarrow> None | e # _ \<Rightarrow> Some (fst e))"

lemma hm_first_mem:
  assumes "iteration_order ord" and "m \<noteq> []"
  obtains k where "hm_first ord m = Some k" "k \<in> fst ` set m"
proof -
  have p: "mset (ord m) = mset m" using assms(1) by (simp add: iteration_order_def)
  with assms(2) obtain e es where e: "ord m = e # es" by (cases "ord m") auto
  then have "e \<in> set m" using mset_eq_setD [OF p] by auto
  with e that show thesis by (auto simp: hm_first_def)
qed

text \<open>Making room in a capped map before a new key comes in, as the limiters do.\<close>

definition hm_evict ::
    "(('k, 'v) hashmap \<Rightarrow> ('k, 'v) hashmap) \<Rightarrow> nat \<Rightarrow> 'k \<Rightarrow> ('k, 'v) hashmap \<Rightarrow> ('k, 'v) hashmap" where
  "hm_evict ord cap k m =
     (if cap \<le> length m \<and> hm_get m k = None
      then (case hm_first ord m of Some victim \<Rightarrow> hm_remove victim m | None \<Rightarrow> m)
      else m)"

lemma hm_wf_remove [simp]: "hm_wf m \<Longrightarrow> hm_wf (hm_remove k m)"
  by (simp add: hm_remove_def)

lemma hm_wf_evict [simp]: "hm_wf m \<Longrightarrow> hm_wf (hm_evict ord cap k m)"
  by (simp add: hm_evict_def split: option.split)

lemma length_hm_remove:
  assumes "k \<in> fst ` set m"
  shows "length (hm_remove k m) < length m"
  using assms unfolding hm_remove_def by (auto intro: length_filter_less)

lemma length_hm_insert:
  "length (hm_insert k v m) = (if k \<in> fst ` set m then length m else Suc (length m))"
  using arg_cong [OF map_fst_hm_insert [of k v m], of length] by (simp split: if_splits)

lemma length_hm_evict:
  assumes "iteration_order ord" and "0 < cap" and "length m \<le> cap"
  shows "length (hm_insert k v (hm_evict ord cap k m)) \<le> cap"
proof (cases "cap \<le> length m \<and> hm_get m k = None")
  case True
  with assms(2) have "m \<noteq> []" by auto
  then obtain victim where v: "hm_first ord m = Some victim" "victim \<in> fst ` set m"
    using hm_first_mem [OF assms(1)] by blast
  with True length_hm_remove [OF v(2)] assms(3) show ?thesis
    by (simp add: hm_evict_def length_hm_insert)
next
  case False
  then have "hm_evict ord cap k m = m" by (auto simp: hm_evict_def)
  with False assms(3) show ?thesis
    by (auto simp: length_hm_insert map_of_eq_None_iff)
qed

lemma hm_evict_room: "length m < cap \<Longrightarrow> hm_evict ord cap k m = m"
  by (simp add: hm_evict_def)

lemma hm_evict_present: "hm_get m k = Some v \<Longrightarrow> hm_evict ord cap k m = m"
  by (simp add: hm_evict_def)

type_synonym ('k, 'v) btreemap = "('k \<times> 'v) list"

abbreviation bt_wf :: "('k::linorder, 'v) btreemap \<Rightarrow> bool" where
  "bt_wf m \<equiv> sorted_wrt (<) (map fst m)"

fun bt_insert :: "'k::linorder \<Rightarrow> 'v \<Rightarrow> ('k, 'v) btreemap \<Rightarrow> ('k, 'v) btreemap" where
  "bt_insert k v [] = [(k, v)]"
| "bt_insert k v (e # m) =
     (if fst e < k then e # bt_insert k v m
      else if fst e = k then (k, v) # m
      else (k, v) # e # m)"

lemma bt_get_insert [map_simps]:
  "map_of (bt_insert k v m) k' = (if k' = k then Some v else map_of m k')"
  by (induction m) auto

lemma fst_set_bt_insert: "fst ` set (bt_insert k v m) = insert k (fst ` set m)"
  by (induction m) auto

lemma bt_wf_insert: "bt_wf m \<Longrightarrow> bt_wf (bt_insert k v m)"
proof (induction m)
  case Nil
  then show ?case by simp
next
  case (Cons e m)
  have "\<forall>k' \<in> fst ` set (bt_insert k v m). fst e < k'" if "fst e < k"
    using Cons.prems that by (auto simp: fst_set_bt_insert)
  with Cons show ?case by auto
qed

lemma bt_insert_append: "\<forall>k' \<in> fst ` set m. k' < k \<Longrightarrow> bt_insert k v m = m @ [(k, v)]"
  by (induction m) auto

text \<open>Inserting the entries of a well-formed map in their order rebuilds the map.\<close>

lemma bt_rebuild:
  "bt_wf (m @ es) \<Longrightarrow> fold (\<lambda>(k, v) acc. bt_insert k v acc) es m = m @ es"
proof (induction es arbitrary: m)
  case Nil
  then show ?case by simp
next
  case (Cons e es)
  have "bt_insert (fst e) (snd e) m = m @ [e]"
    using Cons.prems by (subst bt_insert_append) (auto simp: sorted_wrt_append)
  with Cons show ?case by (cases e) simp
qed

end
