(* ===== verification/Onced_Hash.thy ===== *)
theory Onced_Hash
  imports Onced_Prelude
begin

text \<open>
  \<^verbatim>\<open>onced-core/src/hash.rs\<close>: SHA-256, HMAC-SHA256 and hex encoding. The routines
  follow the source (in-place arrays updated by index, the padding loop, the loop over
  64-byte blocks); \<open>Onced_Fips\<close> proves them equal to the standards.
\<close>

section \<open>SHA-256 as written\<close>

definition H_INIT :: "u32 list" where
  "H_INIT =
     [0x6a09e667, 0xbb67ae85, 0x3c6ef372, 0xa54ff53a, 0x510e527f, 0x9b05688c, 0x1f83d9ab, 0x5be0cd19]"

text \<open>The round constants, one list per row of the source.\<close>

definition K_CONST :: "u32 list" where
  "K_CONST = concat
    [[0x428a2f98, 0x71374491, 0xb5c0fbcf, 0xe9b5dba5, 0x3956c25b, 0x59f111f1, 0x923f82a4, 0xab1c5ed5],
     [0xd807aa98, 0x12835b01, 0x243185be, 0x550c7dc3, 0x72be5d74, 0x80deb1fe, 0x9bdc06a7, 0xc19bf174],
     [0xe49b69c1, 0xefbe4786, 0x0fc19dc6, 0x240ca1cc, 0x2de92c6f, 0x4a7484aa, 0x5cb0a9dc, 0x76f988da],
     [0x983e5152, 0xa831c66d, 0xb00327c8, 0xbf597fc7, 0xc6e00bf3, 0xd5a79147, 0x06ca6351, 0x14292967],
     [0x27b70a85, 0x2e1b2138, 0x4d2c6dfc, 0x53380d13, 0x650a7354, 0x766a0abb, 0x81c2c92e, 0x92722c85],
     [0xa2bfe8a1, 0xa81a664b, 0xc24b8b70, 0xc76c51a3, 0xd192e819, 0xd6990624, 0xf40e3585, 0x106aa070],
     [0x19a4c116, 0x1e376c08, 0x2748774c, 0x34b0bcb5, 0x391c0cb3, 0x4ed8aa4a, 0x5b9cca4f, 0x682e6ff3],
     [0x748f82ee, 0x78a5636f, 0x84c87814, 0x8cc70208, 0x90befffa, 0xa4506ceb, 0xbef9a3f7, 0xc67178f2]]"

text \<open>How many zero bytes the padding loop still has to push at length \<open>r\<close> modulo 64.\<close>

definition pad_gap :: "nat \<Rightarrow> nat" where
  "pad_gap r = (if r \<le> 56 then 56 - r else 120 - r)"

lemma pad_gap_Suc: "n mod 64 \<noteq> 56 \<Longrightarrow> pad_gap (n mod 64) = Suc (pad_gap (Suc n mod 64))"
proof -
  have "n mod 64 < 64" by simp
  then show "n mod 64 \<noteq> 56 \<Longrightarrow> pad_gap (n mod 64) = Suc (pad_gap (Suc n mod 64))"
    by (auto simp: pad_gap_def mod_Suc)
qed

text \<open>The loop \<open>while message.len() % 64 != 56 { message.push(0) }\<close>.\<close>

function pad_loop :: "bytes \<Rightarrow> bytes" where
  "pad_loop m = (if length m mod 64 \<noteq> 56 then pad_loop (m @ [0]) else m)"
  by pat_completeness auto

termination
  by (relation "measure (\<lambda>m. pad_gap (length m mod 64))") (auto simp: pad_gap_Suc)

declare pad_loop.simps [simp del]

definition sha256_message :: "bytes \<Rightarrow> bytes" where
  "sha256_message data =
     (let bit_len = of_nat (length data) * 8 :: u64;
          message = data @ [0x80];
          message = pad_loop message
      in message @ to_be_bytes 8 bit_len)"

text \<open>\<open>chunks_exact\<close>.\<close>

function chunks_exact :: "nat \<Rightarrow> 'a list \<Rightarrow> 'a list list" where
  "chunks_exact n xs =
     (if n = 0 \<or> length xs < n then [] else take n xs # chunks_exact n (drop n xs))"
  by pat_completeness auto

termination
  by (relation "measure (\<lambda>(n, xs). length xs)") auto

declare chunks_exact.simps [simp del]

definition schedule_load :: "bytes \<Rightarrow> u32 list" where
  "schedule_load block =
     fold (\<lambda>i w. w[i := from_be_bytes
        [block ! (i * 4), block ! (i * 4 + 1), block ! (i * 4 + 2), block ! (i * 4 + 3)]])
       [0..<16] (replicate 64 0)"

definition schedule_step :: "nat \<Rightarrow> u32 list \<Rightarrow> u32 list" where
  "schedule_step i w =
     (let s0 = word_rotr 7 (w ! (i - 15)) XOR word_rotr 18 (w ! (i - 15)) XOR drop_bit 3 (w ! (i - 15));
          s1 = word_rotr 17 (w ! (i - 2)) XOR word_rotr 19 (w ! (i - 2)) XOR drop_bit 10 (w ! (i - 2))
      in w[i := w ! (i - 16) + s0 + w ! (i - 7) + s1])"

definition schedule :: "bytes \<Rightarrow> u32 list" where
  "schedule block = fold schedule_step [16..<64] (schedule_load block)"

definition round_step :: "u32 list \<Rightarrow> nat \<Rightarrow> u32 list \<Rightarrow> u32 list" where
  "round_step w i v =
     (let s1 = word_rotr 6 (v ! 4) XOR word_rotr 11 (v ! 4) XOR word_rotr 25 (v ! 4);
          ch = (v ! 4 AND v ! 5) XOR ((NOT (v ! 4)) AND v ! 6);
          t1 = v ! 7 + s1 + ch + K_CONST ! i + w ! i;
          s0 = word_rotr 2 (v ! 0) XOR word_rotr 13 (v ! 0) XOR word_rotr 22 (v ! 0);
          maj = (v ! 0 AND v ! 1) XOR (v ! 0 AND v ! 2) XOR (v ! 1 AND v ! 2);
          t2 = s0 + maj;
          v = v[7 := v ! 6];
          v = v[6 := v ! 5];
          v = v[5 := v ! 4];
          v = v[4 := v ! 3 + t1];
          v = v[3 := v ! 2];
          v = v[2 := v ! 1];
          v = v[1 := v ! 0]
      in v[0 := t1 + t2])"

definition sha256_block :: "bytes \<Rightarrow> u32 list \<Rightarrow> u32 list" where
  "sha256_block block h =
     (let w = schedule block;
          v = fold (round_step w) [0..<64] h
      in fold (\<lambda>i h. h[i := h ! i + v ! i]) [0..<8] h)"

definition sha256 :: "bytes \<Rightarrow> bytes" where
  "sha256 data =
     (let h = fold sha256_block (chunks_exact 64 (sha256_message data)) H_INIT
      in concat (map (\<lambda>i. to_be_bytes 4 (h ! i)) [0..<8]))"

section \<open>HMAC and hex\<close>

text \<open>\<open>dst[..src.len()].copy_from_slice(src)\<close>.\<close>

definition copy_prefix :: "'a list \<Rightarrow> 'a list \<Rightarrow> 'a list" where
  "copy_prefix src dst = src @ drop (length src) dst"

definition hmac_sha256 :: "bytes \<Rightarrow> bytes \<Rightarrow> bytes" where
  "hmac_sha256 key msg =
     (let k = (if 64 < length key then copy_prefix (sha256 key) (replicate 64 0)
               else copy_prefix key (replicate 64 0));
          ipad = map (\<lambda>i. replicate 64 0x36 ! i XOR k ! i) [0..<64];
          opad = map (\<lambda>i. replicate 64 0x5c ! i XOR k ! i) [0..<64];
          inner_hash = sha256 (ipad @ msg)
      in sha256 (opad @ inner_hash))"

text \<open>\<open>char::from_digit(d, 16)\<close> on a nibble, as the byte pushed to the string.\<close>

definition hex_digit :: "u8 \<Rightarrow> u8" where
  "hex_digit d = (if d < 10 then 48 + d else 87 + d)"

definition to_hex :: "bytes \<Rightarrow> bytes" where
  "to_hex bs = concat (map (\<lambda>b. [hex_digit (drop_bit 4 b), hex_digit (b AND 0xf)]) bs)"

section \<open>Lengths\<close>

lemma length_sha256 [simp]: "length (sha256 m) = 32"
  by (simp add: sha256_def Let_def length_concat o_def sum_list_triv)

lemma length_hmac_sha256 [simp]: "length (hmac_sha256 key msg) = 32"
  by (simp add: hmac_sha256_def Let_def)

lemma length_to_hex [simp]: "length (to_hex bs) = 2 * length bs"
  by (simp add: to_hex_def length_concat o_def sum_list_triv)

end
