(* ===== verification/Onced_Fips.thy ===== *)
theory Onced_Fips
  imports Complex_Main Onced_Hash
begin

text \<open>
  The standards that \<^verbatim>\<open>onced-core/src/hash.rs\<close> implements, and that it implements them: FIPS 180-4 with its
  message schedule recursion, eight working variables and constants from the roots of the primes, and
  RFC 2104 over that hash.
\<close>

section \<open>FIPS 180-4\<close>

text \<open>The functions and the message schedule of the standard, on eight working variables. Its constants are the first
  thirty-two bits of the fractional parts of the cube roots of the first sixty-four primes, and of the square roots
  of the first eight.\<close>

definition fips_prime :: "nat \<Rightarrow> bool" where
  "fips_prime p \<longleftrightarrow> 1 < p \<and> (\<forall>d \<in> {2..<p}. \<not> d dvd p)"

definition fips_primes :: "nat list" where
  "fips_primes = filter fips_prime [2..<312]"

definition fips_fraction :: "nat \<Rightarrow> nat \<Rightarrow> u32" where
  "fips_fraction k p = of_int \<lfloor>frac (root k (real p)) * 2 ^ 32\<rfloor>"

definition fips_K :: "u32 list" where
  "fips_K = map (fips_fraction 3) fips_primes"

definition fips_H :: "u32 list" where
  "fips_H = map (fips_fraction 2) (take 8 fips_primes)"

definition fips_Ch :: "u32 \<Rightarrow> u32 \<Rightarrow> u32 \<Rightarrow> u32" where
  "fips_Ch x y z = (x AND y) XOR ((NOT x) AND z)"

definition fips_Maj :: "u32 \<Rightarrow> u32 \<Rightarrow> u32 \<Rightarrow> u32" where
  "fips_Maj x y z = (x AND y) XOR (x AND z) XOR (y AND z)"

definition fips_Sigma0 :: "u32 \<Rightarrow> u32" where
  "fips_Sigma0 x = word_rotr 2 x XOR word_rotr 13 x XOR word_rotr 22 x"

definition fips_Sigma1 :: "u32 \<Rightarrow> u32" where
  "fips_Sigma1 x = word_rotr 6 x XOR word_rotr 11 x XOR word_rotr 25 x"

definition fips_sigma0 :: "u32 \<Rightarrow> u32" where
  "fips_sigma0 x = word_rotr 7 x XOR word_rotr 18 x XOR drop_bit 3 x"

definition fips_sigma1 :: "u32 \<Rightarrow> u32" where
  "fips_sigma1 x = word_rotr 17 x XOR word_rotr 19 x XOR drop_bit 10 x"

fun fips_W :: "(nat \<Rightarrow> u32) \<Rightarrow> nat \<Rightarrow> u32" where
  "fips_W M t =
     (if t < 16 then M t
      else fips_sigma1 (fips_W M (t - 2)) + fips_W M (t - 7)
         + fips_sigma0 (fips_W M (t - 15)) + fips_W M (t - 16))"

declare fips_W.simps [simp del]

type_synonym working = "u32 \<times> u32 \<times> u32 \<times> u32 \<times> u32 \<times> u32 \<times> u32 \<times> u32"

fun fips_round :: "(nat \<Rightarrow> u32) \<Rightarrow> nat \<Rightarrow> working \<Rightarrow> working" where
  "fips_round W t (a, b, c, d, e, f, g, h) =
     (let T1 = h + fips_Sigma1 e + fips_Ch e f g + fips_K ! t + W t;
          T2 = fips_Sigma0 a + fips_Maj a b c
      in (T1 + T2, a, b, c, d + T1, e, f, g))"

fun fips_add :: "working \<Rightarrow> working \<Rightarrow> working" where
  "fips_add (a, b, c, d, e, f, g, h) (a', b', c', d', e', f', g', h') =
     (a + a', b + b', c + c', d + d', e + e', f + f', g + g', h + h')"

definition fips_word :: "bytes \<Rightarrow> nat \<Rightarrow> u32" where
  "fips_word block t = from_be_bytes (take 4 (drop (4 * t) block))"

definition fips_compress :: "bytes \<Rightarrow> working \<Rightarrow> working" where
  "fips_compress block H = fips_add H (fold (fips_round (fips_W (fips_word block))) [0..<64] H)"

text \<open>The padding: one \<open>1\<close> bit, the least number of zero bits up to 448 modulo 512, the length.\<close>

definition fips_pad :: "bytes \<Rightarrow> bytes" where
  "fips_pad m =
     m @ [0x80] @ replicate (LEAST k. (length m + 1 + k) mod 64 = 56) 0
       @ to_be_bytes 8 (of_nat (8 * length m) :: u64)"

definition fips_init :: working where
  "fips_init = (fips_H ! 0, fips_H ! 1, fips_H ! 2, fips_H ! 3, fips_H ! 4, fips_H ! 5, fips_H ! 6, fips_H ! 7)"

fun fips_digest :: "working \<Rightarrow> bytes" where
  "fips_digest (a, b, c, d, e, f, g, h) =
     to_be_bytes 4 a @ to_be_bytes 4 b @ to_be_bytes 4 c @ to_be_bytes 4 d
     @ to_be_bytes 4 e @ to_be_bytes 4 f @ to_be_bytes 4 g @ to_be_bytes 4 h"

definition fips_sha256 :: "bytes \<Rightarrow> bytes" where
  "fips_sha256 m = fips_digest (fold fips_compress (chunks_exact 64 (fips_pad m)) fips_init)"

section \<open>The routines implement the standard\<close>

lemma pad_loop_eq: "pad_loop m = m @ replicate (pad_gap (length m mod 64)) 0"
proof (induction m rule: pad_loop.induct)
  case (1 m)
  show ?case
  proof (cases "length m mod 64 = 56")
    case True
    then show ?thesis by (simp add: pad_loop.simps [of m] pad_gap_def)
  next
    case False
    then show ?thesis using 1
      by (simp add: pad_loop.simps [of m] pad_gap_Suc)
  qed
qed

lemma pad_gap_hits: "(n + pad_gap (n mod 64)) mod 64 = 56"
proof -
  have "n mod 64 < 64" by simp
  then have "(n mod 64 + pad_gap (n mod 64)) mod 64 = 56" by (auto simp: pad_gap_def)
  then show ?thesis by (simp add: mod_add_left_eq)
qed

lemma pad_gap_least: "(LEAST k. (n + k) mod 64 = 56) = pad_gap (n mod 64)"
proof (rule Least_equality)
  show "(n + pad_gap (n mod 64)) mod 64 = 56" by (rule pad_gap_hits)
next
  fix k assume "(n + k) mod 64 = 56"
  then have *: "(n mod 64 + k) mod 64 = 56" by (simp add: mod_add_left_eq)
  have r: "n mod 64 < 64" by simp
  show "pad_gap (n mod 64) \<le> k"
  proof (cases "n mod 64 + k < 64")
    case True
    with * show ?thesis by (simp add: pad_gap_def)
  next
    case False
    show ?thesis
    proof (rule ccontr)
      assume "\<not> pad_gap (n mod 64) \<le> k"
      with r False have "n mod 64 + k - 64 < 56" by (auto simp: pad_gap_def split: if_splits)
      with False * show False by (simp add: le_mod_geq)
    qed
  qed
qed

lemma sha256_message_pad: "sha256_message m = fips_pad m"
  using pad_gap_least [of "Suc (length m)"]
  by (simp add: sha256_message_def fips_pad_def pad_loop_eq Let_def ac_simps)

lemma length_sha256_message_mod: "length (sha256_message m) mod 64 = 0"
proof -
  let ?x = "Suc (length m) + pad_gap (Suc (length m) mod 64)"
  have "(?x + 8) mod 64 = (56 + 8) mod 64"
    using pad_gap_hits [of "Suc (length m)"] by (metis mod_add_left_eq)
  then show ?thesis by (simp add: sha256_message_def pad_loop_eq Let_def ac_simps)
qed

text \<open>Schedule: the in-place array agrees with the recursion of the standard.\<close>

lemma length_fold_update [simp]: "length (fold (\<lambda>i w. w[i := f i w]) is w) = length w"
  by (induction "is" arbitrary: w) simp_all

lemma length_schedule_load [simp]: "length (schedule_load b) = 64"
  by (simp add: schedule_load_def)

lemma length_schedule_step [simp]: "length (schedule_step i w) = length w"
  by (simp add: schedule_step_def Let_def)

lemma fold_update_nth:
  "j < length w \<Longrightarrow> fold (\<lambda>i w. w[i := f i]) [0..<n] w ! j = (if j < n then f j else w ! j)"
  by (induction n) (auto simp: nth_list_update less_Suc_eq)

lemma four_bytes:
  "4 * i + 4 \<le> length b \<Longrightarrow> take 4 (drop (4 * i) b) = [b ! (i * 4), b ! (i * 4 + 1), b ! (i * 4 + 2), b ! (i * 4 + 3)]"
  by (rule nth_equalityI) (auto simp: less_Suc_eq numeral_eq_Suc ac_simps)

lemma schedule_load_nth:
  "length b = 64 \<Longrightarrow> i < 16 \<Longrightarrow> schedule_load b ! i = fips_word b i"
  by (simp add: schedule_load_def fold_update_nth fips_word_def four_bytes)

lemma schedule_prefix:
  assumes "length b = 64" and "16 \<le> n" and "n \<le> 64"
  shows "length (fold schedule_step [16..<n] (schedule_load b)) = 64 \<and>
    (\<forall>i < n. fold schedule_step [16..<n] (schedule_load b) ! i = fips_W (fips_word b) i)"
  using assms(2,3)
proof (induction n rule: dec_induct)
  case base
  then show ?case using assms(1)
    by (auto simp: schedule_load_nth fips_W.simps)
next
  case (step n)
  let ?w = "fold schedule_step [16..<n] (schedule_load b)"
  have IH: "length ?w = 64" "\<And>i. i < n \<Longrightarrow> ?w ! i = fips_W (fips_word b) i"
    using step by auto
  have "schedule_step n ?w ! i = fips_W (fips_word b) i" if "i < Suc n" for i
  proof (cases "i = n")
    case True
    have "fips_W (fips_word b) n = ?w ! (n - 16) + fips_sigma0 (?w ! (n - 15)) + ?w ! (n - 7)
        + fips_sigma1 (?w ! (n - 2))"
      using step.hyps IH(2) by (subst fips_W.simps) (simp add: ac_simps)
    with True IH(1) step.prems show ?thesis
      by (simp add: schedule_step_def Let_def fips_sigma0_def fips_sigma1_def)
  next
    case False
    with that IH show ?thesis by (simp add: schedule_step_def Let_def)
  qed
  with step.hyps IH(1) show ?case by simp
qed

lemma schedule_nth:
  "length b = 64 \<Longrightarrow> i < 64 \<Longrightarrow> schedule b ! i = fips_W (fips_word b) i"
  using schedule_prefix [of b 64] by (simp add: schedule_def)

text \<open>The constants.\<close>

definition trial_prime :: "nat \<Rightarrow> bool" where
  "trial_prime p \<longleftrightarrow> 1 < p \<and> list_all (\<lambda>d. p mod d \<noteq> 0 \<or> p = d) [2, 3, 5, 7, 11, 13, 17]"

lemma fips_prime_trial:
  assumes "p < 324"
  shows "fips_prime p \<longleftrightarrow> trial_prime p"
proof
  assume "fips_prime p"
  then have "1 < p" and no: "\<And>d. 1 < d \<Longrightarrow> d < p \<Longrightarrow> \<not> d dvd p" by (auto simp: fips_prime_def)
  have m: "p mod d \<noteq> 0 \<or> p = d" if "1 < d" for d
    using no [OF that] dvd_imp_le [of d p] \<open>1 < p\<close> by (fastforce simp: dvd_eq_mod_eq_0)
  show "trial_prime p" unfolding trial_prime_def list.pred_inject
    using \<open>1 < p\<close> m [of 2] m [of 3] m [of 5] m [of 7] m [of 11] m [of 13] m [of 17] by simp
next
  assume t: "trial_prime p"
  have "\<not> d dvd p" if d: "1 < d" "d < p" for d
  proof
    assume "d dvd p"
    then obtain c where c: "p = d * c" by auto
    then have "1 < c" using d by (cases "c = 0"; cases "c = 1") auto
    define b where "b = min c d"
    have b: "b dvd p" "1 < b" "b < p" using c d \<open>1 < c\<close> by (auto simp: b_def min_def)
    have "b * b \<le> p" unfolding c b_def by (simp add: min_def mult_le_mono)
    then have "b < 18" using assms by (rule_tac ccontr) (use mult_le_mono [of 18 b 18 b] in auto)
    then have "b \<in> set [2..<18]" using b(2) unfolding set_upt by simp
    moreover have "\<forall>b \<in> set [2..<18 :: nat]. \<exists>q \<in> set [2, 3, 5, 7, 11, 13, 17]. q dvd b" by simp
    ultimately obtain q where q: "q \<in> set [2, 3, 5, 7, 11, 13, 17]" "q dvd b" by blast
    then have "q dvd p" "q < p" using b dvd_imp_le [of q b] by (auto intro: dvd_trans)
    moreover have "p mod q \<noteq> 0 \<or> p = q" using t q(1) unfolding trial_prime_def list_all_iff by blast
    ultimately show False by (simp add: dvd_eq_mod_eq_0)
  qed
  then show "fips_prime p" using t by (auto simp: fips_prime_def trial_prime_def)
qed

lemma fips_primes_eq:
  "fips_primes =
    [2, 3, 5, 7, 11, 13, 17, 19, 23, 29, 31, 37, 41, 43, 47, 53, 59, 61, 67, 71, 73, 79, 83, 89, 97, 101, 103, 107, 109,
     113, 127, 131, 137, 139, 149, 151, 157, 163, 167, 173, 179, 181, 191, 193, 197, 199, 211, 223, 227, 229, 233, 239,
     241, 251, 257, 263, 269, 271, 277, 281, 283, 293, 307, 311]"
proof -
  have "fips_primes = filter trial_prime [2..<312]" unfolding fips_primes_def
  proof (rule filter_cong)
    show "fips_prime p \<longleftrightarrow> trial_prime p" if "p \<in> set [2..<312]" for p
      using that unfolding set_upt by (intro fips_prime_trial) simp
  qed simp
  then show ?thesis by (simp add: trial_prime_def)
qed

text \<open>The bits of a root, decided with integers: the integer part of the root is the number of \<open>j\<close> with
  \<open>j ^ k \<le> p\<close>.\<close>

definition root_bits :: "nat \<Rightarrow> nat \<Rightarrow> u32 \<Rightarrow> bool" where
  "root_bits k p w \<longleftrightarrow>
     (let n = length (filter (\<lambda>j. j ^ k \<le> p) [1, 2, 3, 4, 5, 6]) * 2 ^ 32 + unat w
      in n ^ k \<le> p * 2 ^ (32 * k) \<and> p * 2 ^ (32 * k) < (n + 1) ^ k)"

lemma fips_fraction_bits:
  assumes "0 < k" and "root_bits k p w"
  shows "fips_fraction k p = w"
proof -
  define n where "n = length (filter (\<lambda>j. j ^ k \<le> p) [1, 2, 3, 4, 5, 6]) * 2 ^ 32 + unat w"
  let ?x = "root k (real p)"
  have pow: "(?x * 2 ^ 32) ^ k = real (p * 2 ^ (32 * k))" using assms(1) by (simp add: power_mult_distrib power_mult)
  have le: "n ^ k \<le> p * 2 ^ (32 * k)" and less: "p * 2 ^ (32 * k) < (n + 1) ^ k"
    using assms(2) unfolding root_bits_def Let_def n_def by blast+
  have nn: "0 \<le> ?x * 2 ^ 32" using assms(1) by simp
  have "real n ^ k \<le> (?x * 2 ^ 32) ^ k" unfolding pow using le by (simp only: of_nat_power [symmetric] of_nat_le_iff)
  then have lo: "real n \<le> ?x * 2 ^ 32" using power_mono_iff [OF _ nn assms(1), of "real n"] by simp
  have "(?x * 2 ^ 32) ^ k < real (n + 1) ^ k" unfolding pow using less by (simp only: of_nat_power [symmetric] of_nat_less_iff)
  then have "?x * 2 ^ 32 < real (n + 1)" using power_less_imp_less_base of_nat_0_le_iff by blast
  with lo have fl: "\<lfloor>?x * 2 ^ 32\<rfloor> = int n" by (intro floor_unique) auto
  have "frac ?x * 2 ^ 32 = ?x * 2 ^ 32 - of_int (\<lfloor>?x\<rfloor> * 2 ^ 32)" by (simp add: frac_def left_diff_distrib)
  then have "\<lfloor>frac ?x * 2 ^ 32\<rfloor> = int n - \<lfloor>?x\<rfloor> * 2 ^ 32" by (simp only: floor_diff_of_int fl)
  then have "fips_fraction k p = of_int (int n) - of_int \<lfloor>?x\<rfloor> * 2 ^ 32" by (simp add: fips_fraction_def)
  moreover have "(4294967296 :: u32) = 0" by simp
  ultimately show ?thesis by (simp add: n_def)
qed

lemma fips_fractions:
  assumes "0 < k" and "list_all2 (root_bits k) ps ws"
  shows "map (fips_fraction k) ps = ws"
  using assms(2) by (induction ps ws rule: list_all2_induct) (simp_all add: fips_fraction_bits [OF assms(1)])

lemma fips_K_eq: "fips_K = K_CONST"
  unfolding fips_K_def by (rule fips_fractions) (simp_all add: fips_primes_eq K_CONST_def root_bits_def)

lemma fips_H_eq: "fips_H = H_INIT"
  unfolding fips_H_def by (rule fips_fractions) (simp_all add: fips_primes_eq H_INIT_def root_bits_def)

text \<open>Rounds: the eight-element array holds the working variables.\<close>

fun to_array :: "working \<Rightarrow> u32 list" where
  "to_array (a, b, c, d, e, f, g, h) = [a, b, c, d, e, f, g, h]"

lemma round_step_fips:
  "w ! t = W t \<Longrightarrow> round_step w t (to_array x) = to_array (fips_round W t x)"
  by (cases x rule: to_array.cases)
    (simp add: round_step_def Let_def fips_Sigma0_def fips_Sigma1_def fips_Ch_def fips_Maj_def
      fips_K_eq numeral_eq_Suc)

lemma rounds_fips:
  "\<forall>t < n. w ! t = W t \<Longrightarrow>
     fold (round_step w) [0..<n] (to_array x) = to_array (fold (fips_round W) [0..<n] x)"
  by (induction n) (simp_all add: round_step_fips)

lemma add_array_fips:
  "fold (\<lambda>i h. h[i := h ! i + to_array v ! i]) [0..<8] (to_array x) = to_array (fips_add x v)"
  by (cases x rule: to_array.cases; cases v rule: to_array.cases) (simp add: upt_rec numeral_eq_Suc)

lemma sha256_block_fips:
  assumes "length b = 64"
  shows "sha256_block b (to_array x) = to_array (fips_compress b x)"
proof -
  have "fold (round_step (schedule b)) [0..<64] (to_array x)
    = to_array (fold (fips_round (fips_W (fips_word b))) [0..<64] x)"
    using assms by (intro rounds_fips) (simp add: schedule_nth)
  then show ?thesis by (simp add: sha256_block_def Let_def fips_compress_def add_array_fips)
qed

lemma length_chunks_exact: "b \<in> set (chunks_exact n xs) \<Longrightarrow> length b = n"
proof (induction n xs rule: chunks_exact.induct)
  case (1 n xs)
  then show ?case by (auto simp: chunks_exact.simps [of n xs] split: if_splits)
qed

lemma fold_blocks_fips:
  "\<forall>b \<in> set bs. length b = 64 \<Longrightarrow>
     fold sha256_block bs (to_array x) = to_array (fold fips_compress bs x)"
  by (induction bs arbitrary: x) (simp_all add: sha256_block_fips)

lemma digest_fips: "concat (map (\<lambda>i. to_be_bytes 4 (to_array x ! i)) [0..<8]) = fips_digest x"
  by (cases x rule: to_array.cases) (simp add: upt_rec numeral_eq_Suc)

lemma sha256_fips: "sha256 m = fips_sha256 m"
proof -
  have init: "H_INIT = to_array fips_init" by (simp add: H_INIT_def fips_init_def fips_H_eq)
  have "fold sha256_block (chunks_exact 64 (fips_pad m)) (to_array fips_init)
    = to_array (fold fips_compress (chunks_exact 64 (fips_pad m)) fips_init)"
    by (intro fold_blocks_fips) (simp add: length_chunks_exact)
  then show ?thesis
    by (simp add: sha256_def fips_sha256_def Let_def sha256_message_pad init digest_fips)
qed

text \<open>Distinct messages have distinct paddings, up to the length the standard allows.\<close>

lemma sha256_message_inj:
  assumes "length a < 2 ^ 61" and "length b < 2 ^ 61" and "sha256_message a = sha256_message b"
  shows "a = b"
proof -
  let ?len = "\<lambda>m. of_nat (length m) * 8 :: u64"
  have split: "sha256_message m = (m @ 0x80 # replicate (pad_gap (Suc (length m) mod 64)) 0)
      @ to_be_bytes 8 (?len m)" for m
    by (simp add: sha256_message_def pad_loop_eq Let_def)
  have "to_be_bytes 8 (?len a) = to_be_bytes 8 (?len b)"
    using assms(3) unfolding split by (metis append_eq_append_conv length_to_be_bytes)
  then have "?len a = ?len b" by (simp add: to_be_bytes_inject)
  moreover have "unat (?len m) = length m * 8" if "length m < 2 ^ 61" for m
    using that by (simp add: unat_word_ariths unat_of_nat)
  ultimately have "length a = length b"
    using assms(1,2) by (metis mult_cancel2 zero_neq_numeral)
  with assms(3) show ?thesis unfolding split by simp
qed

section \<open>RFC 2104\<close>

text \<open>\<open>H(K0 xor opad, H(K0 xor ipad, text))\<close> with the key hashed if long and zero-padded.\<close>

definition rfc_K0 :: "bytes \<Rightarrow> bytes" where
  "rfc_K0 K = (let K = (if length K > 64 then fips_sha256 K else K) in K @ replicate (64 - length K) 0)"

definition rfc_hmac :: "bytes \<Rightarrow> bytes \<Rightarrow> bytes" where
  "rfc_hmac K text =
     fips_sha256 (map (\<lambda>b. b XOR 0x5c) (rfc_K0 K) @ fips_sha256 (map (\<lambda>b. b XOR 0x36) (rfc_K0 K) @ text))"

lemma length_rfc_K0 [simp]: "length (rfc_K0 K) = 64"
  by (simp add: rfc_K0_def Let_def flip: sha256_fips)

lemma hmac_rfc: "hmac_sha256 key msg = rfc_hmac key msg"
proof -
  have k: "(if 64 < length key then copy_prefix (sha256 key) (replicate 64 0)
      else copy_prefix key (replicate 64 0)) = rfc_K0 key"
    by (simp add: copy_prefix_def rfc_K0_def Let_def flip: sha256_fips)
  have pad: "map (\<lambda>i. replicate 64 c ! i XOR rfc_K0 key ! i) [0..<64] = map (\<lambda>b. b XOR c) (rfc_K0 key)"
    for c by (rule nth_equalityI) (simp_all add: xor.commute)
  show ?thesis unfolding hmac_sha256_def k Let_def pad unfolding rfc_hmac_def sha256_fips ..
qed

text \<open>The two key collisions that HMAC has by construction.\<close>

lemma hmac_long_key: "64 < length key \<Longrightarrow> hmac_sha256 key msg = hmac_sha256 (sha256 key) msg"
  by (simp add: hmac_rfc rfc_hmac_def rfc_K0_def Let_def flip: sha256_fips)

lemma hmac_zero_extend: "length key < 64 \<Longrightarrow> hmac_sha256 (key @ [0]) msg = hmac_sha256 key msg"
proof -
  assume "length key < 64"
  then have "replicate (64 - length key) (0::u8) = 0 # replicate (64 - Suc (length key)) 0"
    by (metis Suc_diff_Suc replicate_Suc)
  with \<open>length key < 64\<close> have "rfc_K0 (key @ [0]) = rfc_K0 key" by (simp add: rfc_K0_def)
  then show ?thesis by (simp add: hmac_rfc rfc_hmac_def)
qed

end
