(* ===== verification/Onced_Types.thy ===== *)
theory Onced_Types
  imports Onced_Prelude
begin

text \<open>
  The shared vocabulary of \<^verbatim>\<open>onced-core/src/lib.rs\<close>: idempotency keys, request
  fingerprints, fences, cached outcomes and the persisted state of a key. Newtype
  structs are one-constructor datatypes, the derived \<open>Ord\<close> of keys and fences is an
  instance of \<^verbatim>\<open>linorder\<close>. The invariants that the Rust types enforce (UTF-8
  strings, 32-byte arrays, ordered maps) are the predicates \<open>wf_key\<close>, \<open>wf_outcome\<close>
  and \<open>wf_state\<close>.
\<close>

datatype idempotency_key = IdempotencyKey (key_bytes: bytes)

datatype request_fingerprint = RequestFingerprint (fp_bytes: bytes)

datatype fence = Fence (fence_val: u64)

record cached_outcome =
  co_status :: u16
  co_headers :: "(bytes, bytes) btreemap"
  co_body :: bytes

datatype key_state =
    InProgress fence request_fingerprint u64
  | Completed request_fingerprint cached_outcome u64

instantiation fence :: linorder
begin

definition less_eq_fence :: "fence \<Rightarrow> fence \<Rightarrow> bool" where
  "less_eq_fence a b \<longleftrightarrow> fence_val a \<le> fence_val b"

definition less_fence :: "fence \<Rightarrow> fence \<Rightarrow> bool" where
  "less_fence a b \<longleftrightarrow> fence_val a < fence_val b"

instance
  by standard (auto simp: less_eq_fence_def less_fence_def fence.expand)

end

instantiation idempotency_key :: linorder
begin

definition less_eq_idempotency_key :: "idempotency_key \<Rightarrow> idempotency_key \<Rightarrow> bool" where
  "less_eq_idempotency_key a b \<longleftrightarrow> key_bytes a \<le> key_bytes b"

definition less_idempotency_key :: "idempotency_key \<Rightarrow> idempotency_key \<Rightarrow> bool" where
  "less_idempotency_key a b \<longleftrightarrow> key_bytes a < key_bytes b"

instance
  by standard
    (auto simp: less_eq_idempotency_key_def less_idempotency_key_def idempotency_key.expand)

end

lemma fence_less_neq [dest]: "fence_val f < n \<Longrightarrow> Fence n \<noteq> f"
  by auto

text \<open>What the Rust types guarantee of every value.\<close>

definition wf_str :: "bytes \<Rightarrow> bool" where
  "wf_str s \<longleftrightarrow> utf8_valid s"

definition wf_key :: "idempotency_key \<Rightarrow> bool" where
  "wf_key k \<longleftrightarrow> wf_str (key_bytes k)"

definition wf_fp :: "request_fingerprint \<Rightarrow> bool" where
  "wf_fp f \<longleftrightarrow> length (fp_bytes f) = 32"

definition wf_outcome :: "cached_outcome \<Rightarrow> bool" where
  "wf_outcome oc \<longleftrightarrow>
     bt_wf (co_headers oc) \<and> (\<forall>(n, v) \<in> set (co_headers oc). wf_str n \<and> wf_str v)"

fun wf_state :: "key_state \<Rightarrow> bool" where
  "wf_state (InProgress f fp l) \<longleftrightarrow> wf_fp fp"
| "wf_state (Completed fp oc t) \<longleftrightarrow> wf_fp fp \<and> wf_outcome oc"

text \<open>The fence an in-progress key records.\<close>

fun in_progress_fence :: "key_state \<Rightarrow> u64 option" where
  "in_progress_fence (InProgress f fp l) = Some (fence_val f)"
| "in_progress_fence (Completed fp oc t) = None"

end
