(* ===== verification/Onced_Wal_Codec.thy ===== *)
theory Onced_Wal_Codec
  imports Onced_Types Onced_Hash "HOL-Library.Monad_Syntax"
begin

text \<open>
  The on-disk record codec of \<^verbatim>\<open>onced-core/src/wal.rs\<close>: CRC-32, the hash chain, the
  little-endian writers, the bounds-checked reader, \<open>encode_record\<close>, \<open>decode_record\<close>
  and \<open>is_complete_frame\<close>. The lemmas show that decoding inverts encoding, that it reads
  exactly one record and never past the end, and that no strict prefix of a record decodes
  or looks like a complete frame.
\<close>

section \<open>Definitions\<close>

definition TAG_IN_PROGRESS :: u8 where "TAG_IN_PROGRESS = 0"

definition TAG_COMPLETED :: u8 where "TAG_COMPLETED = 1"

definition GENESIS :: bytes where "GENESIS = replicate 32 0"

definition HEADER_LEN :: nat where "HEADER_LEN = 4 + 4 + 32"

fun crc32_bits :: "nat \<Rightarrow> u32 \<Rightarrow> u32" where
  "crc32_bits 0 crc = crc"
| "crc32_bits (Suc n) crc =
     (let mask = - (crc AND 1) in crc32_bits n (drop_bit 1 crc XOR (0xEDB88320 AND mask)))"

definition crc32 :: "bytes \<Rightarrow> u32" where
  "crc32 data = NOT (fold (\<lambda>byte crc. crc32_bits 8 (crc XOR ucast byte)) data 0xFFFFFFFF)"

definition compute_chain :: "bytes \<Rightarrow> u32 \<Rightarrow> bytes \<Rightarrow> bytes" where
  "compute_chain prev_chain crc payload = sha256 (prev_chain @ to_le_bytes 4 crc @ payload)"

definition put_u16 :: "bytes \<Rightarrow> u16 \<Rightarrow> bytes" where
  "put_u16 buf x = buf @ to_le_bytes 2 x"

definition put_u32 :: "bytes \<Rightarrow> u32 \<Rightarrow> bytes" where
  "put_u32 buf x = buf @ to_le_bytes 4 x"

definition put_u64 :: "bytes \<Rightarrow> u64 \<Rightarrow> bytes" where
  "put_u64 buf x = buf @ to_le_bytes 8 x"

definition put_bytes :: "bytes \<Rightarrow> bytes \<Rightarrow> bytes" where
  "put_bytes buf bs = put_u32 buf (of_nat (length bs)) @ bs"

definition put_str :: "bytes \<Rightarrow> bytes \<Rightarrow> bytes" where
  "put_str buf s = put_bytes buf s"

text \<open>\<open>usize::checked_add\<close> on a 64-bit target, and \<open>slice.get(a..b)\<close>.\<close>

definition checked_add :: "nat \<Rightarrow> nat \<Rightarrow> nat option" where
  "checked_add a b = (if a + b < 2 ^ 64 then Some (a + b) else None)"

definition get_range :: "'a list \<Rightarrow> nat \<Rightarrow> nat \<Rightarrow> 'a list option" where
  "get_range xs a b = (if a \<le> b \<and> b \<le> length xs then Some (take (b - a) (drop a xs)) else None)"

record reader =
  rd_buf :: bytes
  rd_pos :: nat

definition reader_new :: "bytes \<Rightarrow> reader" where
  "reader_new buf = \<lparr>rd_buf = buf, rd_pos = 0\<rparr>"

definition reader_take :: "nat \<Rightarrow> reader \<Rightarrow> (bytes \<times> reader) option" where
  "reader_take n r = do {
     end \<leftarrow> checked_add (rd_pos r) n;
     slice \<leftarrow> get_range (rd_buf r) (rd_pos r) end;
     Some (slice, r\<lparr>rd_pos := end\<rparr>)
   }"

definition reader_u8 :: "reader \<Rightarrow> (u8 \<times> reader) option" where
  "reader_u8 r = do { (b, r) \<leftarrow> reader_take 1 r; Some (b ! 0, r) }"

definition reader_u16 :: "reader \<Rightarrow> (u16 \<times> reader) option" where
  "reader_u16 r = do { (b, r) \<leftarrow> reader_take 2 r; Some (from_le_bytes b, r) }"

definition reader_u32 :: "reader \<Rightarrow> (u32 \<times> reader) option" where
  "reader_u32 r = do { (b, r) \<leftarrow> reader_take 4 r; Some (from_le_bytes b, r) }"

definition reader_u64 :: "reader \<Rightarrow> (u64 \<times> reader) option" where
  "reader_u64 r = do { (b, r) \<leftarrow> reader_take 8 r; Some (from_le_bytes b, r) }"

definition reader_arr32 :: "reader \<Rightarrow> (bytes \<times> reader) option" where
  "reader_arr32 r = reader_take 32 r"

definition reader_bytes :: "reader \<Rightarrow> (bytes \<times> reader) option" where
  "reader_bytes r = do { (n, r) \<leftarrow> reader_u32 r; reader_take (unat n) r }"

definition reader_string :: "reader \<Rightarrow> (bytes \<times> reader) option" where
  "reader_string r = do {
     (b, r) \<leftarrow> reader_bytes r;
     (if utf8_valid b then Some (b, r) else None)
   }"

definition put_headers :: "bytes \<Rightarrow> (bytes, bytes) btreemap \<Rightarrow> bytes" where
  "put_headers buf headers = fold (\<lambda>(name, value) buf. put_str (put_str buf name) value) headers buf"

fun encode_payload :: "idempotency_key \<Rightarrow> key_state \<Rightarrow> bytes" where
  "encode_payload key (InProgress f fp lease_expires_at) =
     (let payload = put_str [] (key_bytes key);
          payload = payload @ [TAG_IN_PROGRESS];
          payload = put_u64 payload (fence_val f);
          payload = payload @ fp_bytes fp
      in put_u64 payload lease_expires_at)"
| "encode_payload key (Completed fp outcome completed_at) =
     (let payload = put_str [] (key_bytes key);
          payload = payload @ [TAG_COMPLETED];
          payload = payload @ fp_bytes fp;
          payload = put_u64 payload completed_at;
          payload = put_u16 payload (co_status outcome);
          payload = put_u32 payload (of_nat (length (co_headers outcome)));
          payload = put_headers payload (co_headers outcome)
      in put_bytes payload (co_body outcome))"

definition encode_record :: "idempotency_key \<Rightarrow> key_state \<Rightarrow> bytes \<Rightarrow> bytes" where
  "encode_record key state prev_chain =
     (let payload = encode_payload key state;
          crc = crc32 payload;
          chain = compute_chain prev_chain crc payload;
          framed = put_u32 [] (of_nat (length payload));
          framed = put_u32 framed crc
      in framed @ chain @ payload)"

fun read_headers ::
    "nat \<Rightarrow> (bytes, bytes) btreemap \<Rightarrow> reader \<Rightarrow> ((bytes, bytes) btreemap \<times> reader) option" where
  "read_headers 0 headers r = Some (headers, r)"
| "read_headers (Suc n) headers r = do {
     (name, r) \<leftarrow> reader_string r;
     (value, r) \<leftarrow> reader_string r;
     read_headers n (bt_insert name value headers) r
   }"

definition decode_in_progress :: "reader \<Rightarrow> key_state option" where
  "decode_in_progress r = do {
     (f, r) \<leftarrow> reader_u64 r;
     (fp, r) \<leftarrow> reader_arr32 r;
     (lease, r) \<leftarrow> reader_u64 r;
     Some (InProgress (Fence f) (RequestFingerprint fp) lease)
   }"

definition decode_completed :: "reader \<Rightarrow> key_state option" where
  "decode_completed r = do {
     (fp, r) \<leftarrow> reader_arr32 r;
     (completed_at, r) \<leftarrow> reader_u64 r;
     (status, r) \<leftarrow> reader_u16 r;
     (header_count, r) \<leftarrow> reader_u32 r;
     (headers, r) \<leftarrow> read_headers (unat header_count) [] r;
     (body, r) \<leftarrow> reader_bytes r;
     Some (Completed (RequestFingerprint fp)
             \<lparr>co_status = status, co_headers = headers, co_body = body\<rparr> completed_at)
   }"

definition decode_payload :: "bytes \<Rightarrow> (idempotency_key \<times> key_state) option" where
  "decode_payload payload = do {
     (key, r) \<leftarrow> reader_string (reader_new payload);
     (tag, r) \<leftarrow> reader_u8 r;
     state \<leftarrow> (if tag = TAG_IN_PROGRESS then decode_in_progress r
               else if tag = TAG_COMPLETED then decode_completed r
               else None);
     Some (IdempotencyKey key, state)
   }"

definition decode_record :: "bytes \<Rightarrow> (nat \<times> idempotency_key \<times> key_state \<times> bytes) option" where
  "decode_record buf = do {
     header \<leftarrow> get_range buf 0 HEADER_LEN;
     let len = unat (from_le_bytes (take 4 header) :: u32);
     let crc = (from_le_bytes (take 4 (drop 4 header)) :: u32);
     let chain = take 32 (drop 8 header);
     total \<leftarrow> checked_add HEADER_LEN len;
     payload \<leftarrow> get_range buf HEADER_LEN total;
     (if crc32 payload \<noteq> crc then None
      else do {
        (key, state) \<leftarrow> decode_payload payload;
        Some (total, key, state, chain)
      })
   }"

definition is_complete_frame :: "bytes \<Rightarrow> bool" where
  "is_complete_frame buf =
     (case get_range buf 0 HEADER_LEN of
        None \<Rightarrow> False
      | Some header \<Rightarrow>
          (case checked_add HEADER_LEN (unat (from_le_bytes (take 4 header) :: u32)) of
             Some tot \<Rightarrow> tot \<le> length buf
           | None \<Rightarrow> False))"

section \<open>The reader over written fields\<close>

text \<open>\<open>rd p s\<close> is a reader that has consumed \<open>p\<close> and still has \<open>s\<close> to read; \<open>lenp b\<close> is a
  length-prefixed field.\<close>

definition rd :: "bytes \<Rightarrow> bytes \<Rightarrow> reader" where
  "rd p s = \<lparr>rd_buf = p @ s, rd_pos = length p\<rparr>"

definition lenp :: "bytes \<Rightarrow> bytes" where
  "lenp b = to_le_bytes 4 (of_nat (length b) :: u32) @ b"

named_theorems reader_simps \<open>reading back a field that was just written\<close>

lemma length_lenp [simp]: "length (lenp b) = 4 + length b"
  by (simp add: lenp_def)

lemma reader_new_rd: "reader_new buf = rd [] buf"
  by (simp add: reader_new_def rd_def)

lemma reader_take_rd [reader_simps]:
  "n = length x \<Longrightarrow> length p + length x < 2 ^ 64 \<Longrightarrow>
   reader_take n (rd p (x @ s)) = Some (x, rd (p @ x) s)"
  by (simp add: reader_take_def checked_add_def get_range_def rd_def)

lemma reader_u8_rd [reader_simps]:
  "length p + 1 < 2 ^ 64 \<Longrightarrow> reader_u8 (rd p (b # s)) = Some (b, rd (p @ [b]) s)"
  using reader_take_rd [of 1 "[b]" p s] by (simp add: reader_u8_def)

lemma reader_u16_rd [reader_simps]:
  "length p + 2 < 2 ^ 64 \<Longrightarrow>
   reader_u16 (rd p (to_le_bytes 2 w @ s)) = Some (w, rd (p @ to_le_bytes 2 w) s)"
  by (simp add: reader_u16_def reader_take_rd from_to_le_bytes)

lemma reader_u32_rd [reader_simps]:
  "length p + 4 < 2 ^ 64 \<Longrightarrow>
   reader_u32 (rd p (to_le_bytes 4 w @ s)) = Some (w, rd (p @ to_le_bytes 4 w) s)"
  by (simp add: reader_u32_def reader_take_rd from_to_le_bytes)

lemma reader_u64_rd [reader_simps]:
  "length p + 8 < 2 ^ 64 \<Longrightarrow>
   reader_u64 (rd p (to_le_bytes 8 w @ s)) = Some (w, rd (p @ to_le_bytes 8 w) s)"
  by (simp add: reader_u64_def reader_take_rd from_to_le_bytes)

lemma reader_arr32_rd [reader_simps]:
  "length x = 32 \<Longrightarrow> length p + 32 < 2 ^ 64 \<Longrightarrow>
   reader_arr32 (rd p (x @ s)) = Some (x, rd (p @ x) s)"
  by (simp add: reader_arr32_def reader_take_rd)

lemma unat_of_nat_u32: "n < 2 ^ 32 \<Longrightarrow> unat (of_nat n :: u32) = n"
  by (simp add: unat_of_nat take_bit_nat_eq_self)

lemma reader_bytes_rd [reader_simps]:
  "length b < 2 ^ 32 \<Longrightarrow> length p + 4 + length b < 2 ^ 64 \<Longrightarrow>
   reader_bytes (rd p (lenp b @ s)) = Some (b, rd (p @ lenp b) s)"
  by (simp add: reader_bytes_def lenp_def reader_u32_rd reader_take_rd unat_of_nat_u32)

lemma reader_string_rd [reader_simps]:
  "wf_str b \<Longrightarrow> length b < 2 ^ 32 \<Longrightarrow> length p + 4 + length b < 2 ^ 64 \<Longrightarrow>
   reader_string (rd p (lenp b @ s)) = Some (b, rd (p @ lenp b) s)"
  by (simp add: reader_string_def reader_bytes_rd wf_str_def)

lemmas reader_last_rd [reader_simps] =
  reader_u64_rd [where s = "[]", simplified append_Nil2]
  reader_bytes_rd [where s = "[]", simplified append_Nil2]

definition headers_bytes :: "(bytes, bytes) btreemap \<Rightarrow> bytes" where
  "headers_bytes hs = concat (map (\<lambda>(n, v). lenp n @ lenp v) hs)"

lemma headers_bytes_simps [simp]:
  "headers_bytes [] = []"
  "headers_bytes ((n, v) # hs) = lenp n @ lenp v @ headers_bytes hs"
  by (simp_all add: headers_bytes_def)

lemma length_headers_bytes_ge: "8 * length hs \<le> length (headers_bytes hs)"
  by (induction hs) auto

lemma read_headers_rd:
  "\<lbrakk>\<forall>(n, v) \<in> set hs. wf_str n \<and> wf_str v; length p + length (headers_bytes hs) < 2 ^ 64;
    length (headers_bytes hs) < 2 ^ 32\<rbrakk> \<Longrightarrow>
   read_headers (length hs) acc (rd p (headers_bytes hs @ s)) =
     Some (fold (\<lambda>(k, v) acc. bt_insert k v acc) hs acc, rd (p @ headers_bytes hs) s)"
proof (induction hs arbitrary: p acc)
  case Nil
  then show ?case by simp
next
  case (Cons h hs)
  obtain n v where h: "h = (n, v)" by force
  show ?case using Cons.prems
    by (simp add: h reader_simps Cons.IH)
qed

lemma put_simps:
  "put_u16 buf a = buf @ to_le_bytes 2 a" "put_u32 buf b = buf @ to_le_bytes 4 b"
  "put_u64 buf c = buf @ to_le_bytes 8 c" "put_bytes buf s = buf @ lenp s"
  "put_str buf s = buf @ lenp s"
  by (simp_all add: put_u16_def put_u32_def put_u64_def put_bytes_def put_str_def lenp_def)

lemma put_headers_append: "put_headers buf hs = buf @ headers_bytes hs"
proof (induction hs arbitrary: buf)
  case Nil
  then show ?case by (simp add: put_headers_def)
next
  case (Cons h hs)
  have "put_headers buf (h # hs) = put_headers (put_str (put_str buf (fst h)) (snd h)) hs"
    by (cases h) (simp add: put_headers_def)
  then show ?case by (cases h) (simp add: Cons.IH put_simps)
qed

section \<open>Encoding and decoding are inverse\<close>

text \<open>What a record needs to fit the format: values of the Rust types, and a payload whose
  length the 32-bit length field can hold.\<close>

definition encodable :: "idempotency_key \<Rightarrow> key_state \<Rightarrow> bool" where
  "encodable k v \<longleftrightarrow> wf_key k \<and> wf_state v \<and> length (encode_payload k v) < 2 ^ 32"

lemma decode_encode_payload:
  assumes "encodable k v"
  shows "decode_payload (encode_payload k v) = Some (k, v)"
proof (cases v)
  case (InProgress f fp l)
  with assms show ?thesis
    by (cases k; cases f; cases fp)
      (simp add: decode_payload_def decode_in_progress_def put_simps reader_new_rd reader_simps
        encodable_def wf_key_def wf_fp_def)
next
  case (Completed fp oc t)
  have "8 * length (co_headers oc) \<le> length (headers_bytes (co_headers oc))"
    by (rule length_headers_bytes_ge)
  with assms Completed have n: "unat (of_nat (length (co_headers oc)) :: u32) = length (co_headers oc)"
    by (intro unat_of_nat_u32) (simp add: encodable_def put_simps put_headers_append)
  have b: "fold (\<lambda>(k, v) acc. bt_insert k v acc) (co_headers oc) [] = co_headers oc"
    using assms Completed bt_rebuild [of "[]" "co_headers oc"]
    by (simp add: encodable_def wf_outcome_def)
  from assms Completed show ?thesis
    by (cases k; cases fp)
      (simp add: decode_payload_def decode_completed_def put_simps reader_new_rd reader_simps
        encodable_def wf_key_def wf_fp_def wf_outcome_def put_headers_append n read_headers_rd b
        TAG_IN_PROGRESS_def TAG_COMPLETED_def)
qed

lemma length_compute_chain [simp]: "length (compute_chain prev crc payload) = 32"
  by (simp add: compute_chain_def)

lemma encode_record_append:
  "encode_record k v prev =
     to_le_bytes 4 (of_nat (length (encode_payload k v)) :: u32) @
     to_le_bytes 4 (crc32 (encode_payload k v)) @
     compute_chain prev (crc32 (encode_payload k v)) (encode_payload k v) @ encode_payload k v"
  by (simp add: encode_record_def put_simps Let_def)

lemma length_encode_record: "length (encode_record k v prev) = 40 + length (encode_payload k v)"
  by (simp add: encode_record_append)

definition record_chain :: "idempotency_key \<Rightarrow> key_state \<Rightarrow> bytes \<Rightarrow> bytes" where
  "record_chain k v prev = compute_chain prev (crc32 (encode_payload k v)) (encode_payload k v)"

lemma length_record_chain [simp]: "length (record_chain k v prev) = 32"
  by (simp add: record_chain_def)

lemma decode_encode_record:
  assumes "encodable k v"
  shows "decode_record (encode_record k v prev @ rest) =
           Some (length (encode_record k v prev), k, v, record_chain k v prev)"
proof -
  let ?p = "encode_payload k v"
  have u: "unat (of_nat (length ?p) :: u32) = length ?p" and l: "length ?p < 2 ^ 32"
    using assms by (simp_all add: encodable_def unat_of_nat_u32)
  show ?thesis
    using l by (simp add: decode_record_def encode_record_append HEADER_LEN_def get_range_def
      from_to_le_bytes u checked_add_def decode_encode_payload [OF assms] record_chain_def)
qed

lemma take_encode_record_frame:
  assumes "encodable k v" and "n < length (encode_record k v prev)"
  shows "decode_record (take n (encode_record k v prev)) = None"
    and "\<not> is_complete_frame (take n (encode_record k v prev))"
proof -
  have u: "unat (of_nat (length (encode_payload k v)) :: u32) = length (encode_payload k v)"
    using assms(1) by (simp add: encodable_def unat_of_nat_u32)
  have t: "take 4 (take n (encode_record k v prev)) =
      to_le_bytes 4 (of_nat (length (encode_payload k v)) :: u32)" if "40 \<le> n"
    using that by (simp add: encode_record_append min_def)
  show "decode_record (take n (encode_record k v prev)) = None"
    using assms(2) t u
    by (auto simp: decode_record_def get_range_def HEADER_LEN_def checked_add_def
      length_encode_record from_to_le_bytes min_def Option.bind_eq_None_conv Let_def)
  show "\<not> is_complete_frame (take n (encode_record k v prev))"
    using assms(2) t u
    by (auto simp: is_complete_frame_def get_range_def HEADER_LEN_def checked_add_def
      length_encode_record from_to_le_bytes min_def)
qed

section \<open>Decoding arbitrary bytes\<close>

text \<open>The layout of a record with payload \<open>payload\<close> and stored chain \<open>c\<close>. Decoding succeeds
  exactly on the buffers that start with such a frame whose payload parses.\<close>

definition frame :: "bytes \<Rightarrow> bytes \<Rightarrow> bytes" where
  "frame payload c =
     to_le_bytes 4 (of_nat (length payload) :: u32) @ to_le_bytes 4 (crc32 payload) @ c @ payload"

lemma length_frame: "length (frame payload c) = 8 + length c + length payload"
  by (simp add: frame_def)

lemma encode_record_frame: "encode_record k v prev = frame (encode_payload k v) (record_chain k v prev)"
  by (simp add: encode_record_append frame_def record_chain_def)

lemma from_le_take_frame:
  "length payload < 2 ^ 32 \<Longrightarrow>
   unat (from_le_bytes (take 4 (frame payload c @ rest)) :: u32) = length payload"
  by (simp add: frame_def from_to_le_bytes unat_of_nat_u32)

lemma decode_record_of_frame:
  assumes "length payload < 2 ^ 32" and "length c = 32"
  shows "decode_record (frame payload c @ rest) =
           map_option (\<lambda>(k, v). (40 + length payload, k, v, c)) (decode_payload payload)"
proof -
  have u: "unat (of_nat (length payload) :: u32) = length payload"
    using assms(1) by (simp add: unat_of_nat_u32)
  show ?thesis
    using assms by (cases "decode_payload payload")
      (auto simp: decode_record_def frame_def HEADER_LEN_def get_range_def
        from_to_le_bytes u checked_add_def)
qed

lemma list_split_take:
  "n \<le> length xs \<Longrightarrow> m \<le> n \<Longrightarrow> take n xs = take m xs @ take (n - m) (drop m xs)"
  by (metis le_add_diff_inverse take_add)

lemma decode_record_frameD:
  assumes "decode_record buf = Some (n, k, v, c)"
  obtains payload where "buf = frame payload c @ drop n buf" "n = 40 + length payload"
    "n \<le> length buf" "length payload < 2 ^ 32" "length c = 32" "decode_payload payload = Some (k, v)"
proof -
  define len where "len = unat (from_le_bytes (take 4 buf) :: u32)"
  define payload where "payload = take len (drop 40 buf)"
  have l: "len < 2 ^ 32" unfolding len_def
    using unsigned_less [of "from_le_bytes (take 4 buf) :: u32"] by simp
  have n: "n = 40 + len" and nb: "n \<le> length buf"
    and c: "c = take 32 (drop 8 buf)" and crc: "crc32 payload = from_le_bytes (take 4 (drop 4 buf))"
    and d: "decode_payload payload = Some (k, v)"
    using assms unfolding decode_record_def get_range_def HEADER_LEN_def checked_add_def
    by (auto simp: Let_def min_def take_drop payload_def len_def bind_eq_Some_conv split: if_splits)
  have lp: "length payload = len" using n nb by (simp add: payload_def)
  have b1: "to_le_bytes 4 (of_nat len :: u32) = take 4 buf"
    using nb n by (simp add: len_def to_from_le_bytes)
  have b2: "to_le_bytes 4 (crc32 payload) = take 4 (drop 4 buf)"
    using nb n by (simp add: crc to_from_le_bytes)
  have "take n buf = take 4 buf @ take 4 (drop 4 buf) @ take 32 (drop 8 buf) @ take len (drop 40 buf)"
    using nb n list_split_take [of n buf 40] list_split_take [of 40 buf 8] list_split_take [of 8 buf 4]
    by simp
  then have "buf = frame payload c @ drop n buf"
    using b1 b2 lp c by (metis append_take_drop_id append.assoc frame_def payload_def)
  then show thesis
    by (rule that) (use n lp l c nb d in simp_all)
qed

lemma decode_record_bounds:
  assumes "decode_record buf = Some (n, k, v, c)"
  shows "40 \<le> n" "n \<le> length buf" "length c = 32"
  using assms by (auto elim: decode_record_frameD)

lemma decode_record_progress:
  "decode_record (drop offset buf) = Some (n, k, v, c) \<Longrightarrow>
   length buf - (offset + n) < length buf - offset"
  by (frule decode_record_bounds(1), drule decode_record_bounds(2)) simp

lemma decode_record_local:
  assumes "decode_record buf = Some (n, k, v, c)"
  shows "decode_record (take n buf @ rest) = Some (n, k, v, c)"
proof -
  from assms obtain payload where p: "buf = frame payload c @ drop n buf" "n = 40 + length payload"
    "length payload < 2 ^ 32" "length c = 32" "decode_payload payload = Some (k, v)"
    by (rule decode_record_frameD)
  have "take n buf = frame payload c"
    by (subst p(1)) (simp add: p(2,4) length_frame)
  with p show ?thesis by (simp add: decode_record_of_frame)
qed

text \<open>What decoding accepts are values of the Rust types.\<close>

lemma reader_string_wf: "reader_string r = Some (s, r') \<Longrightarrow> wf_str s"
  by (auto simp: reader_string_def bind_eq_Some_conv wf_str_def split: if_splits)

lemma reader_arr32_length: "reader_arr32 r = Some (s, r') \<Longrightarrow> length s = 32"
  by (auto simp: reader_arr32_def reader_take_def bind_eq_Some_conv checked_add_def get_range_def
      split: if_splits)

lemma read_headers_wf:
  "\<lbrakk>read_headers n hs r = Some (hs', r'); bt_wf hs; \<forall>(n, v) \<in> set hs. wf_str n \<and> wf_str v\<rbrakk> \<Longrightarrow>
   bt_wf hs' \<and> (\<forall>(n, v) \<in> set hs'. wf_str n \<and> wf_str v)"
proof (induction n arbitrary: hs r)
  case 0
  then show ?case by simp
next
  case (Suc n)
  from Suc.prems(1) obtain name r1 val r2 where
    r: "reader_string r = Some (name, r1)" "reader_string r1 = Some (val, r2)"
      "read_headers n (bt_insert name val hs) r2 = Some (hs', r')"
    by (auto simp: bind_eq_Some_conv)
  have "set (bt_insert name val hs) \<subseteq> insert (name, val) (set hs)"
    by (induction hs) auto
  then show ?case
    using Suc.prems r by (intro Suc.IH [OF r(3)]) (auto simp: bt_wf_insert dest: reader_string_wf)
qed

lemma decode_payload_wf:
  assumes "decode_payload payload = Some (k, v)"
  shows "wf_key k" "wf_state v"
proof -
  from assms obtain s r1 tag r2 where r: "reader_string (reader_new payload) = Some (s, r1)"
      "k = IdempotencyKey s"
    and v: "decode_in_progress r2 = Some v \<or> decode_completed r2 = Some v"
    by (auto simp: decode_payload_def bind_eq_Some_conv split: if_splits)
  show "wf_key k" using r by (simp add: wf_key_def reader_string_wf)
  from v show "wf_state v"
  proof
    assume "decode_in_progress r2 = Some v"
    then show ?thesis
      by (auto simp: decode_in_progress_def bind_eq_Some_conv wf_fp_def dest: reader_arr32_length)
  next
    assume "decode_completed r2 = Some v"
    then show ?thesis
      by (auto simp: decode_completed_def bind_eq_Some_conv wf_fp_def wf_outcome_def
          dest: reader_arr32_length dest!: read_headers_wf)
  qed
qed

lemma decode_record_wf:
  "decode_record buf = Some (n, k, v, c) \<Longrightarrow> wf_key k \<and> wf_state v"
  by (elim decode_record_frameD) (simp add: decode_payload_wf)

section \<open>What the checksum detects\<close>

text \<open>Each step of the CRC is a bijection of the register, because the polynomial has its top bit
  set; so two payloads that differ in one byte have different checksums.\<close>

definition crc32_step :: "u32 \<Rightarrow> u32" where
  "crc32_step crc = drop_bit 1 crc XOR (0xEDB88320 AND (- (crc AND 1)))"

lemma crc32_bits_step: "crc32_bits n crc = (crc32_step ^^ n) crc"
  by (induction n arbitrary: crc) (simp_all add: crc32_step_def funpow_swap1 Let_def)

lemma bit_crc32_poly_top: "bit (0xEDB88320 :: u32) 31"
  by simp

lemma bit_crc32_step_top: "bit (crc32_step crc) 31 \<longleftrightarrow> bit crc 0"
proof -
  have m: "- (crc AND 1) = (if bit crc 0 then - 1 else 0)"
    by (simp add: and_one_eq bit_0 odd_iff_mod_2_eq_one [symmetric] mod2_eq_if)
  have "\<not> bit crc 32" using bit_imp_le_length [of crc 32] by auto
  then show ?thesis
    unfolding crc32_step_def m by (simp add: bit_simps)
qed

lemma word_xor_cancel: "a XOR c = b XOR c \<longleftrightarrow> a = (b :: 'a::len word)"
  by (metis xor.assoc xor_self_eq xor.right_neutral)

lemma ucast_u8_u32_eq: "ucast x = (ucast y :: u32) \<longleftrightarrow> x = (y :: u8)"
proof
  assume "ucast x = (ucast y :: u32)"
  then have "uint (ucast x :: u32) = uint (ucast y :: u32)" by simp
  then show "x = y" by (simp add: uint_up_ucast is_up word_uint_eq_iff)
qed simp

lemma inj_crc32_step: "inj crc32_step"
proof (rule injI)
  fix a b assume eq: "crc32_step a = crc32_step b"
  then have b0: "bit a 0 = bit b 0" by (metis bit_crc32_step_top)
  then have m: "a AND 1 = b AND 1" by (simp add: and_one_eq bit_0 mod2_eq_if)
  have "drop_bit 1 a = drop_bit 1 b"
    using eq unfolding crc32_step_def m by (simp only: word_xor_cancel)
  then have "bit a (Suc n) = bit b (Suc n)" for n
    by (metis bit_drop_bit_eq comp_apply plus_1_eq_Suc)
  then show "a = b"
    using b0 by (intro bit_word_eqI) (metis not0_implies_Suc)
qed

lemma inj_crc32_bits: "inj (crc32_bits n)"
  unfolding crc32_bits_step [abs_def] by (rule inj_fn [OF inj_crc32_step])

definition crc32_fold :: "bytes \<Rightarrow> u32 \<Rightarrow> u32" where
  "crc32_fold data crc = fold (\<lambda>byte crc. crc32_bits 8 (crc XOR ucast byte)) data crc"

lemma inj_crc32_fold: "inj (crc32_fold data)"
proof (induction data)
  case Nil
  then show ?case by (simp add: crc32_fold_def inj_def)
next
  case (Cons b data)
  have "inj (\<lambda>crc :: u32. crc XOR ucast b)" by (rule injI) (simp add: word_xor_cancel)
  then have "inj (\<lambda>crc. crc32_fold data (crc32_bits 8 (crc XOR ucast b)))"
    using inj_compose [OF Cons.IH inj_compose [OF inj_crc32_bits]] by (simp add: comp_def)
  then show ?case by (simp add: crc32_fold_def)
qed

lemma crc32_detects_byte:
  "crc32 (a @ x # b) = crc32 (a @ y # b) \<longleftrightarrow> x = y"
proof -
  have "crc32 (a @ z # b) = NOT (crc32_fold b (crc32_bits 8 (crc32_fold a 0xFFFFFFFF XOR ucast z)))" for z
    by (simp add: crc32_def crc32_fold_def)
  then show ?thesis
    by (simp add: inj_eq [OF inj_crc32_fold] inj_eq [OF inj_crc32_bits]
        xor.commute [of "crc32_fold a _"] word_xor_cancel ucast_u8_u32_eq)
qed

end
