(* ===== verification/Onced_Store.thy ===== *)
theory Onced_Store
  imports Onced_Types
begin

text \<open>
  \<^verbatim>\<open>onced-core/src/store.rs\<close>: the \<open>Store\<close> trait and \<open>MemoryStore\<close>. A trait
  implementation is a dictionary (\<open>store_ops\<close>) of its five methods; the engine takes
  that dictionary as an argument, as the generic Rust code takes the type parameter
  \<open>S: Store\<close>. The contract the engine relies on is the locale \<open>key_store\<close>;
  every store of the development is an interpretation of it.
\<close>

section \<open>The trait\<close>

record 's store_ops =
  store_get :: "'s \<Rightarrow> idempotency_key \<Rightarrow> key_state option"
  store_put :: "'s \<Rightarrow> idempotency_key \<Rightarrow> key_state \<Rightarrow> 's"
  store_max_in_progress_fence :: "'s \<Rightarrow> u64"
  store_flush :: "'s \<Rightarrow> 's"
  store_compact :: "'s \<Rightarrow> (idempotency_key \<Rightarrow> key_state \<Rightarrow> bool) \<Rightarrow> 's"

text \<open>The provided methods of the trait.\<close>

definition default_max_in_progress_fence :: "'s \<Rightarrow> u64" where
  "default_max_in_progress_fence s = 0"

definition default_flush :: "'s \<Rightarrow> 's" where
  "default_flush s = s"

definition default_compact :: "'s \<Rightarrow> (idempotency_key \<Rightarrow> key_state \<Rightarrow> bool) \<Rightarrow> 's" where
  "default_compact s keep = s"

section \<open>The contract\<close>

text \<open>
  \<open>inv\<close> is the representation invariant of the store. The laws say that the store is
  a map: \<open>put\<close> overwrites one key, \<open>flush\<close> changes nothing a reader sees, \<open>compact\<close>
  drops exactly the entries its predicate rejects.
\<close>

locale key_store =
  fixes ops :: "'s store_ops" and inv :: "'s \<Rightarrow> bool"
  assumes get_put:
      "inv s \<Longrightarrow> store_get ops (store_put ops s k v) k' = (if k' = k then Some v else store_get ops s k')"
    and get_flush: "inv s \<Longrightarrow> store_get ops (store_flush ops s) k = store_get ops s k"
    and get_compact:
      "inv s \<Longrightarrow> store_get ops (store_compact ops s keep) k =
         (case store_get ops s k of None \<Rightarrow> None | Some v \<Rightarrow> if keep k v then Some v else None)"
    and inv_put: "inv s \<Longrightarrow> inv (store_put ops s k v)"
    and inv_flush: "inv s \<Longrightarrow> inv (store_flush ops s)"
    and inv_compact: "inv s \<Longrightarrow> inv (store_compact ops s keep)"

text \<open>
  A store that may be opened on existing data also bounds every fence it holds; the
  engine seeds its fence counter from that bound.
\<close>

locale fenced_store = key_store ops inv
  for ops :: "'s store_ops" and inv :: "'s \<Rightarrow> bool" +
  assumes fence_bound:
    "inv s \<Longrightarrow> store_get ops s k = Some (InProgress f fp l) \<Longrightarrow>
       fence_val f \<le> store_max_in_progress_fence ops s"

section \<open>MemoryStore\<close>

record memory_store =
  ms_keys :: "(idempotency_key, key_state) hashmap"

definition ms_new :: memory_store where
  "ms_new = \<lparr>ms_keys = []\<rparr>"

definition ms_get :: "memory_store \<Rightarrow> idempotency_key \<Rightarrow> key_state option" where
  "ms_get s k = hm_get (ms_keys s) k"

definition ms_put :: "memory_store \<Rightarrow> idempotency_key \<Rightarrow> key_state \<Rightarrow> memory_store" where
  "ms_put s k v = s\<lparr>ms_keys := hm_insert k v (ms_keys s)\<rparr>"

definition ms_compact ::
    "memory_store \<Rightarrow> (idempotency_key \<Rightarrow> key_state \<Rightarrow> bool) \<Rightarrow> memory_store" where
  "ms_compact s keep = s\<lparr>ms_keys := hm_retain keep (ms_keys s)\<rparr>"

definition memory_ops :: "memory_store store_ops" where
  "memory_ops =
     \<lparr>store_get = ms_get, store_put = ms_put,
      store_max_in_progress_fence = default_max_in_progress_fence,
      store_flush = default_flush, store_compact = ms_compact\<rparr>"

definition ms_inv :: "memory_store \<Rightarrow> bool" where
  "ms_inv s \<longleftrightarrow> hm_wf (ms_keys s)"

lemmas ms_defs = ms_get_def ms_put_def ms_compact_def memory_ops_def ms_inv_def
  default_flush_def default_max_in_progress_fence_def

lemma ms_inv_new [simp]: "ms_inv ms_new"
  by (simp add: ms_inv_def ms_new_def)

lemma ms_get_new [simp]: "ms_get ms_new k = None"
  by (simp add: ms_get_def ms_new_def)

interpretation mem: key_store memory_ops ms_inv
  by unfold_locales (auto simp: ms_defs map_simps)

end
