(* ===== verification/Onced_Engine.thy ===== *)
theory Onced_Engine
  imports Onced_Store
begin

text \<open>
  \<^verbatim>\<open>onced-core/src/engine.rs\<close>: the idempotency engine. The record \<open>engine\<close> and
  one definition per method follow the source; every method takes the dictionary
  \<open>ops\<close> of the store it runs on. \<open>engine_step\<close> and \<open>engine_exec\<close> drive an engine
  through an arbitrary sequence of calls; the guarantees of the engine are proved for
  every such sequence, once, inside the locale of its store.
\<close>

section \<open>State and operations\<close>

record 's engine =
  eng_store :: 's
  lease_ms :: u64
  ttl_ms :: u64
  next_fence :: u64

record run_token =
  tok_key :: idempotency_key
  tok_fence :: fence

datatype begin_result =
    Begin_Run run_token
  | Begin_Replay cached_outcome
  | Begin_InProgress
  | Begin_Mismatch

datatype complete_error = StaleFence | AlreadyCompleted | Unknown

definition DEFAULT_TTL_MS :: u64 where
  "DEFAULT_TTL_MS = 24 * 60 * 60 * 1000"

definition engine_with_ttl :: "'s store_ops \<Rightarrow> 's \<Rightarrow> u64 \<Rightarrow> u64 \<Rightarrow> 's engine" where
  "engine_with_ttl ops st lease ttl =
     \<lparr>eng_store = st, lease_ms = lease, ttl_ms = ttl,
      next_fence = store_max_in_progress_fence ops st + 1\<rparr>"

definition engine_new :: "'s store_ops \<Rightarrow> 's \<Rightarrow> u64 \<Rightarrow> 's engine" where
  "engine_new ops st lease = engine_with_ttl ops st lease DEFAULT_TTL_MS"

definition engine_flush :: "'s store_ops \<Rightarrow> 's engine \<Rightarrow> 's engine" where
  "engine_flush ops e = e\<lparr>eng_store := store_flush ops (eng_store e)\<rparr>"

text \<open>The closure \<open>prune_expired\<close> passes to \<open>compact\<close>.\<close>

fun prune_keep :: "u64 \<Rightarrow> u64 \<Rightarrow> idempotency_key \<Rightarrow> key_state \<Rightarrow> bool" where
  "prune_keep ttl now k (Completed fp oc completed_at) \<longleftrightarrow> now < saturating_add completed_at ttl"
| "prune_keep ttl now k (InProgress f fp l) \<longleftrightarrow> True"

definition engine_prune_expired :: "'s store_ops \<Rightarrow> 's engine \<Rightarrow> u64 \<Rightarrow> 's engine" where
  "engine_prune_expired ops e now =
     e\<lparr>eng_store := store_compact ops (eng_store e) (prune_keep (ttl_ms e) now)\<rparr>"

definition mint_fence :: "'s engine \<Rightarrow> fence \<times> 's engine" where
  "mint_fence e = (Fence (next_fence e), e\<lparr>next_fence := next_fence e + 1\<rparr>)"

definition engine_start ::
    "'s store_ops \<Rightarrow> 's engine \<Rightarrow> idempotency_key \<Rightarrow> request_fingerprint \<Rightarrow> u64 \<Rightarrow>
       begin_result \<times> 's engine" where
  "engine_start ops e key fp now =
     (let (f, e) = mint_fence e;
          e = e\<lparr>eng_store := store_put ops (eng_store e) key
                  (InProgress f fp (saturating_add now (lease_ms e)))\<rparr>
      in (Begin_Run \<lparr>tok_key = key, tok_fence = f\<rparr>, e))"

datatype begin_action = Act_Start | Act_Replay cached_outcome | Act_InProgress | Act_Mismatch

fun begin_decision ::
    "u64 \<Rightarrow> request_fingerprint \<Rightarrow> u64 \<Rightarrow> key_state option \<Rightarrow> begin_action" where
  "begin_decision ttl fp now None = Act_Start"
| "begin_decision ttl fp now (Some (Completed stored oc completed_at)) =
     (if saturating_add completed_at ttl \<le> now then Act_Start
      else if stored = fp then Act_Replay oc
      else Act_Mismatch)"
| "begin_decision ttl fp now (Some (InProgress f stored lease_expires_at)) =
     (if stored \<noteq> fp then Act_Mismatch
      else if lease_expires_at \<le> now then Act_Start
      else Act_InProgress)"

definition engine_begin ::
    "'s store_ops \<Rightarrow> 's engine \<Rightarrow> idempotency_key \<Rightarrow> request_fingerprint \<Rightarrow> u64 \<Rightarrow>
       begin_result \<times> 's engine" where
  "engine_begin ops e key fp now =
     (case begin_decision (ttl_ms e) fp now (store_get ops (eng_store e) key) of
        Act_Start \<Rightarrow> engine_start ops e key fp now
      | Act_Replay oc \<Rightarrow> (Begin_Replay oc, e)
      | Act_InProgress \<Rightarrow> (Begin_InProgress, e)
      | Act_Mismatch \<Rightarrow> (Begin_Mismatch, e))"

definition engine_complete ::
    "'s store_ops \<Rightarrow> 's engine \<Rightarrow> run_token \<Rightarrow> cached_outcome \<Rightarrow> u64 \<Rightarrow>
       (complete_error + unit) \<times> 's engine" where
  "engine_complete ops e tok oc now =
     (case store_get ops (eng_store e) (tok_key tok) of
        Some (InProgress f fp l) \<Rightarrow>
          if f \<noteq> tok_fence tok then (Inl StaleFence, e)
          else (Inr (), e\<lparr>eng_store := store_put ops (eng_store e) (tok_key tok)
                             (Completed fp oc now)\<rparr>)
      | Some (Completed fp oc' t) \<Rightarrow> (Inl AlreadyCompleted, e)
      | None \<Rightarrow> (Inl Unknown, e))"

section \<open>Driving an engine\<close>

text \<open>Every call a client of one engine can make, and its answer.\<close>

datatype engine_event =
    EvBegin idempotency_key request_fingerprint u64
  | EvComplete run_token cached_outcome u64
  | EvFlush
  | EvPrune u64

datatype engine_answer =
    AnsBegin begin_result
  | AnsComplete "complete_error + unit"
  | AnsDone

fun engine_step :: "'s store_ops \<Rightarrow> 's engine \<Rightarrow> engine_event \<Rightarrow> engine_answer \<times> 's engine" where
  "engine_step ops e (EvBegin k fp now) =
     map_prod AnsBegin id (engine_begin ops e k fp now)"
| "engine_step ops e (EvComplete tok oc now) =
     map_prod AnsComplete id (engine_complete ops e tok oc now)"
| "engine_step ops e EvFlush = (AnsDone, engine_flush ops e)"
| "engine_step ops e (EvPrune now) = (AnsDone, engine_prune_expired ops e now)"

fun engine_exec :: "'s store_ops \<Rightarrow> 's engine \<Rightarrow> engine_event list \<Rightarrow> 's engine" where
  "engine_exec ops e [] = e"
| "engine_exec ops e (ev # evs) = engine_exec ops (snd (engine_step ops e ev)) evs"

fun engine_answers :: "'s store_ops \<Rightarrow> 's engine \<Rightarrow> engine_event list \<Rightarrow> engine_answer list" where
  "engine_answers ops e [] = []"
| "engine_answers ops e (ev # evs) =
     fst (engine_step ops e ev) # engine_answers ops (snd (engine_step ops e ev)) evs"

text \<open>The clock value an event carries, and whether an event happens at or after a time.\<close>

fun event_at_or_after :: "u64 \<Rightarrow> engine_event \<Rightarrow> bool" where
  "event_at_or_after t (EvBegin k fp now) \<longleftrightarrow> t \<le> now"
| "event_at_or_after t (EvComplete tok oc now) \<longleftrightarrow> t \<le> now"
| "event_at_or_after t EvFlush \<longleftrightarrow> False"
| "event_at_or_after t (EvPrune now) \<longleftrightarrow> t \<le> now"

lemmas engine_defs = engine_begin_def engine_complete_def engine_start_def mint_fence_def
  engine_flush_def engine_prune_expired_def

lemma engine_step_ttl [simp]: "ttl_ms (snd (engine_step ops e ev)) = ttl_ms e"
  by (cases ev) (auto simp: engine_defs Let_def split: begin_action.split option.split key_state.split)

lemma engine_step_lease [simp]: "lease_ms (snd (engine_step ops e ev)) = lease_ms e"
  by (cases ev) (auto simp: engine_defs Let_def split: begin_action.split option.split key_state.split)

lemma engine_exec_ttl [simp]: "ttl_ms (engine_exec ops e evs) = ttl_ms e"
  by (induction evs arbitrary: e) simp_all

lemma engine_exec_lease [simp]: "lease_ms (engine_exec ops e evs) = lease_ms e"
  by (induction evs arbitrary: e) simp_all

lemma engine_exec_append [simp]:
  "engine_exec ops e (xs @ ys) = engine_exec ops (engine_exec ops e xs) ys"
  by (induction xs arbitrary: e) simp_all

lemma engine_begin_next_fence [simp]:
  "next_fence (snd (engine_begin ops e k fp now)) =
     (if begin_decision (ttl_ms e) fp now (store_get ops (eng_store e) k) = Act_Start
      then next_fence e + 1 else next_fence e)"
  by (auto simp: engine_defs Let_def split: begin_action.split)

lemma engine_step_next_fence:
  "next_fence (snd (engine_step ops e ev)) =
     (case ev of EvBegin k fp now \<Rightarrow>
        (case begin_decision (ttl_ms e) fp now (store_get ops (eng_store e) k) of
           Act_Start \<Rightarrow> next_fence e + 1 | _ \<Rightarrow> next_fence e)
      | _ \<Rightarrow> next_fence e)"
  by (cases ev) (auto simp: engine_defs Let_def split: begin_action.split option.split key_state.split)

section \<open>The engine over any store that meets the contract\<close>

text \<open>
  \<open>engine_fences\<close>: every fence recorded for an in-progress key is below the counter.
  \<open>superseded tok\<close>: the token's fence was minted, and its key does not record it any
  more; such a token can never commit.
\<close>

definition engine_fences :: "'s store_ops \<Rightarrow> 's engine \<Rightarrow> bool" where
  "engine_fences ops e \<longleftrightarrow>
     (\<forall>k f fp l. store_get ops (eng_store e) k = Some (InProgress f fp l) \<longrightarrow>
        fence_val f < next_fence e)"

definition superseded :: "'s store_ops \<Rightarrow> 's engine \<Rightarrow> run_token \<Rightarrow> bool" where
  "superseded ops e tok \<longleftrightarrow>
     fence_val (tok_fence tok) < next_fence e \<and>
     (\<forall>f fp l. store_get ops (eng_store e) (tok_key tok) = Some (InProgress f fp l) \<longrightarrow>
        f \<noteq> tok_fence tok)"

text \<open>The reference store: a map from keys to states, and the engine on it.\<close>

definition map_ops :: "(idempotency_key \<Rightarrow> key_state option) store_ops" where
  "map_ops =
     \<lparr>store_get = (\<lambda>m k. m k), store_put = (\<lambda>m k v. m(k \<mapsto> v)),
      store_max_in_progress_fence = default_max_in_progress_fence, store_flush = default_flush,
      store_compact = (\<lambda>m keep k. case m k of None \<Rightarrow> None
                         | Some v \<Rightarrow> if keep k v then Some v else None)\<rparr>"

interpretation ref: key_store map_ops "\<lambda>_. True"
  by unfold_locales (auto simp: map_ops_def default_flush_def)

definition abs_engine :: "'s store_ops \<Rightarrow> 's engine \<Rightarrow> (idempotency_key \<Rightarrow> key_state option) engine" where
  "abs_engine ops e =
     \<lparr>eng_store = store_get ops (eng_store e), lease_ms = lease_ms e, ttl_ms = ttl_ms e,
      next_fence = next_fence e\<rparr>"

context key_store
begin

lemma begin_store:
  assumes "inv (eng_store e)"
  shows "inv (eng_store (snd (engine_begin ops e k fp now)))"
    and "store_get ops (eng_store (snd (engine_begin ops e k fp now))) k' =
      (if k' = k \<and> begin_decision (ttl_ms e) fp now (store_get ops (eng_store e) k) = Act_Start
       then Some (InProgress (Fence (next_fence e)) fp (saturating_add now (lease_ms e)))
       else store_get ops (eng_store e) k')"
  using assms
  by (auto simp: engine_defs Let_def get_put inv_put split: begin_action.split)

lemma begin_result:
  "fst (engine_begin ops e k fp now) =
     (case begin_decision (ttl_ms e) fp now (store_get ops (eng_store e) k) of
        Act_Start \<Rightarrow> Begin_Run \<lparr>tok_key = k, tok_fence = Fence (next_fence e)\<rparr>
      | Act_Replay oc \<Rightarrow> Begin_Replay oc
      | Act_InProgress \<Rightarrow> Begin_InProgress
      | Act_Mismatch \<Rightarrow> Begin_Mismatch)"
  by (simp add: engine_defs Let_def split: begin_action.split)

lemma complete_ok_iff:
  "fst (engine_complete ops e tok oc now) = Inr () \<longleftrightarrow>
     (\<exists>fp l. store_get ops (eng_store e) (tok_key tok) = Some (InProgress (tok_fence tok) fp l))"
  by (auto simp: engine_complete_def split: option.splits key_state.splits)

lemma complete_store:
  assumes "inv (eng_store e)"
  shows "inv (eng_store (snd (engine_complete ops e tok oc now)))"
    and "store_get ops (eng_store (snd (engine_complete ops e tok oc now))) k =
      (case store_get ops (eng_store e) (tok_key tok) of
         Some (InProgress f fp l) \<Rightarrow>
           if k = tok_key tok \<and> f = tok_fence tok then Some (Completed fp oc now)
           else store_get ops (eng_store e) k
       | _ \<Rightarrow> store_get ops (eng_store e) k)"
  using assms
  by (auto simp: engine_complete_def get_put inv_put split: option.split key_state.split)

lemma step_inv: "inv (eng_store e) \<Longrightarrow> inv (eng_store (snd (engine_step ops e ev)))"
  by (cases ev)
    (auto simp: begin_store complete_store engine_flush_def engine_prune_expired_def
      inv_flush inv_compact)

lemma exec_inv: "inv (eng_store e) \<Longrightarrow> inv (eng_store (engine_exec ops e evs))"
  by (induction evs arbitrary: e) (auto simp: step_inv)

lemma flush_prune_get:
  assumes "inv (eng_store e)"
  shows "store_get ops (eng_store (engine_flush ops e)) k = store_get ops (eng_store e) k"
    and "store_get ops (eng_store (engine_prune_expired ops e now)) k =
      (case store_get ops (eng_store e) k of None \<Rightarrow> None
       | Some v \<Rightarrow> if prune_keep (ttl_ms e) now k v then Some v else None)"
  using assms by (auto simp: engine_flush_def engine_prune_expired_def get_flush get_compact)

lemmas op_store = begin_store(2) complete_store(2) flush_prune_get

text \<open>Refinement: an engine over any such store behaves as the engine over the map it stores.\<close>

lemma abs_step:
  assumes "inv (eng_store e)"
  shows "fst (engine_step ops e ev) = fst (engine_step map_ops (abs_engine ops e) ev)"
    and "abs_engine ops (snd (engine_step ops e ev)) = snd (engine_step map_ops (abs_engine ops e) ev)"
proof -
  have "fst (engine_step ops e ev) = fst (engine_step map_ops (abs_engine ops e) ev) \<and>
    abs_engine ops (snd (engine_step ops e ev)) = snd (engine_step map_ops (abs_engine ops e) ev)"
    using assms
    by (cases ev)
      (auto simp: abs_engine_def map_ops_def engine_defs default_flush_def fun_eq_iff
        get_put get_flush get_compact split: begin_action.split option.split key_state.split)
  then show "fst (engine_step ops e ev) = fst (engine_step map_ops (abs_engine ops e) ev)"
    and "abs_engine ops (snd (engine_step ops e ev)) = snd (engine_step map_ops (abs_engine ops e) ev)"
    by blast+
qed

lemma abs_answers:
  "inv (eng_store e) \<Longrightarrow> engine_answers ops e evs = engine_answers map_ops (abs_engine ops e) evs"
  by (induction evs arbitrary: e) (simp_all add: abs_step step_inv)

lemma abs_exec:
  "inv (eng_store e) \<Longrightarrow> abs_engine ops (engine_exec ops e evs) = engine_exec map_ops (abs_engine ops e) evs"
  by (induction evs arbitrary: e) (simp_all add: abs_step step_inv)

text \<open>A committed outcome is immutable until its time-to-live has run out.\<close>

lemma completed_step:
  assumes "inv (eng_store e)"
    and "store_get ops (eng_store e) k = Some (Completed fp oc t)"
    and "\<not> event_at_or_after (saturating_add t (ttl_ms e)) ev"
  shows "store_get ops (eng_store (snd (engine_step ops e ev))) k = Some (Completed fp oc t)"
  using assms
  by (cases ev) (auto simp: op_store split: option.split key_state.split if_splits)

lemma completed_exec:
  assumes "inv (eng_store e)"
    and "store_get ops (eng_store e) k = Some (Completed fp oc t)"
    and "\<forall>ev \<in> set evs. \<not> event_at_or_after (saturating_add t (ttl_ms e)) ev"
  shows "store_get ops (eng_store (engine_exec ops e evs)) k = Some (Completed fp oc t)"
  using assms by (induction evs arbitrary: e) (simp_all add: completed_step step_inv)

lemma complete_then_immutable:
  assumes "inv (eng_store e)"
    and "store_get ops (eng_store e) (tok_key tok) = Some (InProgress (tok_fence tok) fp l)"
    and "\<forall>ev \<in> set evs. \<not> event_at_or_after (saturating_add t (ttl_ms e)) ev"
  shows "store_get ops (eng_store (engine_exec ops e (EvComplete tok oc t # evs))) (tok_key tok)
    = Some (Completed fp oc t)"
proof -
  have "ttl_ms (snd (engine_complete ops e tok oc t)) = ttl_ms e"
    using engine_step_ttl [of ops e "EvComplete tok oc t"] by simp
  with assms show ?thesis
    by (auto intro!: completed_exec simp: complete_store)
qed

lemma completes_once_per_ttl:
  assumes "inv (eng_store e)"
    and "fst (engine_complete ops e tok oc t) = Inr ()"
    and "fst (engine_complete ops (engine_exec ops e (EvComplete tok oc t # evs)) tok' oc' t') = Inr ()"
    and "tok_key tok' = tok_key tok"
  shows "\<exists>ev \<in> set evs. event_at_or_after (saturating_add t (ttl_ms e)) ev"
proof (rule ccontr)
  assume *: "\<not> ?thesis"
  obtain fp l where "store_get ops (eng_store e) (tok_key tok) = Some (InProgress (tok_fence tok) fp l)"
    using assms(2) by (auto simp: complete_ok_iff)
  with * assms(1) have
    "store_get ops (eng_store (engine_exec ops e (EvComplete tok oc t # evs))) (tok_key tok)
      = Some (Completed fp oc t)"
    by (intro complete_then_immutable) auto
  with assms(3,4) show False by (simp add: complete_ok_iff del: engine_exec.simps)
qed

lemma replays_until_ttl:
  assumes "inv (eng_store e)"
    and "store_get ops (eng_store e) (tok_key tok) = Some (InProgress (tok_fence tok) fp l)"
    and "\<forall>ev \<in> set evs. \<not> event_at_or_after (saturating_add t (ttl_ms e)) ev"
    and "now < saturating_add t (ttl_ms e)"
  shows "fst (engine_begin ops (engine_exec ops e (EvComplete tok oc t # evs)) (tok_key tok) fp' now)
    = (if fp' = fp then Begin_Replay oc else Begin_Mismatch)"
  using complete_then_immutable [OF assms(1-3)] assms(4)
  by (auto simp: begin_result not_le simp del: engine_exec.simps simp flip: not_less)

text \<open>Fencing.\<close>

lemma next_fence_step:
  "next_fence e \<noteq> - 1 \<Longrightarrow> next_fence e \<le> next_fence (snd (engine_step ops e ev))"
  "unat (next_fence (snd (engine_step ops e ev))) \<le> unat (next_fence e) + 1"
  using word_less_plus_one [of "next_fence e"]
  by (auto simp: engine_step_next_fence unat_word_ariths
      split: engine_event.split begin_action.split)

lemma fences_step:
  assumes "inv (eng_store e)" and "engine_fences ops e" and "next_fence e \<noteq> - 1"
  shows "engine_fences ops (snd (engine_step ops e ev))"
proof -
  have lt: "next_fence e < next_fence e + 1"
    using assms(3) by (rule word_less_plus_one)
  have old: "fence_val f < next_fence (snd (engine_step ops e ev))"
    if "store_get ops (eng_store e) k = Some (InProgress f fp l)" for k f fp l
    using that assms(2) next_fence_step(1) [OF assms(3), of ev]
    unfolding engine_fences_def by (metis order.strict_trans2)
  show ?thesis
    unfolding engine_fences_def
  proof (intro allI impI)
    fix k f fp l
    assume new: "store_get ops (eng_store (snd (engine_step ops e ev))) k = Some (InProgress f fp l)"
    show "fence_val f < next_fence (snd (engine_step ops e ev))"
    proof (cases "store_get ops (eng_store e) k = Some (InProgress f fp l)")
      case True
      then show ?thesis by (rule old)
    next
      case False
      with new assms(1) have "fence_val f = next_fence e \<and>
          next_fence (snd (engine_step ops e ev)) = next_fence e + 1"
        by (cases ev)
          (auto simp: op_store split: option.splits key_state.splits if_splits)
      with lt show ?thesis by simp
    qed
  qed
qed

lemma superseded_step:
  assumes "inv (eng_store e)" and "superseded ops e tok" and "next_fence e \<noteq> - 1"
  shows "superseded ops (snd (engine_step ops e ev)) tok"
proof -
  have lt: "fence_val (tok_fence tok) < next_fence e"
    using assms(2) by (simp add: superseded_def)
  have "f \<noteq> tok_fence tok"
    if "store_get ops (eng_store (snd (engine_step ops e ev))) (tok_key tok) = Some (InProgress f fp l)"
    for f fp l
    using that assms(1,2) fence_less_neq [OF lt]
    by (cases ev) (auto simp: op_store superseded_def split: option.splits key_state.splits if_splits)
  moreover have "fence_val (tok_fence tok) < next_fence (snd (engine_step ops e ev))"
    using lt next_fence_step(1) [OF assms(3)] by (rule order.strict_trans2)
  ultimately show ?thesis by (simp add: superseded_def)
qed

lemma exec_room:
  assumes "unat (next_fence e) + length (ev # evs) < 2 ^ 64"
  shows "next_fence e \<noteq> - 1"
    and "unat (next_fence (snd (engine_step ops e ev))) + length evs < 2 ^ 64"
  using assms next_fence_step(2) [of e ev] by (auto simp: unat_minus_one)

lemma superseded_exec:
  assumes "inv (eng_store e)" and "superseded ops e tok"
    and "unat (next_fence e) + length evs < 2 ^ 64"
  shows "superseded ops (engine_exec ops e evs) tok"
  using assms
proof (induction evs arbitrary: e)
  case Nil
  then show ?case by simp
next
  case (Cons ev evs)
  note room = exec_room [OF Cons.prems(3)]
  show ?case using Cons.IH [OF step_inv superseded_step room(2)] Cons.prems room(1) by simp
qed

lemma fences_exec:
  assumes "inv (eng_store e)" and "engine_fences ops e"
    and "unat (next_fence e) + length evs < 2 ^ 64"
  shows "engine_fences ops (engine_exec ops e evs)"
  using assms
proof (induction evs arbitrary: e)
  case Nil
  then show ?case by simp
next
  case (Cons ev evs)
  note room = exec_room [OF Cons.prems(3)]
  show ?case using Cons.IH [OF step_inv fences_step room(2)] Cons.prems room(1) by simp
qed

lemma superseded_refused:
  "superseded ops e tok \<Longrightarrow> fst (engine_complete ops e tok oc now) \<noteq> Inr ()"
  by (auto simp: superseded_def complete_ok_iff)

text \<open>A token is superseded by the next run of its key, and by its own commit.\<close>

lemma takeover_supersedes:
  assumes "inv (eng_store e)" and "fence_val (tok_fence tok) < next_fence e"
    and "next_fence e \<noteq> - 1"
    and "fst (engine_begin ops e (tok_key tok) fp now) = Begin_Run tok'"
  shows "superseded ops (snd (engine_begin ops e (tok_key tok) fp now)) tok"
proof -
  have start: "begin_decision (ttl_ms e) fp now (store_get ops (eng_store e) (tok_key tok)) = Act_Start"
    using assms(4) by (auto simp: begin_result split: begin_action.splits)
  have "fence_val (tok_fence tok) < next_fence e + 1"
    using assms(2) word_less_plus_one [OF assms(3)] by (rule order.strict_trans)
  with start assms(1) fence_less_neq [OF assms(2)] show ?thesis
    by (auto simp: superseded_def begin_store)
qed

lemma commit_supersedes:
  assumes "inv (eng_store e)" and "engine_fences ops e"
    and "fst (engine_complete ops e tok oc now) = Inr ()"
  shows "superseded ops (snd (engine_complete ops e tok oc now)) tok"
proof -
  obtain fp l where st: "store_get ops (eng_store e) (tok_key tok) = Some (InProgress (tok_fence tok) fp l)"
    using assms(3) by (auto simp: complete_ok_iff)
  then have "fence_val (tok_fence tok) < next_fence e"
    using assms(2) by (auto simp: engine_fences_def)
  moreover have "next_fence (snd (engine_complete ops e tok oc now)) = next_fence e"
    using engine_step_next_fence [of ops e "EvComplete tok oc now"] by simp
  ultimately show ?thesis using st assms(1) by (auto simp: superseded_def complete_store)
qed

text \<open>A live lease excludes every other worker; an expired one does not block its key.\<close>

lemma lease_step:
  assumes "inv (eng_store e)"
    and "store_get ops (eng_store e) k = Some (InProgress f fp l)"
    and "\<not> event_at_or_after l ev"
    and "\<forall>oc t. ev \<noteq> EvComplete \<lparr>tok_key = k, tok_fence = f\<rparr> oc t"
  shows "store_get ops (eng_store (snd (engine_step ops e ev))) k = Some (InProgress f fp l)"
proof (cases ev)
  case (EvComplete tok oc t)
  then have "\<not> (tok_key tok = k \<and> tok_fence tok = f)" using assms(4) by (cases tok) auto
  with EvComplete assms(1,2) show ?thesis
    by (auto simp: op_store split: option.split key_state.split)
qed (use assms in \<open>auto simp: op_store split: if_splits\<close>)

lemma lease_exec:
  assumes "inv (eng_store e)"
    and "store_get ops (eng_store e) k = Some (InProgress f fp l)"
    and "\<forall>ev \<in> set evs. \<not> event_at_or_after l ev"
    and "\<forall>oc t. EvComplete \<lparr>tok_key = k, tok_fence = f\<rparr> oc t \<notin> set evs"
  shows "store_get ops (eng_store (engine_exec ops e evs)) k = Some (InProgress f fp l)"
  using assms
proof (induction evs arbitrary: e)
  case Nil
  then show ?case by simp
next
  case (Cons ev evs)
  have "store_get ops (eng_store (snd (engine_step ops e ev))) k = Some (InProgress f fp l)"
    using Cons.prems by (intro lease_step) auto
  then show ?case using Cons by (simp add: step_inv)
qed

end

end
