(* ===== verification/Onced_Wal.thy ===== *)
theory Onced_Wal
  imports Onced_Wal_Codec Onced_Engine
begin

text \<open>
  \<^verbatim>\<open>onced-core/src/wal.rs\<close>: \<open>WalStore\<close>. The log file is its bytes; an absent file is the
  empty one, which \<open>open_with\<close> creates. A failed write or \<open>fsync\<close> panics (the source is
  fail-stop), so the operations are those of a process whose I/O succeeds, and a
  panic is one of the crashes: the file then holds what it held and some prefix of
  what was being appended, and the process starts again from \<open>open_with\<close>. The order in
  which \<open>compact\<close> iterates over its hash map is the argument \<open>ord\<close>.
\<close>

section \<open>State and operations\<close>

record wal_store =
  ws_index :: "(idempotency_key, key_state) hashmap"
  ws_file :: bytes
  ws_pending :: bytes
  ws_sync_each :: bool
  ws_chain_root :: bytes

text \<open>The system calls of \<open>open_with\<close>; \<open>io c\<close> says whether call \<open>c\<close> succeeds.\<close>

datatype io_call = Io_open | Io_read_to_end | Io_set_len | Io_seek

datatype wal_error =
    Wal_Io io_call
  | Wal_ChainMismatch nat
  | Wal_ChecksumFailure nat

definition ws_root :: "wal_store \<Rightarrow> bytes" where
  "ws_root w = ws_chain_root w"

text \<open>The replay loop of \<open>open_with\<close>.\<close>

function replay ::
    "bytes \<Rightarrow> nat \<Rightarrow> bytes \<Rightarrow> (idempotency_key, key_state) hashmap \<Rightarrow>
       wal_error + (nat \<times> bytes \<times> (idempotency_key, key_state) hashmap)" where
  "replay buf offset chain_root index =
     (case decode_record (drop offset buf) of
        None \<Rightarrow> Inr (offset, chain_root, index)
      | Some (consumed, key, state, stored_chain) \<Rightarrow>
          let crc = from_le_bytes (take 4 (drop (offset + 4) buf));
              payload = take (consumed - HEADER_LEN) (drop (offset + HEADER_LEN) buf);
              expected_chain = compute_chain chain_root crc payload
          in if expected_chain \<noteq> stored_chain then Inl (Wal_ChainMismatch offset)
             else replay buf (offset + consumed) expected_chain (hm_insert key state index))"
  by pat_completeness auto
termination
  by (relation "measure (\<lambda>(buf, offset, _, _). length buf - offset)")
    (auto intro: decode_record_progress)

declare replay.simps [simp del]

definition open_with :: "(io_call \<Rightarrow> bool) \<Rightarrow> bytes \<Rightarrow> bool \<Rightarrow> wal_error + wal_store" where
  "open_with io buf sync_each =
     (if \<not> io Io_open then Inl (Wal_Io Io_open)
      else if \<not> io Io_read_to_end then Inl (Wal_Io Io_read_to_end)
      else case replay buf 0 GENESIS [] of
        Inl err \<Rightarrow> Inl err
      | Inr (offset, chain_root, index) \<Rightarrow>
          let remaining = drop offset buf in
          if remaining \<noteq> [] \<and> is_complete_frame remaining then Inl (Wal_ChecksumFailure offset)
          else if \<not> io Io_set_len then Inl (Wal_Io Io_set_len)
          else if \<not> io Io_seek then Inl (Wal_Io Io_seek)
          else Inr \<lparr>ws_index = index, ws_file = take offset buf, ws_pending = [],
                    ws_sync_each = sync_each, ws_chain_root = chain_root\<rparr>)"

definition ws_open :: "(io_call \<Rightarrow> bool) \<Rightarrow> bytes \<Rightarrow> wal_error + wal_store" where
  "ws_open io buf = open_with io buf True"

definition ws_open_buffered :: "(io_call \<Rightarrow> bool) \<Rightarrow> bytes \<Rightarrow> wal_error + wal_store" where
  "ws_open_buffered io buf = open_with io buf False"

definition flush_pending :: "wal_store \<Rightarrow> wal_store" where
  "flush_pending w =
     (if ws_pending w = [] then w
      else w\<lparr>ws_file := ws_file w @ ws_pending w, ws_pending := []\<rparr>)"

definition ws_max_in_progress_fence :: "wal_store \<Rightarrow> u64" where
  "ws_max_in_progress_fence w =
     (case List.map_filter in_progress_fence (map snd (ws_index w)) of
        [] \<Rightarrow> 0
      | f # fs \<Rightarrow> fold max fs f)"

definition ws_get :: "wal_store \<Rightarrow> idempotency_key \<Rightarrow> key_state option" where
  "ws_get w k = hm_get (ws_index w) k"

text \<open>\<open>put\<close> up to the point where strict mode forces the record out.\<close>

definition put_append :: "wal_store \<Rightarrow> idempotency_key \<Rightarrow> key_state \<Rightarrow> wal_store" where
  "put_append w key state =
     (let record = encode_record key state (ws_chain_root w);
          new_chain = take 32 (drop 8 record)
      in w\<lparr>ws_pending := ws_pending w @ record, ws_chain_root := new_chain,
           ws_index := hm_insert key state (ws_index w)\<rparr>)"

definition ws_put :: "wal_store \<Rightarrow> idempotency_key \<Rightarrow> key_state \<Rightarrow> wal_store" where
  "ws_put w key state =
     (let w = put_append w key state in
      if ws_sync_each w then flush_pending w else w)"

definition ws_flush :: "wal_store \<Rightarrow> wal_store" where
  "ws_flush w = flush_pending w"

text \<open>The body of \<open>compact\<close>'s loop: the new log and its chain.\<close>

fun compact_log :: "(idempotency_key \<times> key_state) list \<Rightarrow> bytes \<Rightarrow> bytes \<Rightarrow> bytes \<times> bytes" where
  "compact_log [] compacted chain = (compacted, chain)"
| "compact_log ((key, state) # es) compacted chain =
     (let record = encode_record key state chain;
          chain = take 32 (drop 8 record)
      in compact_log es (compacted @ record) chain)"

definition ws_compact ::
    "((idempotency_key \<times> key_state) list \<Rightarrow> (idempotency_key \<times> key_state) list) \<Rightarrow> wal_store \<Rightarrow>
       (idempotency_key \<Rightarrow> key_state \<Rightarrow> bool) \<Rightarrow> wal_store" where
  "ws_compact ord w keep =
     (let w = w\<lparr>ws_index := hm_retain keep (ws_index w)\<rparr>;
          (compacted, new_chain_root) = compact_log (ord (ws_index w)) [] GENESIS
      in w\<lparr>ws_file := compacted, ws_pending := [], ws_chain_root := new_chain_root\<rparr>)"

text \<open>The disk while \<open>compact\<close> runs: the live log and the temporary file, after each system
  call. Bytes of the temporary file may reach it one at a time; the rename swaps it in.\<close>

record disk =
  disk_live :: bytes
  disk_tmp :: "bytes option"

definition compact_disks :: "disk \<Rightarrow> bytes \<Rightarrow> disk list" where
  "compact_disks d compacted =
     [d, d\<lparr>disk_tmp := Some []\<rparr>] @
     map (\<lambda>i. d\<lparr>disk_tmp := Some (take i compacted)\<rparr>) [0..<Suc (length compacted)] @
     [\<lparr>disk_live = compacted, disk_tmp = None\<rparr>]"

definition wal_ops ::
    "((idempotency_key \<times> key_state) list \<Rightarrow> (idempotency_key \<times> key_state) list) \<Rightarrow> wal_store store_ops" where
  "wal_ops ord =
     \<lparr>store_get = ws_get, store_put = ws_put,
      store_max_in_progress_fence = ws_max_in_progress_fence,
      store_flush = ws_flush, store_compact = ws_compact ord\<rparr>"

lemmas ws_defs = ws_get_def ws_put_def ws_flush_def ws_compact_def put_append_def flush_pending_def
  wal_ops_def

section \<open>The index is a store\<close>

definition ws_inv :: "wal_store \<Rightarrow> bool" where
  "ws_inv w \<longleftrightarrow> hm_wf (ws_index w)"

lemma max_in_progress_fence_ge:
  assumes "ws_get w k = Some (InProgress f fp l)"
  shows "fence_val f \<le> ws_max_in_progress_fence w"
proof -
  let ?fs = "List.map_filter in_progress_fence (map snd (ws_index w))"
  have "InProgress f fp l \<in> set (map snd (ws_index w))"
    using assms map_of_SomeD [of "ws_index w" k] by (force simp: ws_get_def)
  then have m: "fence_val f \<in> set ?fs"
    by (force simp: List.map_filter_def)
  then show ?thesis
    using fold_max_ge by (force simp: ws_max_in_progress_fence_def split: list.split)
qed

interpretation wal: fenced_store "wal_ops ord" ws_inv
  for ord
proof unfold_locales
  show "store_get (wal_ops ord) s k = Some (InProgress f fp l) \<Longrightarrow>
      fence_val f \<le> store_max_in_progress_fence (wal_ops ord) s" for s k f fp l
    using max_in_progress_fence_ge by (simp add: wal_ops_def)
qed (auto simp: ws_defs ws_inv_def map_simps Let_def split: prod.split simp del: map_of_eq_Some_iff)

section \<open>The log the bytes stand for\<close>

type_synonym log = "(idempotency_key \<times> key_state) list"

fun encode_log :: "bytes \<Rightarrow> log \<Rightarrow> bytes" where
  "encode_log prev [] = []"
| "encode_log prev ((k, v) # l) = encode_record k v prev @ encode_log (record_chain k v prev) l"

fun log_root :: "bytes \<Rightarrow> log \<Rightarrow> bytes" where
  "log_root prev [] = prev"
| "log_root prev ((k, v) # l) = log_root (record_chain k v prev) l"

definition log_index :: "log \<Rightarrow> (idempotency_key, key_state) hashmap \<Rightarrow> (idempotency_key, key_state) hashmap" where
  "log_index l m = fold (\<lambda>(k, v) m. hm_insert k v m) l m"

definition log_ok :: "log \<Rightarrow> bool" where
  "log_ok l \<longleftrightarrow> (\<forall>(k, v) \<in> set l. encodable k v)"

lemma log_ok_simps [simp]:
  "log_ok []" "log_ok ((k, v) # l) \<longleftrightarrow> encodable k v \<and> log_ok l"
  "log_ok (l1 @ l2) \<longleftrightarrow> log_ok l1 \<and> log_ok l2"
  by (auto simp: log_ok_def)

lemma log_ok_mono: "set l \<subseteq> set l' \<Longrightarrow> log_ok l' \<Longrightarrow> log_ok l"
  by (auto simp: log_ok_def)

lemma log_ok_take [simp]: "log_ok l \<Longrightarrow> log_ok (take n l)"
  by (auto simp: log_ok_def dest: in_set_takeD)

lemma log_index_simps [simp]:
  "log_index [] m = m" "log_index ((k, v) # l) m = log_index l (hm_insert k v m)"
  "log_index (l1 @ l2) m = log_index l2 (log_index l1 m)"
  by (simp_all add: log_index_def)

lemma encode_log_append:
  "encode_log prev (l1 @ l2) = encode_log prev l1 @ encode_log (log_root prev l1) l2"
  by (induction l1 arbitrary: prev) auto

lemma log_root_append: "log_root prev (l1 @ l2) = log_root (log_root prev l1) l2"
  by (induction l1 arbitrary: prev) auto

lemma length_log_root [simp]: "length prev = 32 \<Longrightarrow> length (log_root prev l) = 32"
  by (induction l arbitrary: prev) auto

lemma hm_wf_log_index [simp]: "hm_wf m \<Longrightarrow> hm_wf (log_index l m)"
  by (induction l arbitrary: m) (simp_all add: log_index_def split_def)

lemma hm_get_log_index:
  "hm_get (log_index l m) k = (case map_of (rev l) k of Some v \<Rightarrow> Some v | None \<Rightarrow> hm_get m k)"
  by (induction l arbitrary: m) (auto simp: map_simps map_add_def split: option.split)

lemma log_index_mem:
  assumes "hm_get (log_index l []) k = Some v"
  shows "(k, v) \<in> set l"
proof -
  from assms have "map_of (rev l) k = Some v" by (simp add: hm_get_log_index split: option.splits)
  from map_of_SomeD [OF this] show ?thesis by simp
qed

lemma record_chain_bytes: "take 32 (drop 8 (encode_record k v prev)) = record_chain k v prev"
  by (simp add: encode_record_append record_chain_def)

lemma compact_log_encode:
  "compact_log es compacted chain = (compacted @ encode_log chain es, log_root chain es)"
  by (induction es compacted chain rule: compact_log.induct)
    (simp_all add: Let_def record_chain_bytes)

text \<open>Replaying an encoded log, followed by anything, processes exactly its records.\<close>

lemma replay_record:
  assumes "encodable k v" and "drop offset buf = encode_record k v root @ rest"
  shows "replay buf offset root idx =
    replay buf (offset + length (encode_record k v root)) (record_chain k v root) (hm_insert k v idx)"
proof -
  have d4: "drop (offset + n) buf = drop n (encode_record k v root @ rest)" for n
    using assms(2) by (metis add.commute drop_drop)
  have "from_le_bytes (take 4 (drop (offset + 4) buf)) = crc32 (encode_payload k v)"
    by (simp add: d4 encode_record_append from_to_le_bytes)
  moreover have "take (length (encode_payload k v)) (drop (offset + 40) buf) = encode_payload k v"
    by (simp add: d4 encode_record_append)
  ultimately show ?thesis
    by (subst replay.simps) (simp add: assms(2) decode_encode_record [OF assms(1)] Let_def
        HEADER_LEN_def length_encode_record record_chain_def)
qed

lemma replay_log:
  "\<lbrakk>log_ok l; drop offset buf = encode_log root l @ rest\<rbrakk> \<Longrightarrow>
   replay buf offset root idx =
     replay buf (offset + length (encode_log root l)) (log_root root l) (log_index l idx)"
proof (induction l arbitrary: offset root idx)
  case Nil
  then show ?case by simp
next
  case (Cons e l)
  obtain k v where e: "e = (k, v)" by force
  let ?r = "encode_record k v root"
  have "drop (offset + length ?r) buf = encode_log (record_chain k v root) l @ rest"
    using Cons.prems(2) by (simp add: e) (metis add.commute append_eq_conv_conj drop_drop)
  moreover have "replay buf offset root idx =
      replay buf (offset + length ?r) (record_chain k v root) (hm_insert k v idx)"
    using Cons.prems by (intro replay_record) (auto simp: e)
  ultimately show ?case
    using Cons.IH Cons.prems(1) by (simp add: e add.assoc)
qed

lemma replay_stop: "decode_record (drop offset buf) = None \<Longrightarrow> replay buf offset root idx = Inr (offset, root, idx)"
  by (subst replay.simps) simp

definition io_ok :: "io_call \<Rightarrow> bool" where
  "io_ok c = True"

lemma decode_record_Nil [simp]: "decode_record [] = None"
  by (simp add: decode_record_def get_range_def HEADER_LEN_def)

text \<open>Opening an encoded log with a torn tail recovers the log and cuts the tail.\<close>

lemma open_with_log:
  assumes "log_ok l" and "decode_record torn = None" and "torn = [] \<or> \<not> is_complete_frame torn"
  shows "open_with io_ok (encode_log GENESIS l @ torn) sync =
    Inr \<lparr>ws_index = log_index l [], ws_file = encode_log GENESIS l, ws_pending = [],
         ws_sync_each = sync, ws_chain_root = log_root GENESIS l\<rparr>"
proof -
  have "replay (encode_log GENESIS l @ torn) 0 GENESIS [] =
      Inr (length (encode_log GENESIS l), log_root GENESIS l, log_index l [])"
    using assms(1,2) by (simp add: replay_log [where rest = torn] replay_stop)
  with assms(3) show ?thesis by (auto simp: open_with_def io_ok_def)
qed

text \<open>A prefix of an encoded log is the encoding of a prefix, and a torn record.\<close>

lemma take_encode_log:
  assumes "log_ok l"
  obtains m torn where "m \<le> length l" "take n (encode_log prev l) = encode_log prev (take m l) @ torn"
    "decode_record torn = None" "torn = [] \<or> \<not> is_complete_frame torn"
    "length (encode_log prev l) \<le> n \<Longrightarrow> m = length l"
  using assms
proof (induction l arbitrary: prev n thesis)
  case Nil
  then show ?case by force
next
  case (Cons e l)
  obtain k v where e: "e = (k, v)" by force
  let ?r = "encode_record k v prev"
  show ?case
  proof (cases "n < length ?r")
    case True
    then show ?thesis
      using Cons.prems e take_encode_record_frame [of k v n prev]
      by (intro Cons.prems(1) [of 0 "take n ?r"]) auto
  next
    case False
    obtain m torn where m: "m \<le> length l"
        "take (n - length ?r) (encode_log (record_chain k v prev) l) =
          encode_log (record_chain k v prev) (take m l) @ torn"
        "decode_record torn = None" "torn = [] \<or> \<not> is_complete_frame torn"
        "length (encode_log (record_chain k v prev) l) \<le> n - length ?r \<Longrightarrow> m = length l"
      using Cons.IH [of "n - length ?r" "record_chain k v prev"] Cons.prems(2) e by auto
    then show ?thesis
      using False e by (intro Cons.prems(1) [of "Suc m" torn]) auto
  qed
qed

section \<open>Durability\<close>

text \<open>\<open>wal_rep w dl pl\<close>: the file holds the log \<open>dl\<close>, the buffer the log \<open>pl\<close>, and the index is
  their replay. The index is compared as a map, since compaction writes it in any order.\<close>

definition wal_rep :: "wal_store \<Rightarrow> log \<Rightarrow> log \<Rightarrow> bool" where
  "wal_rep w dl pl \<longleftrightarrow>
     log_ok (dl @ pl) \<and> ws_file w = encode_log GENESIS dl \<and>
     ws_pending w = encode_log (log_root GENESIS dl) pl \<and>
     ws_chain_root w = log_root GENESIS (dl @ pl) \<and>
     hm_wf (ws_index w) \<and> hm_get (ws_index w) = hm_get (log_index (dl @ pl) [])"

text \<open>In strict mode nothing waits in the buffer between calls.\<close>

definition wal_synced :: "wal_store \<Rightarrow> bool" where
  "wal_synced w \<longleftrightarrow> ws_sync_each w \<longrightarrow> ws_pending w = []"

lemma encode_log_eq_Nil [simp]: "encode_log prev l = [] \<longleftrightarrow> l = []"
proof (cases l)
  case (Cons e l')
  then show ?thesis
    using length_encode_record [of "fst e" "snd e" prev] by (cases e) auto
qed simp

lemma wal_rep_inv: "wal_rep w dl pl \<Longrightarrow> ws_inv w"
  by (simp add: wal_rep_def ws_inv_def)

lemma wal_rep_get: "wal_rep w dl pl \<Longrightarrow> ws_get w k = hm_get (log_index (dl @ pl) []) k"
  by (simp add: wal_rep_def ws_get_def)

lemma hm_get_insert_cong:
  "hm_get m = hm_get m' \<Longrightarrow> hm_get (hm_insert k v m) = hm_get (hm_insert k v m')"
  by (simp add: fun_eq_iff map_simps)

lemma put_append_rep:
  assumes "wal_rep w dl pl" and "encodable k v"
  shows "wal_rep (put_append w k v) dl (pl @ [(k, v)])"
  using assms hm_get_insert_cong
  by (auto simp: wal_rep_def put_append_def Let_def encode_log_append log_root_append record_chain_bytes)

lemma flush_pending_rep: "wal_rep w dl pl \<Longrightarrow> wal_rep (flush_pending w) (dl @ pl) []"
  by (auto simp: wal_rep_def flush_pending_def encode_log_append log_root_append)

lemma wal_synced_rep: "wal_synced w \<Longrightarrow> ws_sync_each w \<Longrightarrow> wal_rep w dl pl \<Longrightarrow> pl = []"
  by (metis encode_log_eq_Nil wal_synced_def wal_rep_def)

lemma put_append_sync [simp]: "ws_sync_each (put_append w k v) = ws_sync_each w"
  by (simp add: put_append_def Let_def)

lemma ws_put_rep:
  assumes "wal_rep w dl pl" and "encodable k v"
  shows "if ws_sync_each w then wal_rep (ws_put w k v) (dl @ pl @ [(k, v)]) []
         else wal_rep (ws_put w k v) dl (pl @ [(k, v)])"
  using put_append_rep [OF assms] flush_pending_rep by (auto simp: ws_put_def Let_def)

lemma ws_flush_rep: "wal_rep w dl pl \<Longrightarrow> wal_rep (ws_flush w) (dl @ pl) []"
  by (simp add: ws_flush_def flush_pending_rep)

lemma ws_sync_each [simp]:
  "ws_sync_each (flush_pending w) = ws_sync_each w" "ws_sync_each (ws_flush w) = ws_sync_each w"
  "ws_sync_each (ws_put w k v) = ws_sync_each w" "ws_sync_each (ws_compact ord w keep) = ws_sync_each w"
  by (auto simp: ws_defs Let_def split: prod.split)

lemma wal_synced_ops [simp]:
  "wal_synced (ws_flush w)" "wal_synced (ws_compact ord w keep)"
  "wal_synced w \<Longrightarrow> wal_synced (ws_put w k v)"
  by (auto simp: wal_synced_def ws_defs Let_def split: prod.split)

lemma log_index_distinct: "hm_wf l \<Longrightarrow> hm_get (log_index l []) = hm_get l"
proof -
  assume "hm_wf l"
  then have "map_of (rev l) = map_of l"
    by (intro map_of_inject_set [THEN iffD2]) (auto simp flip: rev_map)
  then show ?thesis by (simp add: fun_eq_iff hm_get_log_index split: option.split)
qed

lemma ws_compact_rep:
  assumes "wal_rep w dl pl" and "iteration_order ord"
  shows "wal_rep (ws_compact ord w keep) (ord (hm_retain keep (ws_index w))) []"
proof -
  let ?m = "hm_retain keep (ws_index w)"
  have wf: "hm_wf ?m" using assms(1) by (simp add: wal_rep_def)
  have p: "mset (ord ?m) = mset ?m" using assms(2) by (simp add: iteration_order_def)
  have wf': "hm_wf (ord ?m)" using wf p by (metis mset_eq_imp_distinct_iff mset_map)
  have "(k, v) \<in> set (dl @ pl)" if "(k, v) \<in> set ?m" for k v
  proof -
    have "(k, v) \<in> set (ws_index w)" using that by (auto simp: hm_retain_def)
    then have "hm_get (ws_index w) k = Some v"
      using assms(1) unfolding wal_rep_def by (intro map_of_is_SomeI) auto
    then have "hm_get (log_index (dl @ pl) []) k = Some v"
      using wal_rep_get [OF assms(1), of k] unfolding ws_get_def by metis
    then show ?thesis by (rule log_index_mem)
  qed
  then have "set ?m \<subseteq> set (dl @ pl)" by (rule subrelI)
  moreover have "log_ok (dl @ pl)" using assms(1) unfolding wal_rep_def by blast
  ultimately have "log_ok (ord ?m)"
    unfolding mset_eq_setD [OF p, symmetric] by (rule log_ok_mono)
  then show ?thesis
    using wf wf' hm_get_perm [OF wf p] log_index_distinct [OF wf']
    by (simp add: wal_rep_def ws_compact_def Let_def compact_log_encode)
qed

text \<open>After a crash in the middle of appending the buffer, opening the file recovers the durable
  log and a prefix of the buffered one.\<close>

lemma crash_recovers:
  assumes "wal_rep w dl pl"
  obtains m w' where "m \<le> length pl"
    "open_with io_ok (ws_file w @ take n (ws_pending w)) sync = Inr w'"
    "wal_rep w' (dl @ take m pl) []" "ws_sync_each w' = sync"
    "length (ws_pending w) \<le> n \<Longrightarrow> m = length pl"
proof -
  have ok: "log_ok dl" "log_ok pl" using assms by (simp_all add: wal_rep_def)
  obtain m torn where m: "m \<le> length pl"
      "take n (encode_log (log_root GENESIS dl) pl) = encode_log (log_root GENESIS dl) (take m pl) @ torn"
      "decode_record torn = None" "torn = [] \<or> \<not> is_complete_frame torn"
      "length (encode_log (log_root GENESIS dl) pl) \<le> n \<Longrightarrow> m = length pl"
    using take_encode_log [OF ok(2)] by metis
  have img: "ws_file w @ take n (ws_pending w) = encode_log GENESIS (dl @ take m pl) @ torn"
    using assms m(2) by (simp add: wal_rep_def encode_log_append)
  have "open_with io_ok (ws_file w @ take n (ws_pending w)) sync =
      Inr \<lparr>ws_index = log_index (dl @ take m pl) [], ws_file = encode_log GENESIS (dl @ take m pl),
        ws_pending = [], ws_sync_each = sync, ws_chain_root = log_root GENESIS (dl @ take m pl)\<rparr>"
    unfolding img using ok m by (intro open_with_log) auto
  then show thesis
    by (rule that [OF m(1)]) (use ok m(5) assms in \<open>auto simp: wal_rep_def\<close>)
qed

end
