(* ===== verification/Onced_Recovery.thy ===== *)
theory Onced_Recovery
  imports Onced_Wal "HOL-Library.Sublist"
begin

text \<open>
  The engine of \<^verbatim>\<open>onced-core/src/engine.rs\<close> running on \<open>WalStore\<close>, with a crash possible at any
  point of any call. A node executes calls; a crash inside a call leaves on disk what the
  file system had by then, and the node starts again with \<open>open_with\<close> and \<open>with_ttl\<close>, as
  \<^verbatim>\<open>main\<close> does. The lemmas show that a restart always succeeds, that each call of a strict
  node is atomic under crashes, and that what was acknowledged stays.
\<close>

section \<open>Crashes and restarts\<close>

text \<open>The store operations with the buffer not yet forced out: the state a crash interrupts.\<close>

definition inflight_ops :: "(log \<Rightarrow> log) \<Rightarrow> wal_store store_ops" where
  "inflight_ops ord = (wal_ops ord)\<lparr>store_put := put_append, store_flush := (\<lambda>w. w)\<rparr>"

text \<open>The bytes of the log file after a crash inside call \<open>ev\<close>. Appending has written the first
  \<open>n\<close> bytes of the buffer; compaction has made its first \<open>n\<close> changes of the disk.\<close>

definition compact_crash_image :: "(log \<Rightarrow> log) \<Rightarrow> wal_store \<Rightarrow> (idempotency_key \<Rightarrow> key_state \<Rightarrow> bool) \<Rightarrow> nat \<Rightarrow> bytes" where
  "compact_crash_image ord w keep n =
     (let ds = compact_disks \<lparr>disk_live = ws_file w, disk_tmp = None\<rparr> (ws_file (ws_compact ord w keep))
      in disk_live (ds ! min n (length ds - 1)))"

definition append_crash_image :: "wal_store \<Rightarrow> nat \<Rightarrow> bytes" where
  "append_crash_image w n = ws_file w @ take n (ws_pending w)"

fun crash_image :: "(log \<Rightarrow> log) \<Rightarrow> wal_store engine \<Rightarrow> engine_event \<Rightarrow> nat \<Rightarrow> bytes" where
  "crash_image ord e (EvPrune now) n =
     compact_crash_image ord (eng_store e) (prune_keep (ttl_ms e) now) n"
| "crash_image ord e ev n =
     append_crash_image (eng_store (snd (engine_step (inflight_ops ord) e ev))) n"

definition node_restart :: "(log \<Rightarrow> log) \<Rightarrow> wal_store engine \<Rightarrow> bytes \<Rightarrow> wal_error + wal_store engine" where
  "node_restart ord e img =
     (case open_with io_ok img (ws_sync_each (eng_store e)) of
        Inl err \<Rightarrow> Inl err
      | Inr w \<Rightarrow> Inr (engine_with_ttl (wal_ops ord) w (lease_ms e) (ttl_ms e)))"

datatype node_event = Call engine_event | CrashIn engine_event nat

fun node_step :: "(log \<Rightarrow> log) \<Rightarrow> wal_store engine \<Rightarrow> node_event \<Rightarrow> wal_error + wal_store engine" where
  "node_step ord e (Call ev) = Inr (snd (engine_step (wal_ops ord) e ev))"
| "node_step ord e (CrashIn ev n) = node_restart ord e (crash_image ord e ev n)"

fun node_exec :: "(log \<Rightarrow> log) \<Rightarrow> wal_store engine \<Rightarrow> node_event list \<Rightarrow> wal_error + wal_store engine" where
  "node_exec ord e [] = Inr e"
| "node_exec ord e (ev # evs) =
     (case node_step ord e ev of Inl err \<Rightarrow> Inl err | Inr e' \<Rightarrow> node_exec ord e' evs)"

fun node_call :: "node_event \<Rightarrow> engine_event" where
  "node_call (Call ev) = ev"
| "node_call (CrashIn ev n) = ev"

text \<open>Calls whose arguments are values of the Rust types that a record can hold.\<close>

fun event_ok :: "engine_event \<Rightarrow> bool" where
  "event_ok (EvBegin k fp now) \<longleftrightarrow> encodable k (InProgress (Fence 0) fp 0)"
| "event_ok (EvComplete tok oc now) \<longleftrightarrow>
     encodable (tok_key tok) (Completed (RequestFingerprint (replicate 32 0)) oc now)"
| "event_ok EvFlush \<longleftrightarrow> True"
| "event_ok (EvPrune now) \<longleftrightarrow> True"

lemma encodable_in_progress:
  "encodable k (InProgress f fp l) \<longleftrightarrow> encodable k (InProgress (Fence 0) fp 0)"
  by (simp add: encodable_def put_simps)

lemma encodable_completed:
  "wf_fp fp \<Longrightarrow> encodable k (Completed (RequestFingerprint (replicate 32 0)) oc t) \<Longrightarrow>
   encodable k (Completed fp oc t)"
  by (simp add: encodable_def put_simps put_headers_append wf_fp_def)

section \<open>What one call does to the store\<close>

text \<open>The single write a call may make.\<close>

fun call_put :: "u64 \<Rightarrow> u64 \<Rightarrow> u64 \<Rightarrow> engine_event \<Rightarrow> (idempotency_key \<Rightarrow> key_state option) \<Rightarrow>
    (idempotency_key \<times> key_state) option" where
  "call_put lease ttl nf (EvBegin k fp now) m =
     (if begin_decision ttl fp now (m k) = Act_Start
      then Some (k, InProgress (Fence nf) fp (saturating_add now lease)) else None)"
| "call_put lease ttl nf (EvComplete tok oc now) m =
     (case m (tok_key tok) of
        Some (InProgress f fp l) \<Rightarrow> if f = tok_fence tok then Some (tok_key tok, Completed fp oc now) else None
      | _ \<Rightarrow> None)"
| "call_put lease ttl nf _ m = None"

lemma engine_step_store:
  "eng_store (snd (engine_step ops e ev)) =
     (case ev of
        EvFlush \<Rightarrow> store_flush ops (eng_store e)
      | EvPrune now \<Rightarrow> store_compact ops (eng_store e) (prune_keep (ttl_ms e) now)
      | _ \<Rightarrow> (case call_put (lease_ms e) (ttl_ms e) (next_fence e) ev (store_get ops (eng_store e)) of
               None \<Rightarrow> eng_store e
             | Some (k, v) \<Rightarrow> store_put ops (eng_store e) k v))"
  by (cases ev)
    (auto simp: engine_defs Let_def split: begin_action.split option.split key_state.split)

lemma call_put_encodable:
  assumes "wal_rep w dl pl" and "event_ok ev" and "call_put lease ttl nf ev (ws_get w) = Some (k, v)"
  shows "encodable k v"
proof (cases ev)
  case (EvBegin k' fp now)
  with assms(2,3) show ?thesis
    using encodable_in_progress [of k "Fence nf" fp] by (auto split: if_splits)
next
  case (EvComplete tok oc now)
  with assms(3) obtain fp l where g: "ws_get w (tok_key tok) = Some (InProgress (tok_fence tok) fp l)"
    and kv: "k = tok_key tok" "v = Completed fp oc now"
    by (auto split: option.splits key_state.splits if_splits)
  then have "(tok_key tok, InProgress (tok_fence tok) fp l) \<in> set (dl @ pl)"
    unfolding wal_rep_get [OF assms(1)] by (intro log_index_mem) simp
  then have "encodable (tok_key tok) (InProgress (tok_fence tok) fp l)"
    using assms(1) by (auto simp: wal_rep_def log_ok_def)
  then have "wf_fp fp" by (simp add: encodable_def)
  with assms(2) kv EvComplete show ?thesis
    by (auto intro: encodable_completed)
qed (use assms in auto)

section \<open>Restarts succeed, and calls are atomic\<close>

definition node_ok :: "wal_store engine \<Rightarrow> bool" where
  "node_ok e \<longleftrightarrow> wal_synced (eng_store e) \<and> (\<exists>dl pl. wal_rep (eng_store e) dl pl)"

lemma ops_simps [simp]:
  "store_get (wal_ops ord) = ws_get" "store_put (wal_ops ord) = ws_put"
  "store_flush (wal_ops ord) = ws_flush" "store_compact (wal_ops ord) = ws_compact ord"
  "store_max_in_progress_fence (wal_ops ord) = ws_max_in_progress_fence"
  "store_get (inflight_ops ord) = ws_get" "store_put (inflight_ops ord) = put_append"
  "store_flush (inflight_ops ord) = (\<lambda>w. w)"
  by (simp_all add: wal_ops_def inflight_ops_def)

lemma disk_live_compact:
  "disk_live (compact_disks \<lparr>disk_live = old, disk_tmp = None\<rparr> new ! min n (length new + 3))
   = (if n < length new + 3 then old else new)"
  by (auto simp: compact_disks_def nth_append min_def nth_Cons' simp del: upt_Suc)

lemma compact_crash_image_cases:
  "compact_crash_image ord w keep n = ws_file w \<or>
   compact_crash_image ord w keep n = ws_file (ws_compact ord w keep)"
proof -
  have "length (compact_disks \<lparr>disk_live = ws_file w, disk_tmp = None\<rparr> new) - 1 = length new + 3"
    for new by (simp add: compact_disks_def)
  then show ?thesis
    by (simp add: compact_crash_image_def Let_def disk_live_compact)
qed

text \<open>The logs a crash inside a call can leave.\<close>

fun call_pending :: "wal_store engine \<Rightarrow> engine_event \<Rightarrow> log" where
  "call_pending e ev =
     (case call_put (lease_ms e) (ttl_ms e) (next_fence e) ev (ws_get (eng_store e)) of
        None \<Rightarrow> [] | Some kv \<Rightarrow> [kv])"

declare call_pending.simps [simp del]

lemma inflight_rep:
  assumes "wal_rep (eng_store e) dl pl" and "event_ok ev" and "\<forall>now. ev \<noteq> EvPrune now"
  shows "wal_rep (eng_store (snd (engine_step (inflight_ops ord) e ev))) dl (pl @ call_pending e ev)"
proof -
  have "eng_store (snd (engine_step (inflight_ops ord) e ev)) =
      (case call_put (lease_ms e) (ttl_ms e) (next_fence e) ev (ws_get (eng_store e)) of
         None \<Rightarrow> eng_store e | Some (k, v) \<Rightarrow> put_append (eng_store e) k v)"
    unfolding engine_step_store ops_simps using assms(3) by (cases ev) simp_all
  then show ?thesis
    using assms(1) call_put_encodable [OF assms(1,2)]
    by (auto simp: call_pending.simps put_append_rep split: option.split)
qed

lemma crash_image_cases:
  assumes "wal_rep (eng_store e) dl pl" and "event_ok ev" and "iteration_order ord"
  obtains (log) m w where "m \<le> length (pl @ call_pending e ev)"
      "open_with io_ok (crash_image ord e ev n) sync = Inr w"
      "wal_rep w (dl @ take m (pl @ call_pending e ev)) []" "ws_sync_each w = sync"
    | (compacted) now w where "ev = EvPrune now"
      "open_with io_ok (crash_image ord e ev n) sync = Inr w"
      "wal_rep w (ord (hm_retain (prune_keep (ttl_ms e) now) (ws_index (eng_store e)))) []"
      "ws_sync_each w = sync"
proof (cases "\<exists>now. ev = EvPrune now")
  case False
  then have img: "crash_image ord e ev n =
      append_crash_image (eng_store (snd (engine_step (inflight_ops ord) e ev))) n"
    by (cases ev) auto
  obtain m w where "m \<le> length (pl @ call_pending e ev)"
    "open_with io_ok (crash_image ord e ev n) sync = Inr w"
    "wal_rep w (dl @ take m (pl @ call_pending e ev)) []" "ws_sync_each w = sync"
    unfolding img append_crash_image_def
    by (rule crash_recovers [OF inflight_rep [OF assms(1,2), of ord], of n sync])
      (use False in auto)
  then show thesis by (rule log)
next
  case True
  then obtain now where ev: "ev = EvPrune now" ..
  let ?w = "eng_store e" and ?keep = "prune_keep (ttl_ms e) now"
  note new = ws_compact_rep [OF assms(1,3), of ?keep]
  consider "crash_image ord e ev n = ws_file ?w @ take 0 (ws_pending ?w)"
    | "crash_image ord e ev n = ws_file (ws_compact ord ?w ?keep) @ take 0 (ws_pending (ws_compact ord ?w ?keep))"
    using compact_crash_image_cases [of ord ?w ?keep n] by (auto simp: ev)
  then show thesis
  proof cases
    case 1
    obtain m w where "m \<le> length pl" "open_with io_ok (ws_file ?w @ take 0 (ws_pending ?w)) sync = Inr w"
      "wal_rep w (dl @ take m pl) []" "ws_sync_each w = sync"
      by (rule crash_recovers [OF assms(1), of 0 sync])
    then show thesis using 1 by (intro log [of m w]) auto
  next
    case 2
    obtain w where "open_with io_ok (crash_image ord e ev n) sync = Inr w" "ws_sync_each w = sync"
      "wal_rep w (ord (hm_retain ?keep (ws_index ?w))) []"
      by (rule crash_recovers [OF new, of 0 sync]) (unfold 2, auto)
    then show thesis using ev by (intro compacted)
  qed
qed

lemma call_rep_put:
  assumes "wal_rep (eng_store e) dl pl" and "event_ok ev" and "ev \<noteq> EvFlush" "\<forall>now. ev \<noteq> EvPrune now"
  obtains dl' pl' where "dl' @ pl' = dl @ pl @ call_pending e ev" "prefix dl dl'"
      "wal_rep (eng_store (snd (engine_step (wal_ops ord) e ev))) dl' pl'"
proof -
  have st: "eng_store (snd (engine_step (wal_ops ord) e ev)) =
      (case call_put (lease_ms e) (ttl_ms e) (next_fence e) ev (ws_get (eng_store e)) of
         None \<Rightarrow> eng_store e | Some (k, v) \<Rightarrow> ws_put (eng_store e) k v)"
    unfolding engine_step_store ops_simps using assms(3,4) by (cases ev) simp_all
  show thesis
  proof (cases "call_put (lease_ms e) (ttl_ms e) (next_fence e) ev (ws_get (eng_store e))")
    case None
    with assms(1) st show thesis by (intro that [of dl pl]) (auto simp: call_pending.simps)
  next
    case (Some kv)
    obtain k v where kv: "kv = (k, v)" by force
    have "encodable k v" using call_put_encodable [OF assms(1,2)] Some kv by simp
    note rep = ws_put_rep [OF assms(1) this]
    show thesis
    proof (cases "ws_sync_each (eng_store e)")
      case True
      with rep st Some kv show thesis
        by (intro that [of "dl @ pl @ [(k, v)]" "[]"]) (auto simp: call_pending.simps)
    next
      case False
      with rep st Some kv show thesis
        by (intro that [of dl "pl @ [(k, v)]"]) (auto simp: call_pending.simps)
    qed
  qed
qed

lemma call_rep:
  assumes "wal_rep (eng_store e) dl pl" and "event_ok ev" and "iteration_order ord"
  obtains (log) dl' pl' where "dl' @ pl' = dl @ pl @ call_pending e ev" "prefix dl dl'"
      "wal_rep (eng_store (snd (engine_step (wal_ops ord) e ev))) dl' pl'"
    | (compacted) now where "ev = EvPrune now"
      "wal_rep (eng_store (snd (engine_step (wal_ops ord) e ev)))
         (ord (hm_retain (prune_keep (ttl_ms e) now) (ws_index (eng_store e)))) []"
proof (cases ev)
  case EvFlush
  with assms(1) show thesis
    by (intro log [of "dl @ pl" "[]"]) (auto simp: engine_flush_def call_pending.simps ws_flush_rep)
next
  case (EvPrune now)
  with ws_compact_rep [OF assms(1,3)] show thesis
    by (intro compacted [of now]) (auto simp: engine_prune_expired_def)
next
  case (EvBegin k fp now)
  show thesis by (rule call_rep_put [OF assms(1,2)]) (use EvBegin log in auto)
next
  case (EvComplete tok oc now)
  show thesis by (rule call_rep_put [OF assms(1,2)]) (use EvComplete log in auto)
qed

lemma call_store_property:
  assumes "P (eng_store e)" and "\<And>k v. P (ws_put (eng_store e) k v)" and "P (ws_flush (eng_store e))"
    and "\<And>keep. P (ws_compact ord (eng_store e) keep)"
  shows "P (eng_store (snd (engine_step (wal_ops ord) e ev)))"
  unfolding engine_step_store ops_simps
  using assms by (simp split: engine_event.split option.split del: call_put.simps)

lemma call_synced:
  "wal_synced (eng_store e) \<Longrightarrow> wal_synced (eng_store (snd (engine_step (wal_ops ord) e ev)))"
  by (rule call_store_property) simp_all

lemma call_sync_each [simp]:
  "ws_sync_each (eng_store (snd (engine_step (wal_ops ord) e ev))) = ws_sync_each (eng_store e)"
  by (rule call_store_property) simp_all

lemma restart_simps:
  "open_with io_ok img (ws_sync_each (eng_store e)) = Inr w \<Longrightarrow>
   node_restart ord e img = Inr (engine_with_ttl (wal_ops ord) w (lease_ms e) (ttl_ms e))"
  by (simp add: node_restart_def)

lemma engine_with_ttl_sel [simp]:
  "eng_store (engine_with_ttl ops w lease ttl) = w" "lease_ms (engine_with_ttl ops w lease ttl) = lease"
  "ttl_ms (engine_with_ttl ops w lease ttl) = ttl"
  by (simp_all add: engine_with_ttl_def)

lemma wal_rep_synced: "wal_rep w dl [] \<Longrightarrow> wal_synced w"
  by (simp add: wal_rep_def wal_synced_def)

text \<open>What the node keeps whatever happens.\<close>

lemma node_step_ok:
  assumes "node_ok e" and "event_ok (node_call ev)" and "iteration_order ord"
  obtains e' where "node_step ord e ev = Inr e'" "node_ok e'" "ttl_ms e' = ttl_ms e"
    "lease_ms e' = lease_ms e" "ws_sync_each (eng_store e') = ws_sync_each (eng_store e)"
proof -
  from assms(1) obtain dl pl where rep: "wal_rep (eng_store e) dl pl" and sy: "wal_synced (eng_store e)"
    by (auto simp: node_ok_def)
  show thesis
  proof (cases ev)
    case (Call c)
    have "\<exists>dl' pl'. wal_rep (eng_store (snd (engine_step (wal_ops ord) e c))) dl' pl'"
      by (rule call_rep [OF rep _ assms(3), of c]) (use assms(2) Call in auto)
    with Call sy show thesis
      by (intro that [of "snd (engine_step (wal_ops ord) e c)"]) (auto simp: node_ok_def call_synced)
  next
    case (CrashIn c n)
    have "\<exists>w dl'. open_with io_ok (crash_image ord e c n) (ws_sync_each (eng_store e)) = Inr w \<and>
        wal_rep w dl' [] \<and> ws_sync_each w = ws_sync_each (eng_store e)"
      by (rule crash_image_cases [OF rep _ assms(3), of c n "ws_sync_each (eng_store e)"])
        (use assms(2) CrashIn in auto)
    then obtain w dl' where w:
        "open_with io_ok (crash_image ord e c n) (ws_sync_each (eng_store e)) = Inr w"
        "wal_rep w dl' []" "ws_sync_each w = ws_sync_each (eng_store e)"
      by blast
    then show thesis
      using CrashIn restart_simps [OF w(1), of ord]
      by (intro that [of "engine_with_ttl (wal_ops ord) w (lease_ms e) (ttl_ms e)"])
        (auto simp: node_ok_def dest: wal_rep_synced)
  qed
qed

lemma node_exec_ok:
  assumes "node_ok e" and "\<forall>ev \<in> set evs. event_ok (node_call ev)" and "iteration_order ord"
  shows "\<exists>e'. node_exec ord e evs = Inr e' \<and> node_ok e' \<and> ttl_ms e' = ttl_ms e \<and>
    lease_ms e' = lease_ms e \<and> ws_sync_each (eng_store e') = ws_sync_each (eng_store e)"
  using assms(1,2)
proof (induction evs arbitrary: e)
  case Nil
  then show ?case by simp
next
  case (Cons ev evs)
  obtain e' where e': "node_step ord e ev = Inr e'" "node_ok e'" "ttl_ms e' = ttl_ms e"
    "lease_ms e' = lease_ms e" "ws_sync_each (eng_store e') = ws_sync_each (eng_store e)"
    using node_step_ok [OF Cons.prems(1) _ assms(3), of ev] Cons.prems(2) by auto
  then show ?case using Cons.IH [of e'] Cons.prems(2) by auto
qed

text \<open>Each call of a strict node is atomic: after a crash inside it, the restarted node has the
  store from before the call or the store from after it.\<close>

lemma strict_call_log:
  assumes "node_ok e" and "ws_sync_each (eng_store e)"
  obtains dl where "wal_rep (eng_store e) dl []"
  using assms by (auto simp: node_ok_def dest: wal_synced_rep)

lemma compact_map:
  assumes "wal_rep (eng_store e) dl pl" and "iteration_order ord"
    and "wal_rep w (ord (hm_retain (prune_keep (ttl_ms e) now) (ws_index (eng_store e)))) []"
  shows "ws_get w = ws_get (eng_store (engine_prune_expired (wal_ops ord) e now))"
proof -
  have "wal_rep (ws_compact ord (eng_store e) (prune_keep (ttl_ms e) now))
      (ord (hm_retain (prune_keep (ttl_ms e) now) (ws_index (eng_store e)))) []"
    using ws_compact_rep [OF assms(1,2)] .
  with assms(3) show ?thesis
    by (simp add: fun_eq_iff wal_rep_get engine_prune_expired_def)
qed

lemma strict_crash_atomic:
  assumes "node_ok e" and "ws_sync_each (eng_store e)" and "event_ok ev" and "iteration_order ord"
    and "node_step ord e (CrashIn ev n) = Inr e'"
  shows "ws_get (eng_store e') = ws_get (eng_store e) \<or>
         ws_get (eng_store e') = ws_get (eng_store (snd (engine_step (wal_ops ord) e ev)))"
proof -
  obtain dl where rep: "wal_rep (eng_store e) dl []"
    using strict_call_log [OF assms(1,2)] .
  let ?sync = "ws_sync_each (eng_store e)"
  from rep assms(3,4) show ?thesis
  proof (cases rule: crash_image_cases [where n = n and sync = ?sync])
    case (log m w)
    have e': "eng_store e' = w" using assms(5) restart_simps [OF log(2), of ord] by auto
    have "length (call_pending e ev) \<le> 1" by (simp add: call_pending.simps split: option.split)
    with log(1) consider "take m (call_pending e ev) = []" | "take m (call_pending e ev) = call_pending e ev"
      by (cases m) auto
    then show ?thesis
    proof cases
      case 1
      with log(3) rep have "ws_get w = ws_get (eng_store e)" by (simp add: fun_eq_iff wal_rep_get)
      then show ?thesis using e' by simp
    next
      case 2
      show ?thesis
      proof (cases rule: call_rep [OF rep assms(3,4)])
        case (1 dl' pl')
        with log(3) 2 have "ws_get w = ws_get (eng_store (snd (engine_step (wal_ops ord) e ev)))"
          by (simp add: fun_eq_iff wal_rep_get)
        then show ?thesis using e' by simp
      next
        case (2 now)
        then have "call_pending e ev = []" by (simp add: call_pending.simps)
        with log(3) rep have "ws_get w = ws_get (eng_store e)" by (simp add: fun_eq_iff wal_rep_get)
        then show ?thesis using e' by simp
      qed
    qed
  next
    case (compacted now w)
    then have "eng_store e' = w" using assms(5) restart_simps [OF compacted(2), of ord] by auto
    with compacted compact_map [OF rep assms(4)] show ?thesis by auto
  qed
qed

section \<open>What was acknowledged stays\<close>

text \<open>\<open>keeps dl pl k st\<close>: whatever part of the buffer a crash loses, key \<open>k\<close> is in state \<open>st\<close>.\<close>

definition keeps :: "log \<Rightarrow> log \<Rightarrow> idempotency_key \<Rightarrow> key_state \<Rightarrow> bool" where
  "keeps dl pl k st \<longleftrightarrow> (\<forall>m. hm_get (log_index (dl @ take m pl) []) k = Some st)"

definition durable :: "wal_store engine \<Rightarrow> idempotency_key \<Rightarrow> key_state \<Rightarrow> bool" where
  "durable e k st \<longleftrightarrow> (\<exists>dl pl. wal_rep (eng_store e) dl pl \<and> keeps dl pl k st)"

lemma keeps_extend:
  assumes "keeps dl pl k st" and "k \<notin> fst ` set l"
  shows "keeps dl (pl @ l) k st"
  unfolding keeps_def
proof
  fix m
  let ?x = "take (m - length pl) l"
  have "k \<notin> fst ` set ?x" using assms(2) by (auto dest: in_set_takeD)
  then have "map_of (rev ?x) k = None" by (simp add: map_of_eq_None_iff)
  moreover have "dl @ take m (pl @ l) = (dl @ take m pl) @ ?x" by simp
  ultimately show "hm_get (log_index (dl @ take m (pl @ l)) []) k = Some st"
    using assms(1) unfolding keeps_def by (simp only: log_index_simps(3) [of "dl @ take m pl"] hm_get_log_index) simp
qed

lemma keeps_split:
  assumes "keeps dl pl k st" and "dl' @ pl' = dl @ pl" and "prefix dl dl'"
  shows "keeps dl' pl' k st"
proof -
  from assms(3) obtain z where z: "dl' = dl @ z" by (auto simp: prefix_def)
  with assms(2) have "pl = z @ pl'" by simp
  then have "dl' @ take m pl' = dl @ take (length z + m) pl" for m by (simp add: z)
  with assms(1) show ?thesis by (simp add: keeps_def)
qed

lemma keeps_get: "wal_rep w dl pl \<Longrightarrow> keeps dl pl k st \<Longrightarrow> ws_get w k = Some st"
  unfolding keeps_def using wal_rep_get [of w dl pl k] by (metis take_all_iff order_refl)

lemma durable_get: "durable e k st \<Longrightarrow> ws_get (eng_store e) k = Some st"
  by (auto simp: durable_def keeps_get)

lemma keeps_take: "keeps dl pl k st \<Longrightarrow> keeps (dl @ take m pl) [] k st"
  by (simp add: keeps_def)

lemma rep_durable: "wal_rep (eng_store e) dl [] \<Longrightarrow> ws_get (eng_store e) k = Some st \<Longrightarrow> durable e k st"
  unfolding durable_def keeps_def using wal_rep_get [of "eng_store e" dl "[]" k]
  by (intro exI [of _ dl] exI [of _ "[]"]) (simp del: map_of_eq_Some_iff)

lemma call_pending_other:
  assumes "ws_get (eng_store e) k = Some (Completed fp oc t)"
    and "\<not> event_at_or_after (saturating_add t (ttl_ms e)) ev"
  shows "k \<notin> fst ` set (call_pending e ev)"
  using assms by (cases ev) (auto simp: call_pending.simps split: option.splits key_state.splits if_splits)

lemma durable_call:
  assumes "durable e k (Completed fp oc t)" and "event_ok ev" and "iteration_order ord"
    and "\<not> event_at_or_after (saturating_add t (ttl_ms e)) ev"
  shows "durable (snd (engine_step (wal_ops ord) e ev)) k (Completed fp oc t)"
proof -
  from assms(1) obtain dl pl where rep: "wal_rep (eng_store e) dl pl"
    and k: "keeps dl pl k (Completed fp oc t)" by (auto simp: durable_def)
  note get = keeps_get [OF rep k]
  show ?thesis
  proof (cases rule: call_rep [OF rep assms(2,3)])
    case (1 dl' pl')
    have "keeps dl (pl @ call_pending e ev) k (Completed fp oc t)"
      using k call_pending_other [OF get assms(4)] by (rule keeps_extend)
    from keeps_split [OF this] 1 show ?thesis unfolding durable_def by blast
  next
    case (2 now)
    have "ws_get (eng_store (snd (engine_step (wal_ops ord) e ev))) k = Some (Completed fp oc t)"
      using wal.completed_step [of e ord k fp oc t ev] get assms(4) wal_rep_inv [OF rep] by simp
    with 2 show ?thesis by (intro rep_durable)
  qed
qed

lemma durable_crash:
  assumes "durable e k (Completed fp oc t)" and "event_ok ev" and "iteration_order ord"
    and "\<not> event_at_or_after (saturating_add t (ttl_ms e)) ev"
    and "node_step ord e (CrashIn ev n) = Inr e'"
  shows "durable e' k (Completed fp oc t)"
proof -
  from assms(1) obtain dl pl where rep: "wal_rep (eng_store e) dl pl"
    and k: "keeps dl pl k (Completed fp oc t)" by (auto simp: durable_def)
  note get = keeps_get [OF rep k]
  let ?sync = "ws_sync_each (eng_store e)"
  from rep assms(2,3) show ?thesis
  proof (cases rule: crash_image_cases [where n = n and sync = ?sync])
    case (log m w)
    have "eng_store e' = w" using assms(5) restart_simps [OF log(2), of ord] by auto
    moreover have "keeps dl (pl @ call_pending e ev) k (Completed fp oc t)"
      using k call_pending_other [OF get assms(4)] by (rule keeps_extend)
    ultimately show ?thesis using log(3) keeps_take unfolding durable_def by metis
  next
    case (compacted now w)
    have e': "eng_store e' = w" using assms(5) restart_simps [OF compacted(2), of ord] by auto
    have "ws_get (eng_store (snd (engine_step (wal_ops ord) e ev))) k = Some (Completed fp oc t)"
      using wal.completed_step [of e ord k fp oc t ev] get assms(4) wal_rep_inv [OF rep] by simp
    then have "ws_get w k = Some (Completed fp oc t)"
      using compact_map [OF rep assms(3) compacted(3)] compacted(1) by simp
    with compacted(3) e' show ?thesis by (auto intro: rep_durable)
  qed
qed

lemma durable_step:
  assumes "durable e k (Completed fp oc t)" and "event_ok (node_call ev)" and "iteration_order ord"
    and "\<not> event_at_or_after (saturating_add t (ttl_ms e)) (node_call ev)"
    and "node_step ord e ev = Inr e'"
  shows "durable e' k (Completed fp oc t)"
  using assms durable_call durable_crash by (cases ev) auto

lemma durable_exec:
  assumes "node_ok e" and "durable e k (Completed fp oc t)"
    and "\<forall>ev \<in> set evs. event_ok (node_call ev)" and "iteration_order ord"
    and "\<forall>ev \<in> set evs. \<not> event_at_or_after (saturating_add t (ttl_ms e)) (node_call ev)"
    and "node_exec ord e evs = Inr e'"
  shows "durable e' k (Completed fp oc t)"
  using assms
proof (induction evs arbitrary: e)
  case Nil
  then show ?case by simp
next
  case (Cons ev evs)
  obtain e1 where e1: "node_step ord e ev = Inr e1" "node_ok e1" "ttl_ms e1 = ttl_ms e"
    using node_step_ok [OF Cons.prems(1) _ Cons.prems(4), of ev] Cons.prems(3) by auto
  have "durable e1 k (Completed fp oc t)"
    using Cons.prems e1 by (intro durable_step [OF _ _ _ _ e1(1)]) auto
  then show ?case using Cons.IH [of e1] Cons.prems e1 by simp
qed

text \<open>A durable outcome answers every later request for its key.\<close>

lemma durable_answers:
  assumes "durable e k (Completed fp oc t)"
  shows "now < saturating_add t (ttl_ms e) \<Longrightarrow>
      fst (engine_begin (wal_ops ord) e k fp' now) = (if fp' = fp then Begin_Replay oc else Begin_Mismatch)"
    and "tok_key tok = k \<Longrightarrow> fst (engine_complete (wal_ops ord) e tok oc' now) = Inl AlreadyCompleted"
  using durable_get [OF assms] by (auto simp: wal.begin_result engine_complete_def simp flip: not_less)

text \<open>An outcome is durable as soon as \<open>complete\<close> returns on a strict node, and after the next
  \<open>flush\<close> on a group-commit node.\<close>

lemma complete_store_get:
  assumes "node_ok e" and "fst (engine_complete (wal_ops ord) e tok oc t) = Inr ()"
  obtains fp where "ws_get (eng_store (snd (engine_complete (wal_ops ord) e tok oc t))) (tok_key tok)
    = Some (Completed fp oc t)"
    and "\<exists>l. ws_get (eng_store e) (tok_key tok) = Some (InProgress (tok_fence tok) fp l)"
proof -
  from assms(2) obtain fp l where
    g: "ws_get (eng_store e) (tok_key tok) = Some (InProgress (tok_fence tok) fp l)"
    by (auto simp: wal.complete_ok_iff)
  moreover have "ws_inv (eng_store e)" using assms(1) by (auto simp: node_ok_def wal_rep_inv)
  ultimately show thesis
    using wal.complete_store(2) [of e ord tok oc t "tok_key tok"] by (intro that [of fp]) auto
qed

lemma strict_complete_durable:
  assumes "node_ok e" and "ws_sync_each (eng_store e)" and "event_ok (EvComplete tok oc t)"
    and "iteration_order ord" and "fst (engine_complete (wal_ops ord) e tok oc t) = Inr ()"
  obtains fp where "durable (snd (engine_complete (wal_ops ord) e tok oc t)) (tok_key tok) (Completed fp oc t)"
    and "\<exists>l. ws_get (eng_store e) (tok_key tok) = Some (InProgress (tok_fence tok) fp l)"
proof -
  let ?e = "snd (engine_complete (wal_ops ord) e tok oc t)"
  have "node_step ord e (Call (EvComplete tok oc t)) = Inr ?e" by simp
  then have "node_ok ?e" "ws_sync_each (eng_store ?e)"
    using node_step_ok [OF assms(1) _ assms(4), of "Call (EvComplete tok oc t)"] assms(2,3) by auto
  then obtain dl where "wal_rep (eng_store ?e) dl []" by (rule strict_call_log)
  with complete_store_get [OF assms(1,5)] rep_durable that show thesis by metis
qed

lemma flush_durable:
  assumes "node_ok e" and "ws_get (eng_store e) k = Some st"
  shows "durable (engine_flush (wal_ops ord) e) k st" "node_ok (engine_flush (wal_ops ord) e)"
proof -
  from assms(1) obtain dl pl where rep: "wal_rep (eng_store e) dl pl" by (auto simp: node_ok_def)
  have "ws_get (ws_flush (eng_store e)) k = Some st"
    using wal.get_flush [of "eng_store e" ord k] assms(2) wal_rep_inv [OF rep] by simp
  with ws_flush_rep [OF rep] show "durable (engine_flush (wal_ops ord) e) k st"
    by (auto intro: rep_durable simp: engine_flush_def)
  show "node_ok (engine_flush (wal_ops ord) e)"
    using ws_flush_rep [OF rep] by (auto simp: node_ok_def engine_flush_def)
qed

section \<open>Fences across restarts\<close>

lemma max_in_progress_fence_attained:
  assumes "ws_inv w"
  shows "ws_max_in_progress_fence w = 0 \<or>
    (\<exists>k f fp l. ws_get w k = Some (InProgress f fp l) \<and> fence_val f = ws_max_in_progress_fence w)"
proof (cases "List.map_filter in_progress_fence (map snd (ws_index w))")
  case Nil
  then show ?thesis by (simp add: ws_max_in_progress_fence_def)
next
  case (Cons f fs)
  then have "ws_max_in_progress_fence w \<in> set (List.map_filter in_progress_fence (map snd (ws_index w)))"
    using fold_max_mem [of fs f] by (simp add: ws_max_in_progress_fence_def)
  then obtain k v where kv: "(k, v) \<in> set (ws_index w)"
      "in_progress_fence v = Some (ws_max_in_progress_fence w)"
    by (auto simp: List.map_filter_def)
  then have "ws_get w k = Some v" using assms by (simp add: ws_get_def ws_inv_def)
  with kv(2) show ?thesis by (cases v) auto
qed

text \<open>A restarted engine mints above every fence its store holds, if none was the last one.\<close>

lemma restart_fences:
  assumes "ws_inv w" and "\<And>k f fp l. ws_get w k = Some (InProgress f fp l) \<Longrightarrow> fence_val f \<le> b"
    and "b \<noteq> - 1"
  shows "engine_fences (wal_ops ord) (engine_with_ttl (wal_ops ord) w lease ttl)"
    and "unat (next_fence (engine_with_ttl (wal_ops ord) w lease ttl)) \<le> unat b + 1"
proof -
  let ?m = "ws_max_in_progress_fence w"
  have m: "?m \<le> b" using max_in_progress_fence_attained [OF assms(1)] assms(2) by fastforce
  then have ne: "?m \<noteq> - 1" using assms(3) word_order.extremum_unique by fastforce
  have "fence_val f < ?m + 1" if "ws_get w k = Some (InProgress f fp l)" for k f fp l
    using max_in_progress_fence_ge [OF that] word_less_plus_one [OF ne] by (rule order.strict_trans1)
  then show "engine_fences (wal_ops ord) (engine_with_ttl (wal_ops ord) w lease ttl)"
    by (simp add: engine_fences_def engine_with_ttl_def)
  show "unat (next_fence (engine_with_ttl (wal_ops ord) w lease ttl)) \<le> unat b + 1"
    using unat_plus_one [OF ne] m by (simp add: engine_with_ttl_def word_le_nat_alt)
qed

lemma strict_fences_step:
  assumes "node_ok e" and "ws_sync_each (eng_store e)" and "event_ok (node_call ev)" and "iteration_order ord"
    and "engine_fences (wal_ops ord) e" and "next_fence e \<noteq> - 1" and "node_step ord e ev = Inr e'"
  shows "engine_fences (wal_ops ord) e'" and "unat (next_fence e') \<le> unat (next_fence e) + 1"
proof -
  have inv: "ws_inv (eng_store e)" using assms(1) by (auto simp: node_ok_def wal_rep_inv)
  have "engine_fences (wal_ops ord) e' \<and> unat (next_fence e') \<le> unat (next_fence e) + 1"
  proof (cases ev)
    case (Call c)
    with assms(7) have "e' = snd (engine_step (wal_ops ord) e c)" by simp
    with wal.fences_step [OF inv assms(5,6)] wal.next_fence_step(2) show ?thesis by blast
  next
    case (CrashIn c n)
    with assms(7) obtain w where e': "e' = engine_with_ttl (wal_ops ord) w (lease_ms e) (ttl_ms e)"
      by (auto simp: node_restart_def split: sum.splits)
    have "node_ok e'" using node_step_ok [OF assms(1,3,4)] assms(7) by auto
    then have w: "ws_inv w" using e' by (auto simp: node_ok_def wal_rep_inv)
    have "engine_fences (wal_ops ord) (snd (engine_step (wal_ops ord) e c))"
      using wal.fences_step [OF inv assms(5,6)] .
    then have "fence_val f \<le> next_fence e" if "ws_get w k = Some (InProgress f fp l)" for k f fp l
      using that assms(5) e' strict_crash_atomic [OF assms(1,2) _ assms(4), of c n e'] assms(3,7) CrashIn
        wal.next_fence_step(2) [of ord e c] unat_plus_one [OF assms(6)]
      unfolding engine_fences_def by (fastforce simp: word_less_nat_alt word_le_nat_alt)
    from restart_fences [OF w this assms(6)] show ?thesis using e' by simp
  qed
  then show "engine_fences (wal_ops ord) e'" "unat (next_fence e') \<le> unat (next_fence e) + 1" by auto
qed

text \<open>\<open>fenced_off e tok T\<close>: the key of \<open>tok\<close> was taken over, and is not recycled before time \<open>T\<close>.\<close>

fun fenced_state :: "u64 \<Rightarrow> fence \<Rightarrow> u64 \<Rightarrow> key_state option \<Rightarrow> bool" where
  "fenced_state ttl old T None \<longleftrightarrow> False"
| "fenced_state ttl old T (Some (InProgress f fp l)) \<longleftrightarrow> fence_val old < fence_val f"
| "fenced_state ttl old T (Some (Completed fp oc t)) \<longleftrightarrow> T \<le> saturating_add t ttl"

definition fenced_off :: "wal_store engine \<Rightarrow> run_token \<Rightarrow> u64 \<Rightarrow> bool" where
  "fenced_off e tok T \<longleftrightarrow>
     fenced_state (ttl_ms e) (tok_fence tok) T (ws_get (eng_store e) (tok_key tok))"

text \<open>An event inside the window \<open>[t0, t0 + ttl)\<close>.\<close>

fun event_in_window :: "u64 \<Rightarrow> u64 \<Rightarrow> engine_event \<Rightarrow> bool" where
  "event_in_window t0 T (EvBegin k fp now) \<longleftrightarrow> t0 \<le> now \<and> now < T"
| "event_in_window t0 T (EvComplete tok oc now) \<longleftrightarrow> t0 \<le> now \<and> now < T"
| "event_in_window t0 T EvFlush \<longleftrightarrow> True"
| "event_in_window t0 T (EvPrune now) \<longleftrightarrow> t0 \<le> now \<and> now < T"

lemma fenced_off_refused:
  "fenced_off e tok T \<Longrightarrow> fst (engine_complete (wal_ops ord) e tok oc now) \<noteq> Inr ()"
  by (auto simp: fenced_off_def wal.complete_ok_iff)

lemma fenced_off_call:
  assumes "ws_inv (eng_store e)" and "engine_fences (wal_ops ord) e" and "fenced_off e tok T"
    and "event_in_window t0 T ev" and "T = saturating_add t0 (ttl_ms e)"
  shows "fenced_off (snd (engine_step (wal_ops ord) e ev)) tok T"
proof -
  have inv: "ws_inv (eng_store e)" by fact
  have ttl: "ttl_ms (snd (engine_step (wal_ops ord) e ev)) = ttl_ms e" by simp
  note op = wal.op_store [OF inv, of ord, unfolded ops_simps]
  consider f fp l where "ws_get (eng_store e) (tok_key tok) = Some (InProgress f fp l)"
      "fence_val (tok_fence tok) < fence_val f"
    | fp oc t where "ws_get (eng_store e) (tok_key tok) = Some (Completed fp oc t)"
      "T \<le> saturating_add t (ttl_ms e)"
    using assms(3) unfolding fenced_off_def
    by (cases "(ttl_ms e, tok_fence tok, T, ws_get (eng_store e) (tok_key tok))" rule: fenced_state.cases) auto
  then show ?thesis
  proof cases
    case (1 f fp l)
    then have "fence_val (tok_fence tok) < next_fence e"
      using assms(2) unfolding engine_fences_def by (simp, meson order.strict_trans)
    with 1 assms(4,5) ttl show ?thesis
      unfolding fenced_off_def
      by (cases ev) (auto simp: op saturating_add_mono split: option.split key_state.split)
  next
    case (2 fp oc t)
    have "\<not> event_at_or_after (saturating_add t (ttl_ms e)) ev"
      using assms(4) 2(2) by (cases ev) auto
    from wal.completed_step [OF inv _ this, of ord "tok_key tok" fp oc] 2 ttl show ?thesis
      by (simp add: fenced_off_def)
  qed
qed

lemma fenced_off_step:
  assumes "node_ok e" and "ws_sync_each (eng_store e)" and "event_ok (node_call ev)" and "iteration_order ord"
    and "engine_fences (wal_ops ord) e" and "fenced_off e tok T"
    and "event_in_window t0 T (node_call ev)" and "T = saturating_add t0 (ttl_ms e)"
    and "node_step ord e ev = Inr e'"
  shows "fenced_off e' tok T"
proof -
  have inv: "ws_inv (eng_store e)" using assms(1) by (auto simp: node_ok_def wal_rep_inv)
  have after: "fenced_off (snd (engine_step (wal_ops ord) e (node_call ev))) tok T"
    using inv assms(5-8) by (rule fenced_off_call)
  show ?thesis
  proof (cases ev)
    case (Call c)
    with after assms(9) show ?thesis by simp
  next
    case (CrashIn c n)
    have "ttl_ms e' = ttl_ms e" using node_step_ok [OF assms(1,3,4)] assms(9) by auto
    moreover have "ttl_ms (snd (engine_step (wal_ops ord) e c)) = ttl_ms e" by simp
    moreover have "ws_get (eng_store e') = ws_get (eng_store e) \<or>
        ws_get (eng_store e') = ws_get (eng_store (snd (engine_step (wal_ops ord) e c)))"
      using strict_crash_atomic [OF assms(1,2) _ assms(4), of c n e'] assms(3,9) CrashIn by simp
    ultimately show ?thesis
      using after assms(6) CrashIn unfolding fenced_off_def by auto
  qed
qed

lemma fenced_off_exec:
  assumes "node_ok e" and "ws_sync_each (eng_store e)" and "iteration_order ord"
    and "\<forall>ev \<in> set evs. event_ok (node_call ev) \<and> event_in_window t0 T (node_call ev)"
    and "engine_fences (wal_ops ord) e" and "fenced_off e tok T" and "T = saturating_add t0 (ttl_ms e)"
    and "unat (next_fence e) + length evs < 2 ^ 64 - 1" and "node_exec ord e evs = Inr e'"
  shows "fenced_off e' tok T"
  using assms
proof (induction evs arbitrary: e)
  case Nil
  then show ?case by simp
next
  case (Cons ev evs)
  obtain e1 where e1: "node_step ord e ev = Inr e1" "node_ok e1" "ttl_ms e1 = ttl_ms e"
    "ws_sync_each (eng_store e1) = ws_sync_each (eng_store e)"
    using node_step_ok [OF Cons.prems(1) _ Cons.prems(3), of ev] Cons.prems(4) by auto
  have ne: "next_fence e \<noteq> - 1" using Cons.prems(8) by (auto simp: unat_minus_one)
  note f = strict_fences_step [OF Cons.prems(1,2) _ Cons.prems(3,5) ne e1(1)]
  have "fenced_off e1 tok T"
    using Cons.prems by (intro fenced_off_step [OF _ _ _ _ _ _ _ _ e1(1)]) auto
  then show ?case
    using Cons.IH [of e1] Cons.prems e1 f by simp
qed

end
