(* ===== verification/Onced_Replication.thy ===== *)
theory Onced_Replication
  imports Onced_Recovery
begin

text \<open>
  \<^verbatim>\<open>onced-core/src/replication.rs\<close>: \<open>ReplicatedStore\<close>, a store over a list of stores of one
  kind. Replicating any store that meets the contract gives a store that meets it; the
  interpretation \<open>rep_wal\<close> is the one the program is for, a replicated write-ahead log.
  The lemmas show that all nodes hold the same map after every operation, that each node has
  run the calls of the group as if it were alone, and what a crash in the middle of a replicated
  write leaves.
\<close>

section \<open>State and operations\<close>

record 's replicated_store =
  replicas :: "'s list"

datatype replication_panic = NoNodes

definition rs_new :: "'s list \<Rightarrow> replication_panic + 's replicated_store" where
  "rs_new nodes = (if nodes \<noteq> [] then Inr \<lparr>replicas = nodes\<rparr> else Inl NoNodes)"

definition rs_node_count :: "'s replicated_store \<Rightarrow> nat" where
  "rs_node_count r = length (replicas r)"

definition rs_get :: "'s store_ops \<Rightarrow> 's replicated_store \<Rightarrow> idempotency_key \<Rightarrow> key_state option" where
  "rs_get ops r key = store_get ops (replicas r ! 0) key"

definition rs_put ::
    "'s store_ops \<Rightarrow> 's replicated_store \<Rightarrow> idempotency_key \<Rightarrow> key_state \<Rightarrow> 's replicated_store" where
  "rs_put ops r key state =
     (let last = length (replicas r) - 1;
          nodes = map (\<lambda>node. store_put ops node key state) (take last (replicas r)) @ drop last (replicas r)
      in r\<lparr>replicas := nodes[last := store_put ops (nodes ! last) key state]\<rparr>)"

definition rs_flush :: "'s store_ops \<Rightarrow> 's replicated_store \<Rightarrow> 's replicated_store" where
  "rs_flush ops r = r\<lparr>replicas := map (store_flush ops) (replicas r)\<rparr>"

definition rs_compact ::
    "'s store_ops \<Rightarrow> 's replicated_store \<Rightarrow> (idempotency_key \<Rightarrow> key_state \<Rightarrow> bool) \<Rightarrow> 's replicated_store" where
  "rs_compact ops r keep = r\<lparr>replicas := map (\<lambda>node. store_compact ops node keep) (replicas r)\<rparr>"

definition rs_max_in_progress_fence :: "'s store_ops \<Rightarrow> 's replicated_store \<Rightarrow> u64" where
  "rs_max_in_progress_fence ops r = store_max_in_progress_fence ops (replicas r ! 0)"

definition replicated_ops :: "'s store_ops \<Rightarrow> 's replicated_store store_ops" where
  "replicated_ops ops =
     \<lparr>store_get = rs_get ops, store_put = rs_put ops,
      store_max_in_progress_fence = rs_max_in_progress_fence ops,
      store_flush = rs_flush ops, store_compact = rs_compact ops\<rparr>"

text \<open>The nodes when a \<open>put\<close> is cut off after \<open>n\<close> of them.\<close>

definition rs_put_crash ::
    "'s store_ops \<Rightarrow> 's replicated_store \<Rightarrow> idempotency_key \<Rightarrow> key_state \<Rightarrow> nat \<Rightarrow> 's list" where
  "rs_put_crash ops r key state n =
     map (\<lambda>node. store_put ops node key state) (take n (replicas r)) @ drop n (replicas r)"

section \<open>All nodes agree\<close>

definition rs_inv :: "'s store_ops \<Rightarrow> ('s \<Rightarrow> bool) \<Rightarrow> 's replicated_store \<Rightarrow> bool" where
  "rs_inv ops ok r \<longleftrightarrow>
     replicas r \<noteq> [] \<and> (\<forall>node \<in> set (replicas r). ok node \<and> store_get ops node = rs_get ops r)"

lemma replicas_put:
  assumes "replicas r \<noteq> []"
  shows "replicas (rs_put ops r key state) = map (\<lambda>node. store_put ops node key state) (replicas r)"
proof -
  obtain ys y where "replicas r = ys @ [y]" using assms by (cases "replicas r" rule: rev_cases) auto
  then show ?thesis by (simp add: rs_put_def nth_append list_update_append)
qed

lemma rs_inv_nodes:
  assumes "rs_inv ops ok r" and "replicas r' = map f (replicas r)"
    and "\<And>node. ok node \<Longrightarrow> ok (f node)"
    and "\<And>a b. ok a \<Longrightarrow> ok b \<Longrightarrow> store_get ops a = store_get ops b \<Longrightarrow>
           store_get ops (f a) = store_get ops (f b)"
  shows "rs_inv ops ok r'" and "rs_get ops r' = store_get ops (f (replicas r ! 0))"
proof -
  have ne: "replicas r \<noteq> []" and hd: "replicas r ! 0 \<in> set (replicas r)"
    using assms(1) by (auto simp: rs_inv_def)
  show g: "rs_get ops r' = store_get ops (f (replicas r ! 0))"
    using ne assms(2) by (simp add: rs_get_def [abs_def])
  have "ok (f node) \<and> store_get ops (f node) = rs_get ops r'" if "node \<in> set (replicas r)" for node
  proof -
    have "ok node" "ok (replicas r ! 0)" "store_get ops node = store_get ops (replicas r ! 0)"
      using that hd assms(1) unfolding rs_inv_def by metis+
    then show ?thesis using assms(3) assms(4) unfolding g by blast
  qed
  then show "rs_inv ops ok r'"
    using ne unfolding rs_inv_def assms(2) by auto
qed

text \<open>The engine that a node alone would be: its store under the configuration and the fence counter of the group.\<close>

definition rs_member :: "'s replicated_store engine \<Rightarrow> nat \<Rightarrow> 's engine" where
  "rs_member e i =
     \<lparr>eng_store = replicas (eng_store e) ! i, lease_ms = lease_ms e, ttl_ms = ttl_ms e, next_fence = next_fence e\<rparr>"

lemma rs_member_sel [simp]:
  "eng_store (rs_member e i) = replicas (eng_store e) ! i" "lease_ms (rs_member e i) = lease_ms e"
  "ttl_ms (rs_member e i) = ttl_ms e" "next_fence (rs_member e i) = next_fence e"
  by (simp_all add: rs_member_def)

text \<open>A call of the group is the same call on each of its nodes.\<close>

lemma rs_member_step:
  assumes "rs_inv ops ok (eng_store e)" and "i < length (replicas (eng_store e))"
  shows "engine_step ops (rs_member e i) ev =
    map_prod id (\<lambda>e'. rs_member e' i) (engine_step (replicated_ops ops) e ev)"
proof -
  have g: "store_get ops (replicas (eng_store e) ! i) = rs_get ops (eng_store e)" and ne: "replicas (eng_store e) \<noteq> []"
    using assms by (auto simp: rs_inv_def)
  show ?thesis
    by (cases ev)
      (use assms(2) in \<open>auto simp: engine_defs rs_member_def replicated_ops_def g replicas_put [OF ne] rs_flush_def rs_compact_def
        Let_def split: begin_action.split option.split key_state.split\<close>)
qed

lemma rs_nodes_step:
  assumes "replicas (eng_store e) \<noteq> []"
  shows "length (replicas (eng_store (snd (engine_step (replicated_ops ops) e ev)))) = length (replicas (eng_store e))"
  using assms
  by (cases ev)
    (auto simp: engine_defs replicated_ops_def replicas_put rs_flush_def rs_compact_def Let_def
      split: begin_action.split option.split key_state.split)

context key_store
begin

lemma replicated_put:
  assumes "rs_inv ops inv r"
  shows "rs_inv ops inv (rs_put ops r k v)"
    and "rs_get ops (rs_put ops r k v) k' = (if k' = k then Some v else rs_get ops r k')"
proof -
  have r: "replicas (rs_put ops r k v) = map (\<lambda>node. store_put ops node k v) (replicas r)"
    and hd: "inv (replicas r ! 0)"
    using assms by (auto simp: rs_inv_def replicas_put)
  note * = rs_inv_nodes [OF assms r]
  show "rs_inv ops inv (rs_put ops r k v)"
    by (rule *(1)) (simp_all add: inv_put get_put fun_eq_iff)
  show "rs_get ops (rs_put ops r k v) k' = (if k' = k then Some v else rs_get ops r k')"
    by (subst *(2)) (simp_all add: inv_put get_put fun_eq_iff hd rs_get_def)
qed

lemma replicated_flush:
  assumes "rs_inv ops inv r"
  shows "rs_inv ops inv (rs_flush ops r)" and "rs_get ops (rs_flush ops r) k = rs_get ops r k"
proof -
  have r: "replicas (rs_flush ops r) = map (store_flush ops) (replicas r)" and hd: "inv (replicas r ! 0)"
    using assms by (auto simp: rs_inv_def rs_flush_def)
  note * = rs_inv_nodes [OF assms r]
  show "rs_inv ops inv (rs_flush ops r)"
    by (rule *(1)) (simp_all add: inv_flush get_flush fun_eq_iff)
  show "rs_get ops (rs_flush ops r) k = rs_get ops r k"
    by (subst *(2)) (simp_all add: inv_flush get_flush fun_eq_iff hd rs_get_def)
qed

lemma replicated_compact:
  assumes "rs_inv ops inv r"
  shows "rs_inv ops inv (rs_compact ops r keep)"
    and "rs_get ops (rs_compact ops r keep) k =
      (case rs_get ops r k of None \<Rightarrow> None | Some v \<Rightarrow> if keep k v then Some v else None)"
proof -
  have r: "replicas (rs_compact ops r keep) = map (\<lambda>node. store_compact ops node keep) (replicas r)"
    and hd: "inv (replicas r ! 0)"
    using assms by (auto simp: rs_inv_def rs_compact_def)
  note * = rs_inv_nodes [OF assms r]
  show "rs_inv ops inv (rs_compact ops r keep)"
    by (rule *(1)) (simp_all add: inv_compact get_compact fun_eq_iff)
  show "rs_get ops (rs_compact ops r keep) k =
      (case rs_get ops r k of None \<Rightarrow> None | Some v \<Rightarrow> if keep k v then Some v else None)"
    by (subst *(2)) (simp_all add: inv_compact get_compact fun_eq_iff hd rs_get_def)
qed

text \<open>Replication lifts the contract.\<close>

lemma replicated_key_store: "key_store (replicated_ops ops) (rs_inv ops inv)"
  by unfold_locales
    (simp_all add: replicated_ops_def replicated_put replicated_flush replicated_compact)

text \<open>After a crash inside \<open>put\<close>, every node has the map from before or from after.\<close>

lemma replicated_put_crash:
  assumes "rs_inv ops inv r" and "node \<in> set (rs_put_crash ops r k v n)"
  shows "inv node \<and> (store_get ops node = rs_get ops r \<or> store_get ops node = rs_get ops (rs_put ops r k v))"
proof -
  have "store_get ops (store_put ops x k v) = rs_get ops (rs_put ops r k v)" if "x \<in> set (replicas r)" for x
    using that assms(1) replicated_put(2) [OF assms(1)] by (auto simp: fun_eq_iff get_put rs_inv_def)
  with assms show ?thesis
    by (fastforce simp: rs_put_crash_def rs_inv_def inv_put dest: in_set_takeD in_set_dropD)
qed

lemma rs_member_exec:
  "rs_inv ops inv (eng_store e) \<Longrightarrow> i < length (replicas (eng_store e)) \<Longrightarrow>
   engine_exec ops (rs_member e i) evs = rs_member (engine_exec (replicated_ops ops) e evs) i \<and>
   length (replicas (eng_store (engine_exec (replicated_ops ops) e evs))) = length (replicas (eng_store e))"
proof (induction evs arbitrary: e)
  case (Cons ev evs)
  have "rs_inv ops inv (eng_store (snd (engine_step (replicated_ops ops) e ev)))"
    using key_store.step_inv [OF replicated_key_store Cons.prems(1)] .
  moreover have "length (replicas (eng_store (snd (engine_step (replicated_ops ops) e ev)))) = length (replicas (eng_store e))"
    using Cons.prems by (intro rs_nodes_step) auto
  ultimately show ?case using Cons.IH [of "snd (engine_step (replicated_ops ops) e ev)"] Cons.prems rs_member_step [OF Cons.prems] by simp
qed simp

text \<open>An engine over one store answers as one over a group that holds the same map.\<close>

lemma replicated_answers:
  assumes "inv (eng_store e)" and "rs_inv ops inv (eng_store e')" and "store_get ops (eng_store e) = rs_get ops (eng_store e')"
    and "lease_ms e = lease_ms e'" and "ttl_ms e = ttl_ms e'" and "next_fence e = next_fence e'"
  shows "engine_answers ops e evs = engine_answers (replicated_ops ops) e' evs"
proof -
  have "abs_engine ops e = abs_engine (replicated_ops ops) e'" using assms(3-6) by (simp add: abs_engine_def replicated_ops_def)
  then show ?thesis
    using abs_answers [OF assms(1), of evs] key_store.abs_answers [OF replicated_key_store assms(2), of evs] by simp
qed

end

context fenced_store
begin

lemma replicated_fenced_store: "fenced_store (replicated_ops ops) (rs_inv ops inv)"
proof (intro fenced_store.intro replicated_key_store fenced_store_axioms.intro)
  fix r k f fp l
  assume r: "rs_inv ops inv r" and k: "store_get (replicated_ops ops) r k = Some (InProgress f fp l)"
  have "inv (replicas r ! 0)" using r unfolding rs_inv_def by simp
  from fence_bound [OF this] k show "fence_val f \<le> store_max_in_progress_fence (replicated_ops ops) r"
    by (simp add: replicated_ops_def rs_get_def rs_max_in_progress_fence_def)
qed

end

interpretation rep_wal: fenced_store "replicated_ops (wal_ops ord)" "rs_inv (wal_ops ord) ws_inv"
  for ord
  by (rule wal.replicated_fenced_store)

text \<open>The fence a log is seeded from depends only on its map.\<close>

lemma ws_max_in_progress_fence_Max:
  "ws_max_in_progress_fence w = Max (insert 0 (set (List.map_filter in_progress_fence (map snd (ws_index w)))))"
proof (cases "List.map_filter in_progress_fence (map snd (ws_index w))")
  case (Cons f fs)
  have "Max (insert 0 (set (f # fs))) = max 0 (Max (set (f # fs)))" by (rule Max_insert) simp_all
  then show ?thesis by (simp add: ws_max_in_progress_fence_def Cons Max.set_eq_fold [symmetric] max_def)
qed (simp add: ws_max_in_progress_fence_def)

lemma ws_max_in_progress_fence_get:
  assumes "ws_inv w" and "ws_inv w'" and "ws_get w = ws_get w'"
  shows "ws_max_in_progress_fence w = ws_max_in_progress_fence w'"
proof -
  have "set (ws_index w) = set (ws_index w')"
    using assms map_of_inject_set [of "ws_index w" "ws_index w'"] by (simp add: ws_inv_def ws_get_def [abs_def])
  then have "set (List.map_filter in_progress_fence (map snd (ws_index w))) =
      set (List.map_filter in_progress_fence (map snd (ws_index w')))"
    by (simp add: List.map_filter_def)
  then show ?thesis by (simp only: ws_max_in_progress_fence_Max)
qed

end
