(* ===== verification/Onced_Tamper.thy ===== *)
theory Onced_Tamper
  imports Onced_Wal
begin

text \<open>
  What \<open>open_with\<close> of \<^verbatim>\<open>onced-core/src/wal.rs\<close> detects in a log it did not write. A file it
  accepts is a hash chain of frames and a tail; two accepted files with the same root hold
  the same records unless SHA-256 was broken on the very inputs of the chain. A changed
  byte in the checksum, the chain or the payload of any record makes \<open>open_with\<close> fail.
  The last section shows the two kinds of damage it does not report.
\<close>

section \<open>The chain of an accepted file\<close>

text \<open>The file of a list of payloads, its root, and the inputs of the hashes along the chain.\<close>

fun chain_file :: "bytes \<Rightarrow> bytes list \<Rightarrow> bytes" where
  "chain_file prev [] = []"
| "chain_file prev (p # ps) =
     (let c = compute_chain prev (crc32 p) p in frame p c @ chain_file c ps)"

fun chain_end :: "bytes \<Rightarrow> bytes list \<Rightarrow> bytes" where
  "chain_end prev [] = prev"
| "chain_end prev (p # ps) = chain_end (compute_chain prev (crc32 p) p) ps"

definition chain_input :: "bytes \<Rightarrow> bytes \<Rightarrow> bytes" where
  "chain_input prev p = prev @ to_le_bytes 4 (crc32 p) @ p"

fun chain_inputs :: "bytes \<Rightarrow> bytes list \<Rightarrow> bytes set" where
  "chain_inputs prev [] = {}"
| "chain_inputs prev (p # ps) =
     insert (chain_input prev p) (chain_inputs (compute_chain prev (crc32 p) p) ps)"

fun payload_index :: "bytes list \<Rightarrow> (idempotency_key, key_state) hashmap \<Rightarrow>
    (idempotency_key, key_state) hashmap option" where
  "payload_index [] m = Some m"
| "payload_index (p # ps) m =
     (case decode_payload p of None \<Rightarrow> None | Some (k, v) \<Rightarrow> payload_index ps (hm_insert k v m))"

lemma compute_chain_input: "compute_chain prev (crc32 p) p = sha256 (chain_input prev p)"
  by (simp add: compute_chain_def chain_input_def)

lemma replay_accepts:
  assumes "replay buf offset root idx = Inr (offset', root', idx')" and "offset \<le> length buf"
  shows "\<exists>ps. drop offset buf = chain_file root ps @ drop offset' buf \<and> root' = chain_end root ps \<and>
    payload_index ps idx = Some idx' \<and> offset' \<le> length buf \<and> decode_record (drop offset' buf) = None"
  using assms
proof (induction "length buf - offset" arbitrary: offset root idx rule: less_induct)
  case less
  show ?case
  proof (cases "decode_record (drop offset buf)")
    case None
    with less.prems show ?thesis by (intro exI [of _ "[]"]) (simp add: replay.simps)
  next
    case (Some r)
    then obtain n k v c where dec: "decode_record (drop offset buf) = Some (n, k, v, c)"
      by (cases r) auto
    then obtain p where p: "drop offset buf = frame p c @ drop n (drop offset buf)" "n = 40 + length p"
        "n \<le> length (drop offset buf)" "length c = 32" "decode_payload p = Some (k, v)"
      by (rule decode_record_frameD)
    have d: "drop (offset + i) buf = drop i (frame p c @ drop n (drop offset buf))" for i
      using p(1) by (metis add.commute drop_drop)
    have crc: "from_le_bytes (take 4 (drop (offset + 4) buf)) = crc32 p"
      by (simp add: d frame_def from_to_le_bytes)
    have pay: "take (n - HEADER_LEN) (drop (offset + HEADER_LEN) buf) = p"
      by (simp add: d frame_def HEADER_LEN_def p(2,4))
    let ?c = "compute_chain root (crc32 p) p"
    have step: "replay buf offset root idx = (if ?c \<noteq> c then Inl (Wal_ChainMismatch offset)
        else replay buf (offset + n) ?c (hm_insert k v idx))"
      using dec crc pay by (subst replay.simps) (simp add: Let_def)
    with less.prems(1) have c: "c = ?c" and
        rest: "replay buf (offset + n) ?c (hm_insert k v idx) = Inr (offset', root', idx')"
      by (auto split: if_splits)
    have "offset + n \<le> length buf" using p(3) less.prems(2) by simp
    from less.hyps [OF decode_record_progress [OF dec] rest this] obtain ps where
      "drop (offset + n) buf = chain_file ?c ps @ drop offset' buf" "root' = chain_end ?c ps"
      "payload_index ps (hm_insert k v idx) = Some idx'" "offset' \<le> length buf"
      "decode_record (drop offset' buf) = None"
      by blast
    then show ?thesis
      using p(1,5) c by (intro exI [of _ "p # ps"]) (simp add: Let_def add.commute)
  qed
qed

lemma open_accepts:
  assumes "open_with io buf sync = Inr w"
  obtains ps tail where "buf = chain_file GENESIS ps @ tail" "ws_file w = chain_file GENESIS ps"
    "ws_root w = chain_end GENESIS ps" "payload_index ps [] = Some (ws_index w)"
    "decode_record tail = None" "tail = [] \<or> \<not> is_complete_frame tail"
proof -
  from assms obtain off root idx where r: "replay buf 0 GENESIS [] = Inr (off, root, idx)"
    and w: "w = \<lparr>ws_index = idx, ws_file = take off buf, ws_pending = [], ws_sync_each = sync,
              ws_chain_root = root\<rparr>"
    and t: "drop off buf = [] \<or> \<not> is_complete_frame (drop off buf)"
    by (auto simp: open_with_def Let_def split: if_splits sum.splits)
  from replay_accepts [OF r] obtain ps where ps: "buf = chain_file GENESIS ps @ drop off buf"
      "root = chain_end GENESIS ps" "payload_index ps [] = Some idx" "off \<le> length buf"
      "decode_record (drop off buf) = None"
    by auto
  then have "take off buf = chain_file GENESIS ps"
    by (metis append_take_drop_id append_same_eq)
  with ps t w show thesis by (intro that [of ps "drop off buf"]) (simp_all add: ws_root_def)
qed

section \<open>Equal roots\<close>

definition sha256_collision :: "bytes set \<Rightarrow> bool" where
  "sha256_collision X \<longleftrightarrow> (\<exists>x \<in> X. \<exists>y \<in> X. x \<noteq> y \<and> sha256 x = sha256 y)"

definition genesis_preimage :: "bytes set \<Rightarrow> bool" where
  "genesis_preimage X \<longleftrightarrow> (\<exists>x \<in> X. sha256 x = GENESIS)"

lemma collision_mono: "sha256_collision X \<Longrightarrow> X \<subseteq> Y \<Longrightarrow> sha256_collision Y"
  by (auto simp: sha256_collision_def)

lemma preimage_mono: "genesis_preimage X \<Longrightarrow> X \<subseteq> Y \<Longrightarrow> genesis_preimage Y"
  by (auto simp: genesis_preimage_def)

lemma chain_end_snoc:
  "chain_end prev (ps @ [p]) = sha256 (chain_input (chain_end prev ps) p)"
  by (induction ps arbitrary: prev) (simp_all add: compute_chain_input)

lemma chain_inputs_snoc:
  "chain_inputs prev (ps @ [p]) = insert (chain_input (chain_end prev ps) p) (chain_inputs prev ps)"
  by (induction ps arbitrary: prev) (auto simp: compute_chain_input)

lemma length_chain_end [simp]: "length prev = 32 \<Longrightarrow> length (chain_end prev ps) = 32"
  by (induction ps arbitrary: prev) simp_all

lemma length_GENESIS [simp]: "length GENESIS = 32"
  by (simp add: GENESIS_def)

lemma chain_input_inject:
  "length a = 32 \<Longrightarrow> length b = 32 \<Longrightarrow> chain_input a p = chain_input b q \<longleftrightarrow> a = b \<and> p = q"
  by (auto simp: chain_input_def)

lemma chain_end_inject:
  "chain_end GENESIS ps = chain_end GENESIS qs \<Longrightarrow>
   ps = qs \<or> sha256_collision (chain_inputs GENESIS ps \<union> chain_inputs GENESIS qs) \<or>
   genesis_preimage (chain_inputs GENESIS ps \<union> chain_inputs GENESIS qs)"
proof (induction ps arbitrary: qs rule: rev_induct)
  case Nil
  then show ?case
    by (cases qs rule: rev_cases) (auto simp: chain_end_snoc chain_inputs_snoc genesis_preimage_def)
next
  case (snoc p ps)
  show ?case
  proof (cases qs rule: rev_cases)
    case Nil
    with snoc.prems show ?thesis
      by (auto simp: chain_end_snoc chain_inputs_snoc genesis_preimage_def)
  next
    case (snoc qs' q)
    let ?a = "chain_input (chain_end GENESIS ps) p" and ?b = "chain_input (chain_end GENESIS qs') q"
    have eq: "sha256 ?a = sha256 ?b" using snoc.prems snoc by (simp add: chain_end_snoc)
    let ?X = "chain_inputs GENESIS (ps @ [p]) \<union> chain_inputs GENESIS qs"
    have in_X: "?a \<in> ?X" "?b \<in> ?X" using snoc by (auto simp: chain_inputs_snoc)
    show ?thesis
    proof (cases "?a = ?b")
      case False
      with eq in_X have "sha256_collision ?X" unfolding sha256_collision_def by blast
      then show ?thesis by simp
    next
      case True
      then have "chain_end GENESIS ps = chain_end GENESIS qs'" "p = q"
        by (simp_all add: chain_input_inject)
      moreover have "chain_inputs GENESIS ps \<union> chain_inputs GENESIS qs' \<subseteq> ?X"
        using snoc by (auto simp: chain_inputs_snoc)
      ultimately show ?thesis
        using snoc.IH [of qs'] collision_mono preimage_mono snoc by fastforce
    qed
  qed
qed

section \<open>A changed byte\<close>

lemma decode_damaged:
  assumes "length P < 2 ^ 32" and "length crcb = 4" and "length C = 32"
  shows "decode_record (to_le_bytes 4 (of_nat (length P) :: u32) @ crcb @ C @ P @ rest) =
      (if crc32 P \<noteq> from_le_bytes crcb then None
       else map_option (\<lambda>(k, v). (40 + length P, k, v, C)) (decode_payload P))"
    and "is_complete_frame (to_le_bytes 4 (of_nat (length P) :: u32) @ crcb @ C @ P @ rest)"
proof -
  have u: "unat (of_nat (length P) :: u32) = length P" using assms(1) by (rule unat_of_nat_u32)
  show "decode_record (to_le_bytes 4 (of_nat (length P) :: u32) @ crcb @ C @ P @ rest) =
      (if crc32 P \<noteq> from_le_bytes crcb then None
       else map_option (\<lambda>(k, v). (40 + length P, k, v, C)) (decode_payload P))"
    using assms by (cases "decode_payload P")
      (auto simp: decode_record_def HEADER_LEN_def get_range_def from_to_le_bytes u checked_add_def)
  show "is_complete_frame (to_le_bytes 4 (of_nat (length P) :: u32) @ crcb @ C @ P @ rest)"
    using assms by (simp add: is_complete_frame_def HEADER_LEN_def get_range_def from_to_le_bytes u checked_add_def)
qed

text \<open>Opening a file whose first records are intact and whose next one is damaged.\<close>

lemma open_checksum_failure:
  assumes "log_ok l" and "decode_record bad = None" and "is_complete_frame bad"
  shows "open_with io_ok (encode_log GENESIS l @ bad) sync =
    Inl (Wal_ChecksumFailure (length (encode_log GENESIS l)))"
proof -
  have "bad \<noteq> []" using assms(3) by (auto simp: is_complete_frame_def get_range_def HEADER_LEN_def)
  moreover have "replay (encode_log GENESIS l @ bad) 0 GENESIS [] =
      Inr (length (encode_log GENESIS l), log_root GENESIS l, log_index l [])"
    using assms(1,2) by (simp add: replay_log [where rest = bad] replay_stop)
  ultimately show ?thesis using assms(3) by (simp add: open_with_def io_ok_def)
qed

lemma open_chain_mismatch:
  assumes "log_ok l" and "length P < 2 ^ 32" and "length C = 32"
    and "C \<noteq> compute_chain (log_root GENESIS l) (crc32 P) P" and "decode_payload P = Some (k, v)"
  shows "open_with io_ok (encode_log GENESIS l @ frame P C @ rest) sync =
    Inl (Wal_ChainMismatch (length (encode_log GENESIS l)))"
proof -
  let ?buf = "encode_log GENESIS l @ frame P C @ rest" and ?n = "length (encode_log GENESIS l)"
  have "replay ?buf 0 GENESIS [] = replay ?buf ?n (log_root GENESIS l) (log_index l [])"
    using assms(1) by (simp add: replay_log [where rest = "frame P C @ rest"])
  moreover have "decode_record (drop ?n ?buf) = Some (40 + length P, k, v, C)"
    using decode_record_of_frame [OF assms(2,3), of rest] assms(5) by simp
  moreover have "from_le_bytes (take 4 (drop (?n + 4) ?buf)) = crc32 P"
    by (simp add: frame_def from_to_le_bytes)
  moreover have "take (length P) (drop (?n + 40) ?buf) = P"
    using assms(3) by (simp add: frame_def)
  ultimately have "replay ?buf 0 GENESIS [] = Inl (Wal_ChainMismatch ?n)"
    using assms(4) by (subst (asm) replay.simps) (simp add: Let_def HEADER_LEN_def)
  then show ?thesis by (simp add: open_with_def io_ok_def)
qed

lemma open_bad_crc:
  assumes "log_ok l" and "length P < 2 ^ 32" and "length crcb = 4" and "length C = 32"
    and "crc32 P \<noteq> from_le_bytes crcb"
  shows "\<exists>err. open_with io_ok
    (encode_log GENESIS l @ (to_le_bytes 4 (of_nat (length P) :: u32) @ crcb @ C @ P) @ rest) sync = Inl err"
  using open_checksum_failure [OF assms(1)] decode_damaged [OF assms(2-4), of rest] assms(5) by simp

lemma from_le_bytes_neq:
  "length b = 4 \<Longrightarrow> b \<noteq> to_le_bytes 4 (x :: u32) \<Longrightarrow> from_le_bytes b \<noteq> x"
  by (auto simp: to_from_le_bytes)

lemma crc32_list_update:
  assumes "i < length P" and "P ! i \<noteq> b"
  shows "crc32 (P[i := b]) \<noteq> crc32 P"
proof -
  have "P = take i P @ P ! i # drop (Suc i) P" using assms(1) by (rule id_take_nth_drop)
  moreover have "P[i := b] = take i P @ b # drop (Suc i) P" using assms(1) by (rule upd_conv_take_nth_drop)
  ultimately show ?thesis using crc32_detects_byte [of "take i P" b "drop (Suc i) P" "P ! i"] assms(2) by metis
qed

text \<open>C17. Damage is detected. If any single byte of the checksum, the chain or the payload of any record of a
  log is replaced by another value, \<open>open_with\<close> refuses the file; it never loads altered data.\<close>

theorem damaged_record_refused:
  assumes "log_ok (l1 @ (k, v) # l2)"
    and "4 \<le> j" and "j < length (encode_record k v (log_root GENESIS l1))"
    and "encode_record k v (log_root GENESIS l1) ! j \<noteq> b"
  shows "\<exists>err. open_with io_ok
    ((encode_log GENESIS (l1 @ (k, v) # l2))[length (encode_log GENESIS l1) + j := b]) sync = Inl err"
proof -
  let ?root = "log_root GENESIS l1" and ?P = "encode_payload k v"
  let ?L = "to_le_bytes 4 (of_nat (length ?P) :: u32)" and ?R = "to_le_bytes 4 (crc32 ?P)"
  let ?C = "record_chain k v ?root" and ?rest = "encode_log (record_chain k v ?root) l2"
  have ok: "log_ok l1" "encodable k v" using assms(1) by simp_all
  have lp: "length ?P < 2 ^ 32" using ok(2) by (simp add: encodable_def)
  have rec: "encode_record k v ?root = ?L @ ?R @ ?C @ ?P"
    by (simp add: encode_record_frame frame_def)
  have upd: "(encode_log GENESIS (l1 @ (k, v) # l2))[length (encode_log GENESIS l1) + j := b] =
      encode_log GENESIS l1 @ (encode_record k v ?root)[j := b] @ ?rest"
    using assms(3) by (simp add: encode_log_append list_update_append)
  consider (crc) "j - 4 < 4" "j < 8" | (chain) "8 \<le> j" "j - 8 < 32" "\<not> j - 4 < 4" 
    | (payload) "40 \<le> j" "\<not> j - 8 < 32" "\<not> j - 4 < 4"
    using assms(2) by arith
  then show ?thesis
  proof cases
    case crc
    let ?R' = "?R[j - 4 := b]"
    have r: "(encode_record k v ?root)[j := b] = ?L @ ?R' @ ?C @ ?P"
      using assms(2) crc by (simp add: rec list_update_append)
    have "?R ! (j - 4) \<noteq> b" using assms(2,4) crc by (simp add: rec nth_append)
    then have "?R' \<noteq> ?R" using crc by (metis length_to_le_bytes nth_list_update_eq)
    then have "crc32 ?P \<noteq> from_le_bytes ?R'" using from_le_bytes_neq [of ?R' "crc32 ?P"] by fastforce
    then show ?thesis unfolding upd r by (intro open_bad_crc [OF ok(1) lp]) simp_all
  next
    case chain
    let ?C' = "?C[j - 8 := b]"
    have r: "(encode_record k v ?root)[j := b] = frame ?P ?C'"
      using chain by (simp add: rec list_update_append frame_def)
    have "?C ! (j - 8) \<noteq> b" using assms(4) chain by (simp add: rec nth_append)
    moreover have "?C' ! (j - 8) = b" using chain by simp
    ultimately have "?C' \<noteq> ?C" by metis
    then show ?thesis
      unfolding upd r
      using open_chain_mismatch [OF ok(1) lp, of ?C' k v] decode_encode_payload [OF ok(2)]
      by (auto simp: record_chain_def)
  next
    case payload
    let ?P' = "?P[j - 40 := b]"
    have j: "j - 40 < length ?P" using assms(3) payload by (simp add: length_encode_record)
    have r: "(encode_record k v ?root)[j := b] =
        to_le_bytes 4 (of_nat (length ?P') :: u32) @ ?R @ ?C @ ?P'"
      using payload by (simp add: rec list_update_append)
    have "?P ! (j - 40) \<noteq> b" using assms(4) payload by (simp add: rec nth_append)
    then have "crc32 ?P' \<noteq> from_le_bytes ?R" using crc32_list_update [OF j] by (simp add: from_to_le_bytes)
    then show ?thesis unfolding upd r using lp by (intro open_bad_crc [OF ok(1)]) simp_all
  qed
qed

section \<open>What it does not detect\<close>

text \<open>C38. A length field that announces more bytes than follow is taken for a torn tail: the log is cut
  before that record and opened without an error, however many intact records follow it.\<close>

theorem long_length_field_truncates:
  assumes "log_ok l1" and "n < 2 ^ 32" and "36 \<le> length rest" and "length rest < n + 36"
  shows "open_with io_ok (encode_log GENESIS l1 @ to_le_bytes 4 (of_nat n :: u32) @ rest) sync =
    Inr \<lparr>ws_index = log_index l1 [], ws_file = encode_log GENESIS l1, ws_pending = [],
         ws_sync_each = sync, ws_chain_root = log_root GENESIS l1\<rparr>"
proof (rule open_with_log [OF assms(1)])
  have u: "unat (of_nat n :: u32) = n" using assms(2) by (rule unat_of_nat_u32)
  show "decode_record (to_le_bytes 4 (of_nat n :: u32) @ rest) = None"
    using assms by (simp add: decode_record_def get_range_def HEADER_LEN_def from_to_le_bytes u checked_add_def)
  show "to_le_bytes 4 (of_nat n :: u32) @ rest = [] \<or> \<not> is_complete_frame (to_le_bytes 4 (of_nat n :: u32) @ rest)"
    using assms by (simp add: is_complete_frame_def get_range_def HEADER_LEN_def from_to_le_bytes u checked_add_def)
qed

text \<open>A tail of zeros, as file systems leave after a crash, is refused.\<close>

lemma from_le_bytes_zeros: "from_le_bytes (replicate n 0) = 0"
  by (induction n) simp_all

lemma zero_tail_refused:
  assumes "log_ok l" and "40 \<le> n"
  shows "open_with io_ok (encode_log GENESIS l @ replicate n 0) sync =
    Inl (Wal_ChecksumFailure (length (encode_log GENESIS l)))"
proof (rule open_checksum_failure [OF assms(1)])
  have "reader_string (reader_new []) = None"
    by (simp add: reader_string_def reader_bytes_def reader_u32_def reader_take_def reader_new_def
        checked_add_def get_range_def)
  then show "decode_record (replicate n 0) = None"
    using assms(2) by (simp add: decode_record_def get_range_def HEADER_LEN_def from_le_bytes_zeros
        checked_add_def decode_payload_def)
  show "is_complete_frame (replicate n 0)"
    using assms(2) by (simp add: is_complete_frame_def get_range_def HEADER_LEN_def from_le_bytes_zeros
        checked_add_def)
qed

section \<open>Instances\<close>

lemma sample_log_ok: "log_ok [(IdempotencyKey [107], InProgress (Fence 1) (RequestFingerprint (replicate 32 0)) 9)]"
proof -
  have "utf8_valid [107]" by code_simp
  then show ?thesis
    by (simp add: log_ok_def encodable_def wf_key_def wf_str_def wf_fp_def put_simps)
qed

theorem damaged_record_refused_witness:
  "\<exists>b err. open_with io_ok
     ((encode_log GENESIS [(IdempotencyKey [107], InProgress (Fence 1) (RequestFingerprint (replicate 32 0)) 9)])[20 := b])
     True = Inl err"
proof -
  let ?v = "InProgress (Fence 1) (RequestFingerprint (replicate 32 0)) 9"
  let ?r = "encode_record (IdempotencyKey [107]) ?v GENESIS"
  show ?thesis
    using damaged_record_refused [of "[]" "IdempotencyKey [107]" ?v "[]" 20 "?r ! 20 + 1" True] sample_log_ok
    by (auto simp: length_encode_record)
qed

theorem long_length_field_truncates_witness:
  "open_with io_ok (encode_log GENESIS [] @ to_le_bytes 4 (of_nat 1000 :: u32) @ replicate 100 7) True =
     Inr \<lparr>ws_index = log_index [] [], ws_file = encode_log GENESIS [], ws_pending = [],
          ws_sync_each = True, ws_chain_root = log_root GENESIS []\<rparr>"
  by (rule long_length_field_truncates) (simp_all add: log_ok_def)

section \<open>Tamper evidence\<close>

text \<open>C18. Equal roots, equal logs. If two files open with the same root, their accepted records are the same
  bytes and give the same index, unless among the hash inputs along those two chains there is a collision
  of SHA-256 or a preimage of the genesis value.\<close>

theorem equal_roots_equal_logs:
  assumes "open_with io buf sync = Inr w" and "open_with io' buf' sync' = Inr w'" and "ws_root w = ws_root w'"
  shows "\<exists>ps qs. ws_file w = chain_file GENESIS ps \<and> ws_file w' = chain_file GENESIS qs \<and>
    (ws_file w = ws_file w' \<and> ws_index w = ws_index w' \<or>
     sha256_collision (chain_inputs GENESIS ps \<union> chain_inputs GENESIS qs) \<or>
     genesis_preimage (chain_inputs GENESIS ps \<union> chain_inputs GENESIS qs))"
proof -
  obtain ps where ps: "ws_file w = chain_file GENESIS ps" "ws_root w = chain_end GENESIS ps"
      "payload_index ps [] = Some (ws_index w)"
    by (rule open_accepts [OF assms(1)])
  obtain qs where qs: "ws_file w' = chain_file GENESIS qs" "ws_root w' = chain_end GENESIS qs"
      "payload_index qs [] = Some (ws_index w')"
    by (rule open_accepts [OF assms(2)])
  have "chain_end GENESIS ps = chain_end GENESIS qs" using ps(2) qs(2) assms(3) by simp
  from chain_end_inject [OF this] ps qs show ?thesis by (intro exI [of _ ps] exI [of _ qs]) auto
qed

text \<open>A log with one record, and the same log with a torn byte after it.\<close>

theorem equal_roots_equal_logs_witness:
  "let buf = encode_log GENESIS [(IdempotencyKey [107], InProgress (Fence 1) (RequestFingerprint (replicate 32 0)) 9)]
   in \<exists>w w' ps qs. open_with io_ok buf True = Inr w \<and> open_with io_ok (buf @ [9]) False = Inr w' \<and>
      ws_index w \<noteq> [] \<and> ws_index w' \<noteq> [] \<and> ws_root w = ws_root w' \<and> ps \<noteq> [] \<and> qs \<noteq> [] \<and>
      ws_file w = chain_file GENESIS ps \<and> ws_file w' = chain_file GENESIS qs \<and>
      (ws_file w = ws_file w' \<and> ws_index w = ws_index w' \<or>
       sha256_collision (chain_inputs GENESIS ps \<union> chain_inputs GENESIS qs) \<or>
       genesis_preimage (chain_inputs GENESIS ps \<union> chain_inputs GENESIS qs))"
proof -
  let ?l = "[(IdempotencyKey [107], InProgress (Fence 1) (RequestFingerprint (replicate 32 0)) 9)]"
  have torn: "decode_record [9] = None" "\<not> is_complete_frame [9]"
    by (simp_all add: decode_record_def is_complete_frame_def get_range_def HEADER_LEN_def)
  obtain w where w: "open_with io_ok (encode_log GENESIS ?l) True = Inr w" "ws_index w = log_index ?l []"
      "ws_file w = encode_log GENESIS ?l" "ws_root w = log_root GENESIS ?l"
    using open_with_log [OF sample_log_ok, of "[]" True] by (simp add: ws_root_def)
  obtain w' where w': "open_with io_ok (encode_log GENESIS ?l @ [9]) False = Inr w'" "ws_index w' = log_index ?l []"
      "ws_file w' = encode_log GENESIS ?l" "ws_root w' = log_root GENESIS ?l"
    using open_with_log [OF sample_log_ok torn(1), of False] torn(2) by (simp add: ws_root_def)
  have "0 < length (encode_log GENESIS ?l)" by (simp add: length_encode_record)
  then have ne: "encode_log GENESIS ?l \<noteq> []" by blast
  have ix: "ws_index w \<noteq> []" "ws_index w' \<noteq> []" unfolding w(2) w'(2) by (simp_all add: hm_insert_def)
  have root: "ws_root w = ws_root w'" unfolding w(4) w'(4) ..
  obtain ps qs where c: "ws_file w = chain_file GENESIS ps" "ws_file w' = chain_file GENESIS qs"
      "ws_file w = ws_file w' \<and> ws_index w = ws_index w' \<or>
       sha256_collision (chain_inputs GENESIS ps \<union> chain_inputs GENESIS qs) \<or>
       genesis_preimage (chain_inputs GENESIS ps \<union> chain_inputs GENESIS qs)"
    using equal_roots_equal_logs [OF w(1) w'(1) root] by blast
  have "ps \<noteq> []" "qs \<noteq> []" using ne c(1,2) w(3) w'(3) by (metis chain_file.simps(1))+
  with w(1) w'(1) ix root c show ?thesis unfolding Let_def by blast
qed

end
