(* ===== verification/Onced_F64.thy ===== *)
theory Onced_F64
  imports Complex_Main Onced_Prelude "HOL-Library.Log_Nat"
begin

text \<open>
  The \<open>f64\<close> arithmetic the program uses: a value is a rational, an infinity or NaN, and each
  operation rounds its exact result to 53 significant bits, to nearest with ties to even.
  Zeros are unsigned and the exponent has no lower end: no computation of the program
  divides by zero or produces a nonzero value below the normal range. The lemmas give
  what the proofs about the limiters need: rounding is monotone and keeps the
  integers up to \<open>2 ^ 53\<close>.
\<close>

section \<open>Rounding\<close>

definition round_half_even :: "rat \<Rightarrow> int" where
  "round_half_even x =
     (let f = \<lfloor>x\<rfloor>; d = x - of_int f in
      if d < 1 / 2 then f else if 1 / 2 < d then f + 1 else if even f then f else f + 1)"

definition rat_log2 :: "rat \<Rightarrow> int" where
  "rat_log2 q =
     (let (n, d) = quotient_of q; k = bitlen n - bitlen d in if 2 powi k \<le> q then k else k - 1)"

definition round53_pos :: "rat \<Rightarrow> rat" where
  "round53_pos q = (let u = 2 powi (rat_log2 q - 52) in of_int (round_half_even (q / u)) * u)"

definition round53 :: "rat \<Rightarrow> rat" where
  "round53 q = (if q = 0 then 0 else if q < 0 then - round53_pos (- q) else round53_pos q)"

lemma round_half_even_bounds: "\<lfloor>x\<rfloor> \<le> round_half_even x" "round_half_even x \<le> \<lceil>x\<rceil>"
proof -
  show "\<lfloor>x\<rfloor> \<le> round_half_even x" by (simp add: round_half_even_def Let_def)
  show "round_half_even x \<le> \<lceil>x\<rceil>"
  proof (cases "x = of_int \<lfloor>x\<rfloor>")
    case True
    then have "x - of_int \<lfloor>x\<rfloor> = 0" by simp
    then show ?thesis using floor_le_ceiling [of x] by (simp add: round_half_even_def)
  next
    case False
    then have "\<lceil>x\<rceil> = \<lfloor>x\<rfloor> + 1" by (simp add: ceiling_altdef)
    then show ?thesis by (simp add: round_half_even_def Let_def)
  qed
qed

lemma round_half_even_of_int [simp]: "round_half_even (of_int n) = n"
  by (simp add: round_half_even_def)

lemma round_half_even_mono:
  assumes "x \<le> y"
  shows "round_half_even x \<le> round_half_even y"
proof (cases "\<lfloor>x\<rfloor> = \<lfloor>y\<rfloor>")
  case True
  with assms show ?thesis by (auto simp: round_half_even_def Let_def)
next
  case False
  then have "\<lfloor>x\<rfloor> + 1 \<le> \<lfloor>y\<rfloor>" using floor_mono [OF assms] by simp
  moreover have "round_half_even x \<le> \<lfloor>x\<rfloor> + 1" by (simp add: round_half_even_def Let_def)
  ultimately show ?thesis using round_half_even_bounds(1) [of y] by linarith
qed

lemma powi2_less_cancel: "(2 :: rat) powi a < 2 powi b \<Longrightarrow> a < b"
  by (rule ccontr) (use power_int_increasing [of b a "2 :: rat"] in simp)

lemma powi_bitlen:
  assumes "0 < n"
  shows "2 powi (bitlen n - 1) \<le> (rat_of_int n)" and "(rat_of_int n) < 2 powi bitlen n"
proof -
  have b: "0 \<le> bitlen n - 1" "0 \<le> bitlen n" using assms by (auto simp: bitlen_alt_def)
  have "2 ^ nat (bitlen n - 1) \<le> n" "n < 2 ^ nat (bitlen n)" using bitlen_bounds [OF assms] by auto
  then have "rat_of_int (2 ^ nat (bitlen n - 1)) \<le> rat_of_int n"
    "rat_of_int n < rat_of_int (2 ^ nat (bitlen n))"
    by (simp_all only: of_int_le_iff of_int_less_iff)
  with b show "2 powi (bitlen n - 1) \<le> (rat_of_int n)" "(rat_of_int n) < 2 powi bitlen n"
    by (simp_all add: power_int_def)
qed

lemma rat_log2_approx:
  assumes "0 < n" and "0 < d"
  shows "2 powi (bitlen n - bitlen d - 1) < (rat_of_int n / rat_of_int d)"
    and "rat_of_int n / rat_of_int d < 2 powi (bitlen n - bitlen d + 1)"
proof -
  let ?k = "bitlen n - bitlen d" and ?d = "rat_of_int d"
  have "2 powi (?k - 1) * ?d < 2 powi (?k - 1) * 2 powi bitlen d"
    using powi_bitlen(2) [OF assms(2)] by (intro mult_strict_left_mono) auto
  also have "\<dots> = (2 :: rat) powi (?k - 1 + bitlen d)" by (rule power_int_add [symmetric]) simp
  also have "?k - 1 + bitlen d = bitlen n - 1" by simp
  finally have "2 powi (?k - 1) * ?d < rat_of_int n" using powi_bitlen(1) [OF assms(1)] by linarith
  then show "2 powi (?k - 1) < (rat_of_int n / ?d)" using assms(2) by (simp add: less_divide_eq)
  have "(2 :: rat) powi bitlen n = 2 powi (?k + 1 + (bitlen d - 1))" by simp
  also have "\<dots> = 2 powi (?k + 1) * 2 powi (bitlen d - 1)" by (rule power_int_add) simp
  also have "\<dots> \<le> 2 powi (?k + 1) * ?d" using powi_bitlen(1) [OF assms(2)] by (intro mult_left_mono) auto
  finally have "rat_of_int n < 2 powi (?k + 1) * ?d" using powi_bitlen(2) [OF assms(1)] by linarith
  then show "rat_of_int n / ?d < 2 powi (?k + 1)" using assms(2) by (simp add: divide_less_eq)
qed

lemma rat_log2_bounds:
  assumes "0 < q"
  shows "2 powi rat_log2 q \<le> q" and "q < 2 powi (rat_log2 q + 1)"
proof -
  obtain n d where nd: "quotient_of q = (n, d)" by force
  have q: "q = of_int n / of_int d" and d: "0 < d"
    using nd by (auto intro: quotient_of_div quotient_of_denom_pos)
  have n: "0 < n" using assms q d by (simp add: zero_less_divide_iff)
  show "2 powi rat_log2 q \<le> q" "q < 2 powi (rat_log2 q + 1)"
    using rat_log2_approx [OF n d, folded q] unfolding rat_log2_def nd by (auto simp: Let_def)
qed

lemma round53_pos_bounds:
  assumes "0 < q"
  shows "2 powi rat_log2 q \<le> round53_pos q" and "round53_pos q \<le> 2 powi (rat_log2 q + 1)"
proof -
  let ?e = "rat_log2 q" and ?u = "(2 :: rat) powi (rat_log2 q - 52)"
  have u: "0 < ?u" by simp
  have lo: "2 powi ?e = of_int (2 ^ 52) * ?u"
    using power_int_add [of "2 :: rat" 52 "?e - 52"] by (simp add: power_int_def)
  have hi: "2 powi (?e + 1) = of_int (2 ^ 53) * ?u"
    using power_int_add [of "2 :: rat" 53 "?e - 52"] by (simp add: power_int_def add.commute)
  have "of_int (2 ^ 52) \<le> q / ?u" using rat_log2_bounds(1) [OF assms] u unfolding lo by (simp add: le_divide_eq)
  moreover have "q / ?u \<le> of_int (2 ^ 53)" using rat_log2_bounds(2) [OF assms] u unfolding hi by (simp add: divide_le_eq)
  ultimately have "2 ^ 52 \<le> round_half_even (q / ?u)" "round_half_even (q / ?u) \<le> 2 ^ 53"
    using round_half_even_mono round_half_even_of_int by metis+
  then have "rat_of_int (2 ^ 52) \<le> of_int (round_half_even (q / ?u))"
    "of_int (round_half_even (q / ?u)) \<le> rat_of_int (2 ^ 53)"
    by (simp_all only: of_int_le_iff)
  then show "2 powi ?e \<le> round53_pos q" "round53_pos q \<le> 2 powi (?e + 1)"
    unfolding lo hi round53_pos_def Let_def using u by (auto intro: mult_right_mono)
qed

lemma round53_pos_mono:
  assumes "0 < p" and "p \<le> q"
  shows "round53_pos p \<le> round53_pos q"
proof -
  have q: "0 < q" using assms by simp
  show ?thesis
  proof (cases "rat_log2 p = rat_log2 q")
    case True
    have u: "0 < (2 :: rat) powi (rat_log2 q - 52)" by simp
    have "round_half_even (p / 2 powi (rat_log2 q - 52)) \<le> round_half_even (q / 2 powi (rat_log2 q - 52))"
      using assms(2) u by (intro round_half_even_mono divide_right_mono) auto
    then show ?thesis
      unfolding round53_pos_def True Let_def using u by (intro mult_right_mono) auto
  next
    case False
    have "(2 :: rat) powi rat_log2 p < 2 powi (rat_log2 q + 1)"
      using rat_log2_bounds(1) [OF assms(1)] rat_log2_bounds(2) [OF q] assms(2) by linarith
    then have "rat_log2 p < rat_log2 q + 1" by (rule powi2_less_cancel)
    with False have "(2 :: rat) powi (rat_log2 p + 1) \<le> 2 powi rat_log2 q"
      by (intro power_int_increasing) auto
    then show ?thesis
      using round53_pos_bounds(2) [OF assms(1)] round53_pos_bounds(1) [OF q] by linarith
  qed
qed

lemma round53_pos_exact: "q / 2 powi (rat_log2 q - 52) = of_int m \<Longrightarrow> round53_pos q = q"
  unfolding round53_pos_def Let_def by (metis nonzero_eq_divide_eq power_int_not_zero round_half_even_of_int
      zero_neq_numeral)

lemma round53_of_nat: "n \<le> 2 ^ 53 \<Longrightarrow> round53 (of_nat n) = of_nat n"
proof (cases "n = 0")
  case True
  then show ?thesis by (simp add: round53_def)
next
  case False
  assume n: "n \<le> 2 ^ 53"
  let ?q = "rat_of_nat n" and ?e = "rat_log2 (rat_of_nat n)"
  have q: "0 < ?q" using False by simp
  have le: "?q \<le> 2 powi 53" using n by (simp add: power_int_def flip: of_nat_power)
  have "?e < 54"
  proof (rule powi2_less_cancel)
    show "(2 :: rat) powi ?e < 2 powi 54"
      using rat_log2_bounds(1) [OF q] le by (simp add: power_int_def)
  qed
  then consider "?e \<le> 52" | "?e = 53" by linarith
  then have "\<exists>m. ?q / 2 powi (?e - 52) = of_int m"
  proof cases
    case 1
    then have "(2 :: rat) powi (52 - ?e) = of_int (2 ^ nat (52 - ?e))" by (simp add: power_int_def)
    moreover have "?q / 2 powi (?e - 52) = ?q * 2 powi (52 - ?e)"
      by (simp add: divide_inverse flip: power_int_minus)
    ultimately have "?q / 2 powi (?e - 52) = of_int (int n * 2 ^ nat (52 - ?e))" by simp
    then show ?thesis ..
  next
    case 2
    then have "?q = of_int (2 ^ 53)" using rat_log2_bounds(1) [OF q] le by (simp add: power_int_def)
    then have "?q / 2 powi (?e - 52) = of_int (2 ^ 52)" using 2 by (simp add: power_int_def)
    then show ?thesis ..
  qed
  then show ?thesis using False round53_pos_exact by (auto simp: round53_def)
qed

lemma round53_nonneg: "0 \<le> q \<Longrightarrow> 0 \<le> round53 q"
proof (cases "q = 0")
  case False
  assume "0 \<le> q"
  with False have "0 < q" by simp
  from round53_pos_bounds(1) [OF this] False \<open>0 < q\<close> show ?thesis
    by (simp add: round53_def) (meson order_trans zero_le_power_int zero_le_numeral)
qed (simp add: round53_def)

lemma round53_mono: "0 \<le> p \<Longrightarrow> p \<le> q \<Longrightarrow> round53 p \<le> round53 q"
  using round53_nonneg [of q] round53_pos_mono [of p q] by (auto simp: round53_def split: if_splits)

text \<open>Rounding does not cross an integer that is exactly representable.\<close>

lemma round53_le_nat: "0 \<le> q \<Longrightarrow> q \<le> of_nat n \<Longrightarrow> n \<le> 2 ^ 53 \<Longrightarrow> round53 q \<le> of_nat n"
  using round53_mono [of q "of_nat n"] by (simp add: round53_of_nat)

lemma round53_ge_nat: "of_nat n \<le> q \<Longrightarrow> n \<le> 2 ^ 53 \<Longrightarrow> of_nat n \<le> round53 q"
  using round53_mono [of "of_nat n" q] by (simp add: round53_of_nat)

section \<open>Values and operations\<close>

datatype f64 = NaN | PosInf | NegInf | Fin rat

definition f64_round :: "rat \<Rightarrow> f64" where
  "f64_round q =
     (let r = round53 q in
      if 2 ^ 1024 \<le> r then PosInf else if r \<le> - (2 ^ 1024) then NegInf else Fin r)"

definition f64_of_u64 :: "u64 \<Rightarrow> f64" where
  "f64_of_u64 w = f64_round (of_nat (unat w))"

definition f64_of_usize :: "nat \<Rightarrow> f64" where
  "f64_of_usize n = f64_round (of_nat n)"

definition signed_inf :: "bool \<Rightarrow> f64" where
  "signed_inf neg = (if neg then NegInf else PosInf)"

fun f64_neg :: "f64 \<Rightarrow> bool" where
  "f64_neg NegInf = True"
| "f64_neg (Fin q) = (q < 0)"
| "f64_neg _ = False"

fun f64_add :: "f64 \<Rightarrow> f64 \<Rightarrow> f64" where
  "f64_add (Fin a) (Fin b) = f64_round (a + b)"
| "f64_add NaN _ = NaN"
| "f64_add _ NaN = NaN"
| "f64_add PosInf NegInf = NaN"
| "f64_add NegInf PosInf = NaN"
| "f64_add PosInf _ = PosInf"
| "f64_add NegInf _ = NegInf"
| "f64_add (Fin a) b = b"

fun f64_mul :: "f64 \<Rightarrow> f64 \<Rightarrow> f64" where
  "f64_mul (Fin a) (Fin b) = f64_round (a * b)"
| "f64_mul NaN _ = NaN"
| "f64_mul _ NaN = NaN"
| "f64_mul a b = (if a = Fin 0 \<or> b = Fin 0 then NaN else signed_inf (f64_neg a \<noteq> f64_neg b))"

fun f64_div :: "f64 \<Rightarrow> f64 \<Rightarrow> f64" where
  "f64_div (Fin a) (Fin b) =
     (if b = 0 then (if a = 0 then NaN else signed_inf (a < 0)) else f64_round (a / b))"
| "f64_div NaN _ = NaN"
| "f64_div _ NaN = NaN"
| "f64_div (Fin a) _ = Fin 0"
| "f64_div a (Fin b) = signed_inf (f64_neg a \<noteq> (b < 0))"
| "f64_div _ _ = NaN"

fun f64_le :: "f64 \<Rightarrow> f64 \<Rightarrow> bool" where
  "f64_le (Fin a) (Fin b) = (a \<le> b)"
| "f64_le NaN _ = False"
| "f64_le _ NaN = False"
| "f64_le NegInf _ = True"
| "f64_le _ PosInf = True"
| "f64_le PosInf _ = False"
| "f64_le _ NegInf = False"

definition f64_less :: "f64 \<Rightarrow> f64 \<Rightarrow> bool" where
  "f64_less a b \<longleftrightarrow> f64_le a b \<and> a \<noteq> b"

fun f64_floor :: "f64 \<Rightarrow> f64" where
  "f64_floor (Fin a) = Fin (of_int \<lfloor>a\<rfloor>)"
| "f64_floor a = a"

text \<open>The saturating cast \<open>as u64\<close>.\<close>

fun f64_as_u64 :: "f64 \<Rightarrow> u64" where
  "f64_as_u64 (Fin a) = (if a \<le> 0 then 0 else if 2 ^ 64 \<le> \<lfloor>a\<rfloor> then - 1 else of_int \<lfloor>a\<rfloor>)"
| "f64_as_u64 PosInf = - 1"
| "f64_as_u64 _ = 0"

lemma round53_le_double: "0 \<le> q \<Longrightarrow> round53 q \<le> 2 * q"
proof (cases "q = 0")
  case False
  assume "0 \<le> q"
  with False have q: "0 < q" by simp
  have "(2 :: rat) powi (rat_log2 q + 1) = 2 * 2 powi rat_log2 q" by (simp add: power_int_add_1')
  then show ?thesis
    using round53_pos_bounds(2) [OF q] rat_log2_bounds(1) [OF q] q by (simp add: round53_def)
qed (simp add: round53_def)

text \<open>No value the program computes from counters comes near the overflow threshold.\<close>

lemma f64_round_fin:
  assumes "0 \<le> q" and "q \<le> 2 ^ 200"
  shows "f64_round q = Fin (round53 q)"
proof -
  have "round53 q \<le> 2 ^ 201" using round53_le_double [OF assms(1)] assms(2) by simp
  moreover have "(2 :: rat) ^ 201 < 2 ^ 1024" by (rule power_strict_increasing) simp_all
  moreover have "- (2 ^ 1024) < (0 :: rat)" by simp
  moreover have "0 \<le> round53 q" using assms(1) by (rule round53_nonneg)
  ultimately have "\<not> 2 ^ 1024 \<le> round53 q" "\<not> round53 q \<le> - (2 ^ 1024)" by linarith+
  then show ?thesis unfolding f64_round_def Let_def by simp
qed

lemma f64_of_small: "unat w \<le> 2 ^ 53 \<Longrightarrow> f64_of_u64 w = Fin (of_nat (unat w))"
proof -
  assume w: "unat w \<le> 2 ^ 53"
  then have "rat_of_nat (unat w) \<le> of_nat (2 ^ 53)" by (simp only: of_nat_le_iff)
  then have "rat_of_nat (unat w) \<le> 2 ^ 200" by (rule order_trans) simp
  from f64_round_fin [OF of_nat_0_le_iff this] show ?thesis
    unfolding f64_of_u64_def round53_of_nat [OF w] .
qed

lemma rat_of_nat_small: "n \<le> 2 ^ 53 \<Longrightarrow> rat_of_nat n \<le> 2 ^ 200"
proof -
  assume "n \<le> 2 ^ 53"
  then have "rat_of_nat n \<le> of_nat (2 ^ 53)" by (simp only: of_nat_le_iff)
  then show ?thesis by (rule order_trans) simp
qed

lemma f64_round_nat: "n \<le> 2 ^ 53 \<Longrightarrow> f64_round (of_nat n) = Fin (of_nat n)"
  using f64_round_fin [OF of_nat_0_le_iff rat_of_nat_small] round53_of_nat by simp

lemma f64_of_usize_small: "n \<le> 2 ^ 53 \<Longrightarrow> f64_of_usize n = Fin (of_nat n)"
  by (simp add: f64_of_usize_def f64_round_nat)

lemma round53_le_one: "0 \<le> q \<Longrightarrow> q \<le> 1 \<Longrightarrow> round53 q \<le> 1"
  using round53_le_nat [of q 1] by simp

lemma round53_ge_one: "1 \<le> q \<Longrightarrow> 1 \<le> round53 q"
  using round53_ge_nat [of 1 q] by simp

lemma round53_one: "round53 1 = 1"
  using round53_of_nat [of 1] by simp

lemma f64_round_unit:
  assumes "0 \<le> q" and "q \<le> 1"
  obtains a where "f64_round q = Fin a" "0 \<le> a" "a \<le> 1"
proof -
  have "q \<le> 2 ^ 200" using assms(2) by (rule order_trans) simp
  then show thesis
    using that [OF f64_round_fin] assms round53_nonneg round53_le_one by simp
qed

end
