(* ===== verification/Onced_Abuse.thy ===== *)
theory Onced_Abuse
  imports Onced_F64
begin

text \<open>
  \<^verbatim>\<open>onced-core/src/abuse.rs\<close>: the sliding-window rate limiter and the rule set. The order in
  which a hash map yields its keys, which decides the evicted key, is the argument \<open>ord\<close>.
  The lemmas show that the two counters of a key are the numbers of its hits in its
  last two windows, that the tracked keys never exceed the cap, and what the verdict is
  in terms of those numbers.
\<close>

section \<open>State and operations\<close>

datatype decision = Allow | Deny

record window_counter =
  wc_window_index :: u64
  wc_current :: u64
  wc_previous :: u64

definition DEFAULT_MAX_KEYS :: nat where
  "DEFAULT_MAX_KEYS = 1000000"

record sliding_window_limiter =
  sl_window_ms :: u64
  sl_limit :: u64
  sl_max_keys :: nat
  sl_counters :: "(bytes, window_counter) hashmap"

datatype limiter_panic = ZeroWindow | ZeroMaxKeys

definition limiter_with_capacity :: "u64 \<Rightarrow> u64 \<Rightarrow> nat \<Rightarrow> limiter_panic + sliding_window_limiter" where
  "limiter_with_capacity window limit cap =
     (if \<not> 0 < window then Inl ZeroWindow
      else if \<not> 0 < cap then Inl ZeroMaxKeys
      else Inr \<lparr>sl_window_ms = window, sl_limit = limit, sl_max_keys = cap, sl_counters = []\<rparr>)"

definition limiter_new :: "u64 \<Rightarrow> u64 \<Rightarrow> limiter_panic + sliding_window_limiter" where
  "limiter_new window limit = limiter_with_capacity window limit DEFAULT_MAX_KEYS"

definition tracked_keys :: "sliding_window_limiter \<Rightarrow> nat" where
  "tracked_keys sl = length (sl_counters sl)"

text \<open>Rolling the windows of a counter forward.\<close>

definition roll_window :: "u64 \<Rightarrow> window_counter \<Rightarrow> window_counter" where
  "roll_window window_index c =
     (if window_index = wc_window_index c + 1
      then \<lparr>wc_window_index = window_index, wc_current = 0, wc_previous = wc_current c\<rparr>
      else if wc_window_index c + 1 < window_index
      then \<lparr>wc_window_index = window_index, wc_current = 0, wc_previous = 0\<rparr>
      else c)"

definition prev_weight :: "u64 \<Rightarrow> u64 \<Rightarrow> f64" where
  "prev_weight window now =
     (let elapsed = now mod window in f64_div (f64_of_u64 (window - elapsed)) (f64_of_u64 window))"

definition window_estimate :: "u64 \<Rightarrow> u64 \<Rightarrow> window_counter \<Rightarrow> f64" where
  "window_estimate window now c =
     f64_add (f64_of_u64 (wc_current c)) (f64_mul (f64_of_u64 (wc_previous c)) (prev_weight window now))"

definition limiter_check ::
    "((bytes, window_counter) hashmap \<Rightarrow> (bytes, window_counter) hashmap) \<Rightarrow> sliding_window_limiter \<Rightarrow>
       bytes \<Rightarrow> u64 \<Rightarrow> decision \<times> sliding_window_limiter" where
  "limiter_check ord sl key now =
     (let window = sl_window_ms sl;
          window_index = now div window;
          counters = hm_evict ord (sl_max_keys sl) key (sl_counters sl);
          counter = (case hm_get counters key of
                       Some c \<Rightarrow> c
                     | None \<Rightarrow> \<lparr>wc_window_index = window_index, wc_current = 0, wc_previous = 0\<rparr>);
          counter = roll_window window_index counter;
          counter = counter\<lparr>wc_current := wc_current counter + 1\<rparr>
      in (if f64_le (window_estimate window now counter) (f64_of_u64 (sl_limit sl)) then Allow else Deny,
          sl\<lparr>sl_counters := hm_insert key counter counters\<rparr>))"

datatype abuse_action = Challenge | Throttle | Block

datatype verdict = Verdict_Allow | Verdict_Deny bytes abuse_action

record abuse_rule =
  rule_name :: bytes
  rule_limiter :: sliding_window_limiter
  rule_action :: abuse_action

record rule_set =
  rules :: "abuse_rule list"

definition ruleset_new :: rule_set where
  "ruleset_new = \<lparr>rules = []\<rparr>"

definition ruleset_rule :: "rule_set \<Rightarrow> bytes \<Rightarrow> u64 \<Rightarrow> u64 \<Rightarrow> abuse_action \<Rightarrow> limiter_panic + rule_set" where
  "ruleset_rule rs name window limit action =
     (case limiter_new window limit of
        Inl err \<Rightarrow> Inl err
      | Inr sl \<Rightarrow> Inr (rs\<lparr>rules := rules rs @ [\<lparr>rule_name = name, rule_limiter = sl, rule_action = action\<rparr>]\<rparr>))"

text \<open>The loop of \<open>evaluate\<close> over the rules, with the verdict so far.\<close>

fun evaluate_rules ::
    "((bytes, window_counter) hashmap \<Rightarrow> (bytes, window_counter) hashmap) \<Rightarrow> bytes \<Rightarrow> u64 \<Rightarrow>
       verdict \<Rightarrow> abuse_rule list \<Rightarrow> verdict \<times> abuse_rule list" where
  "evaluate_rules ord key now verdict [] = (verdict, [])"
| "evaluate_rules ord key now verdict (r # rs) =
     (let (d, sl) = limiter_check ord (rule_limiter r) key now;
          denied = (d = Deny);
          verdict = (if denied \<and> verdict = Verdict_Allow then Verdict_Deny (rule_name r) (rule_action r)
                     else verdict);
          (verdict, rs) = evaluate_rules ord key now verdict rs
      in (verdict, r\<lparr>rule_limiter := sl\<rparr> # rs))"

definition ruleset_evaluate ::
    "((bytes, window_counter) hashmap \<Rightarrow> (bytes, window_counter) hashmap) \<Rightarrow> rule_set \<Rightarrow>
       bytes \<Rightarrow> u64 \<Rightarrow> verdict \<times> rule_set" where
  "ruleset_evaluate ord rs key now =
     (let (verdict, rs') = evaluate_rules ord key now Verdict_Allow (rules rs)
      in (verdict, rs\<lparr>rules := rs'\<rparr>))"

section \<open>Memory is bounded\<close>

definition sl_inv :: "sliding_window_limiter \<Rightarrow> bool" where
  "sl_inv sl \<longleftrightarrow> 0 < sl_window_ms sl \<and> 0 < sl_max_keys sl \<and> hm_wf (sl_counters sl) \<and>
     tracked_keys sl \<le> sl_max_keys sl"

lemma limiter_new_inv: "limiter_with_capacity window limit cap = Inr sl \<Longrightarrow> sl_inv sl"
  by (auto simp: limiter_with_capacity_def sl_inv_def tracked_keys_def split: if_splits)

lemma limiter_check_sel [simp]:
  "sl_window_ms (snd (limiter_check ord sl key now)) = sl_window_ms sl"
  "sl_limit (snd (limiter_check ord sl key now)) = sl_limit sl"
  "sl_max_keys (snd (limiter_check ord sl key now)) = sl_max_keys sl"
  by (simp_all add: limiter_check_def Let_def)

lemma limiter_check_inv:
  "iteration_order ord \<Longrightarrow> sl_inv sl \<Longrightarrow> sl_inv (snd (limiter_check ord sl key now))"
  unfolding sl_inv_def tracked_keys_def limiter_check_sel
  by (auto simp: limiter_check_def Let_def intro: length_hm_evict)

fun limiter_exec ::
    "((bytes, window_counter) hashmap \<Rightarrow> (bytes, window_counter) hashmap) \<Rightarrow> sliding_window_limiter \<Rightarrow>
       (bytes \<times> u64) list \<Rightarrow> sliding_window_limiter" where
  "limiter_exec ord sl [] = sl"
| "limiter_exec ord sl ((key, now) # h) = limiter_exec ord (snd (limiter_check ord sl key now)) h"

lemma limiter_exec_append [simp]:
  "limiter_exec ord sl (g @ h) = limiter_exec ord (limiter_exec ord sl g) h"
  by (induction g arbitrary: sl) auto

lemma limiter_exec_sel [simp]:
  "sl_window_ms (limiter_exec ord sl h) = sl_window_ms sl"
  "sl_limit (limiter_exec ord sl h) = sl_limit sl"
  "sl_max_keys (limiter_exec ord sl h) = sl_max_keys sl"
  by (induction h arbitrary: sl) auto

lemma limiter_exec_inv:
  "iteration_order ord \<Longrightarrow> sl_inv sl \<Longrightarrow> sl_inv (limiter_exec ord sl h)"
  by (induction h arbitrary: sl) (auto simp: limiter_check_inv)

section \<open>The estimate\<close>

declare of_nat_unat [simp del]

lemma f64_of_u64_fin: "f64_of_u64 w = Fin (round53 (of_nat (unat w)))"
proof -
  have "unat w \<le> 2 ^ 200" using unsigned_less [of w, where ?'a = nat] by (simp add: less_imp_le)
  then have "rat_of_nat (unat w) \<le> of_nat (2 ^ 200)" by (simp only: of_nat_le_iff)
  then have "rat_of_nat (unat w) \<le> 2 ^ 200" by (simp only: of_nat_power of_nat_numeral)
  from f64_round_fin [OF of_nat_0_le_iff this] show ?thesis unfolding f64_of_u64_def .
qed

text \<open>The weight of the previous window is between 0 and 1, and is 1 when a window starts.\<close>

lemma prev_weight_range:
  assumes "0 < window"
  obtains w where "prev_weight window now = Fin w" "0 \<le> w" "w \<le> 1"
    "now mod window = 0 \<Longrightarrow> w = 1"
proof -
  let ?a = "rat_of_nat (unat (window - now mod window))" and ?b = "rat_of_nat (unat window)"
  have "now mod window < window" using assms by (simp add: word_mod_less_divisor)
  then have "unat (window - now mod window) \<le> unat window" by (simp add: unat_sub less_imp_le)
  then have ab: "?a \<le> ?b" by (simp only: of_nat_le_iff)
  have "1 \<le> unat window" using assms by (simp add: word_less_nat_alt)
  then have b: "1 \<le> round53 ?b" by (intro round53_ge_one) simp
  have a: "0 \<le> round53 ?a" "round53 ?a \<le> round53 ?b" using ab by (auto intro: round53_nonneg round53_mono)
  let ?q = "round53 ?a / round53 ?b"
  have q: "0 \<le> ?q" "?q \<le> 1" using a b by (auto simp: divide_le_eq)
  have "?q \<le> 2 ^ 200" using q(2) by (rule order_trans) simp
  from f64_round_fin [OF q(1) this] have pw: "prev_weight window now = Fin (round53 ?q)"
    unfolding prev_weight_def Let_def f64_of_u64_fin using b by simp
  have one: "round53 ?q = 1" if "now mod window = 0"
    using that b by (simp add: round53_one)
  show thesis
    by (rule that [OF pw round53_nonneg [OF q(1)] round53_le_one [OF q] one])
qed

text \<open>With fewer than \<open>2 ^ 53\<close> hits the estimate is between the current count and the sum of both.\<close>

lemma window_estimate_range:
  assumes "0 < window" and "unat (wc_current c) + unat (wc_previous c) \<le> 2 ^ 53"
  obtains e where "window_estimate window now c = Fin e"
    "rat_of_nat (unat (wc_current c)) \<le> e" "e \<le> rat_of_nat (unat (wc_current c) + unat (wc_previous c))"
    "now mod window = 0 \<Longrightarrow> e = rat_of_nat (unat (wc_current c) + unat (wc_previous c))"
proof -
  let ?c = "unat (wc_current c)" and ?p = "unat (wc_previous c)"
  obtain w where w: "prev_weight window now = Fin w" "0 \<le> w" "w \<le> 1" "now mod window = 0 \<Longrightarrow> w = 1"
    using prev_weight_range [OF assms(1)] by blast
  have small: "?c \<le> 2 ^ 53" "?p \<le> 2 ^ 53" using assms(2) by simp_all
  let ?pw = "rat_of_nat ?p * w"
  have pw: "0 \<le> ?pw" "?pw \<le> rat_of_nat ?p" using w(2,3) by (auto intro: mult_left_le)
  have r: "0 \<le> round53 ?pw" "round53 ?pw \<le> rat_of_nat ?p"
    using pw small by (auto intro: round53_nonneg round53_le_nat)
  let ?s = "rat_of_nat ?c + round53 ?pw"
  have s: "rat_of_nat ?c \<le> ?s" "?s \<le> rat_of_nat (?c + ?p)" using r by auto
  have "?pw \<le> 2 ^ 200" "?s \<le> 2 ^ 200"
    using pw(2) s(2) rat_of_nat_small [OF small(2)] rat_of_nat_small [OF assms(2)] by (meson order_trans)+
  moreover have "0 \<le> ?s" using s(1) by (rule order_trans [rotated]) simp
  ultimately have "window_estimate window now c = Fin (round53 ?s)"
    unfolding window_estimate_def w(1) f64_of_small [OF small(1)] f64_of_small [OF small(2)]
    using pw by (simp add: f64_round_fin)
  moreover have "rat_of_nat ?c \<le> round53 ?s" using round53_ge_nat [OF s(1) small(1)] .
  moreover have "round53 ?s \<le> rat_of_nat (?c + ?p)"
    using round53_le_nat [OF \<open>0 \<le> ?s\<close> s(2) assms(2)] .
  moreover have "round53 ?s = rat_of_nat (?c + ?p)" if "now mod window = 0"
    using w(4) [OF that] round53_of_nat [OF small(2)] round53_of_nat [OF assms(2)] by simp
  ultimately show thesis by (rule that)
qed

section \<open>The counters count\<close>

text \<open>The reference: the hits of a key in a window of a history of checks.\<close>

definition hits :: "u64 \<Rightarrow> (bytes \<times> u64) list \<Rightarrow> bytes \<Rightarrow> u64 \<Rightarrow> nat" where
  "hits window h k W = length (filter (\<lambda>(k', t). k' = k \<and> t div window = W) h)"

definition prev_hits :: "u64 \<Rightarrow> (bytes \<times> u64) list \<Rightarrow> bytes \<Rightarrow> u64 \<Rightarrow> nat" where
  "prev_hits window h k W = (if W = 0 then 0 else hits window h k (W - 1))"

definition counter_ok :: "u64 \<Rightarrow> (bytes \<times> u64) list \<Rightarrow> bytes \<Rightarrow> window_counter \<Rightarrow> bool" where
  "counter_ok window h k c \<longleftrightarrow>
     (\<forall>t. (k, t) \<in> set h \<longrightarrow> t div window \<le> wc_window_index c) \<and>
     unat (wc_current c) = hits window h k (wc_window_index c) \<and>
     unat (wc_previous c) = prev_hits window h k (wc_window_index c)"

lemma hits_snoc:
  "hits window (h @ [(k', t)]) k W = hits window h k W + (if k' = k \<and> t div window = W then 1 else 0)"
  by (simp add: hits_def)

lemma hits_le: "hits window h k W \<le> length h"
  by (simp add: hits_def)

lemma hits_zero: "(\<And>t. (k, t) \<in> set h \<Longrightarrow> t div window < W) \<Longrightarrow> hits window h k W = 0"
  by (fastforce simp: hits_def filter_empty_conv)

lemma prev_hits_snoc:
  "t div window = W \<Longrightarrow> prev_hits window (h @ [(k', t)]) k W = prev_hits window h k W"
  by (auto simp: prev_hits_def hits_snoc)

lemma word_less_pred:
  assumes "(i :: u64) + 1 < W" and "i < W"
  shows "i < W - 1"
proof -
  have "i \<noteq> - 1" using assms(2) word_order.extremum_strict by blast
  moreover have "W - 1 \<noteq> - 1" using assms(1) by auto
  ultimately have "unat (i + 1) = Suc (unat i)" "unat W = Suc (unat (W - 1))"
    using unat_plus_one [of i] unat_plus_one [of "W - 1"] by simp_all
  then show ?thesis using assms(1) by (simp add: word_less_nat_alt)
qed

lemma roll_window_cases:
  fixes W :: u64
  assumes "wc_window_index c \<le> W" and "W \<noteq> - 1"
  obtains (same) "W = wc_window_index c" "roll_window W c = c"
    | (succ) "W = wc_window_index c + 1" "wc_window_index c < W"
      "roll_window W c = \<lparr>wc_window_index = W, wc_current = 0, wc_previous = wc_current c\<rparr>"
    | (skip) "wc_window_index c + 1 < W" "wc_window_index c < W"
      "roll_window W c = \<lparr>wc_window_index = W, wc_current = 0, wc_previous = 0\<rparr>"
proof -
  let ?i = "wc_window_index c"
  have ne: "?i \<noteq> - 1" using assms word_order.extremum_unique by fastforce
  have lt: "?i < ?i + 1" using ne by (rule word_less_plus_one)
  consider "W = ?i" | "W = ?i + 1" | "?i + 1 < W"
    using assms(1) unat_plus_one [OF ne]
    by (fastforce simp: word_le_nat_alt word_less_nat_alt word_unat_eq_iff)
  then show thesis
  proof cases
    case 1
    with lt show thesis by (intro same) (auto simp: roll_window_def)
  next
    case 2
    with lt show thesis by (intro succ) (auto simp: roll_window_def)
  next
    case 3
    with lt show thesis by (intro skip) (auto simp: roll_window_def)
  qed
qed

lemma counter_step:
  assumes "counter_ok window h k c" and "wc_window_index c \<le> t div window" and "t div window \<noteq> - 1"
    and "Suc (length h) < 2 ^ 64"
  shows "counter_ok window (h @ [(k, t)]) k
    ((roll_window (t div window) c)\<lparr>wc_current := wc_current (roll_window (t div window) c) + 1\<rparr>)"
proof -
  let ?i = "wc_window_index c" and ?W = "t div window"
  have old: "(k, t') \<in> set h \<Longrightarrow> t' div window \<le> ?i" for t' using assms(1) by (simp add: counter_ok_def)
  have old': "(k, t') \<in> set h \<Longrightarrow> t' div window \<le> ?W" for t' using old assms(2) by (meson order_trans)
  have cur: "unat (wc_current c) = hits window h k ?i"
    and prev: "unat (wc_previous c) = prev_hits window h k ?i" using assms(1) by (simp_all add: counter_ok_def)
  have inc: "unat (w + 1) = unat w + 1" if "unat w \<le> length h" for w :: u64
  proof -
    have "w \<noteq> - 1" using that assms(4) unat_minus_one [where 'a = 64] by auto
    then show ?thesis by (simp add: unat_plus_one)
  qed
  from assms(2,3) show ?thesis
  proof (cases rule: roll_window_cases)
    case same
    with cur prev old inc [of "wc_current c"] hits_le [of window h k ?W] show ?thesis
      by (auto simp: counter_ok_def hits_snoc prev_hits_snoc)
  next
    case succ
    have "hits window h k ?W = 0" using old succ(2) by (intro hits_zero) (meson order.strict_trans1)
    moreover have "prev_hits window h k ?W = hits window h k ?i"
      using succ by (auto simp: prev_hits_def)
    ultimately show ?thesis
      using succ cur old' by (auto simp: counter_ok_def hits_snoc prev_hits_snoc)
  next
    case skip
    have "hits window h k ?W = 0" using old skip(2) by (intro hits_zero) (meson order.strict_trans1)
    moreover have "?i < ?W - 1" using skip(1,2) by (rule word_less_pred)
    then have "prev_hits window h k ?W = 0"
      using old by (auto simp: prev_hits_def intro!: hits_zero dest: order.strict_trans1)
    ultimately show ?thesis
      using skip old' by (auto simp: counter_ok_def hits_snoc prev_hits_snoc)
  qed
qed

text \<open>The state of a limiter after a history of checks.\<close>

definition limiter_counts :: "sliding_window_limiter \<Rightarrow> (bytes \<times> u64) list \<Rightarrow> bool" where
  "limiter_counts sl h \<longleftrightarrow>
     fst ` set (sl_counters sl) = fst ` set h \<and>
     (\<forall>k c. hm_get (sl_counters sl) k = Some c \<longrightarrow>
        counter_ok (sl_window_ms sl) h k c \<and> (\<exists>t. (k, t) \<in> set h \<and> wc_window_index c = t div sl_window_ms sl))"

text \<open>Histories in which the clock does not go back and the window index does not wrap.\<close>

definition clean_history :: "u64 \<Rightarrow> (bytes \<times> u64) list \<Rightarrow> bool" where
  "clean_history window h \<longleftrightarrow>
     sorted (map snd h) \<and> (\<forall>(k, t) \<in> set h. t div window \<noteq> - 1) \<and> length h < 2 ^ 64"

lemma counter_ok_other: "counter_ok window h k c \<Longrightarrow> k' \<noteq> k \<Longrightarrow> counter_ok window (h @ [(k', t)]) k c"
  by (auto simp: counter_ok_def hits_snoc prev_hits_def)

lemma counter_ok_fresh:
  "k \<notin> fst ` set h \<Longrightarrow> counter_ok window h k \<lparr>wc_window_index = W, wc_current = 0, wc_previous = 0\<rparr>"
  by (force simp: counter_ok_def hits_def prev_hits_def filter_empty_conv)

lemma word_div_mono: "(a :: u64) \<le> b \<Longrightarrow> a div w \<le> b div w"
  by (simp add: word_le_nat_alt unat_div div_le_mono)

definition next_counter :: "u64 \<Rightarrow> u64 \<Rightarrow> window_counter option \<Rightarrow> window_counter" where
  "next_counter window now c =
     (let c = roll_window (now div window)
        (case c of Some c \<Rightarrow> c | None \<Rightarrow> \<lparr>wc_window_index = now div window, wc_current = 0, wc_previous = 0\<rparr>)
      in c\<lparr>wc_current := wc_current c + 1\<rparr>)"

lemma limiter_check_next:
  "limiter_check ord sl key now =
     (let counters = hm_evict ord (sl_max_keys sl) key (sl_counters sl);
          counter = next_counter (sl_window_ms sl) now (hm_get counters key)
      in (if f64_le (window_estimate (sl_window_ms sl) now counter) (f64_of_u64 (sl_limit sl)) then Allow else Deny,
          sl\<lparr>sl_counters := hm_insert key counter counters\<rparr>))"
  by (simp add: limiter_check_def next_counter_def Let_def)

lemma next_counter_ok:
  assumes "limiter_counts sl h" and "clean_history (sl_window_ms sl) (h @ [(k, t)])"
  shows "counter_ok (sl_window_ms sl) (h @ [(k, t)]) k (next_counter (sl_window_ms sl) t (hm_get (sl_counters sl) k))"
    and "wc_window_index (next_counter (sl_window_ms sl) t (hm_get (sl_counters sl) k)) = t div sl_window_ms sl"
proof -
  let ?w = "sl_window_ms sl"
  let ?fresh = "\<lparr>wc_window_index = t div ?w, wc_current = 0, wc_previous = 0\<rparr>"
  define c where "c = (case hm_get (sl_counters sl) k of Some c \<Rightarrow> c | None \<Rightarrow> ?fresh)"
  have W: "t div ?w \<noteq> - 1" and len: "Suc (length h) < 2 ^ 64"
    using assms(2) by (auto simp: clean_history_def)
  have past: "t' \<le> t" if "(k', t') \<in> set h" for k' t'
    using that assms(2) by (force simp: clean_history_def sorted_append)
  have "counter_ok ?w h k c \<and> wc_window_index c \<le> t div ?w"
  proof (cases "hm_get (sl_counters sl) k")
    case None
    then have "k \<notin> fst ` set h" using assms(1) by (simp add: limiter_counts_def map_of_eq_None_iff)
    with None show ?thesis by (simp add: c_def counter_ok_fresh)
  next
    case (Some c')
    then obtain t' where "(k, t') \<in> set h" "wc_window_index c' = t' div ?w" "counter_ok ?w h k c'"
      using assms(1) unfolding limiter_counts_def by blast
    with Some past show ?thesis by (auto simp: c_def intro: word_div_mono)
  qed
  then have c: "counter_ok ?w h k c" "wc_window_index c \<le> t div ?w" by auto
  have n: "next_counter ?w t (hm_get (sl_counters sl) k) =
      (roll_window (t div ?w) c)\<lparr>wc_current := wc_current (roll_window (t div ?w) c) + 1\<rparr>"
    by (simp add: next_counter_def c_def Let_def)
  show "counter_ok ?w (h @ [(k, t)]) k (next_counter ?w t (hm_get (sl_counters sl) k))"
    unfolding n using c W len by (rule counter_step)
  show "wc_window_index (next_counter ?w t (hm_get (sl_counters sl) k)) = t div ?w"
    unfolding n using c(2) W by (cases rule: roll_window_cases) auto
qed

lemma limiter_counts_step:
  assumes "sl_inv sl" and "limiter_counts sl h" and "clean_history (sl_window_ms sl) (h @ [(k, t)])"
    and "card (fst ` set (h @ [(k, t)])) \<le> sl_max_keys sl"
  shows "limiter_counts (snd (limiter_check ord sl k t)) (h @ [(k, t)])"
    and "hm_evict ord (sl_max_keys sl) k (sl_counters sl) = sl_counters sl"
proof -
  have wf: "hm_wf (sl_counters sl)" using assms(1) by (simp add: sl_inv_def)
  show ev: "hm_evict ord (sl_max_keys sl) k (sl_counters sl) = sl_counters sl"
  proof (cases "hm_get (sl_counters sl) k")
    case None
    then have "k \<notin> fst ` set h" using assms(2) by (simp add: limiter_counts_def map_of_eq_None_iff)
    then have "card (fst ` set h) < sl_max_keys sl" using assms(4) by simp
    moreover have "length (sl_counters sl) = card (fst ` set (sl_counters sl))"
      using distinct_card [OF wf] by simp
    ultimately show ?thesis using assms(2) by (intro hm_evict_room) (simp add: limiter_counts_def)
  qed (rule hm_evict_present)
  note next_ok = next_counter_ok [OF assms(2,3)]
  have "fst ` set (hm_insert k c (sl_counters sl)) = fst ` set (h @ [(k, t)])" for c
    using arg_cong [OF map_fst_hm_insert [of k c "sl_counters sl"], of set] assms(2)
    by (auto simp: limiter_counts_def split: if_splits)
  with assms(2) next_ok show "limiter_counts (snd (limiter_check ord sl k t)) (h @ [(k, t)])"
    unfolding limiter_counts_def limiter_check_sel
    by (auto simp: limiter_check_next ev Let_def map_simps counter_ok_other split: if_splits
        simp del: map_of_eq_Some_iff)
qed

lemma clean_history_prefix: "clean_history window (h @ g) \<Longrightarrow> clean_history window h"
  by (auto simp: clean_history_def sorted_append)

lemma limiter_counts_exec:
  assumes "iteration_order ord" and "sl_inv sl" and "sl_counters sl = []"
    and "clean_history (sl_window_ms sl) h" and "card (fst ` set h) \<le> sl_max_keys sl"
  shows "limiter_counts (limiter_exec ord sl h) h"
  using assms(4,5)
proof (induction h rule: rev_induct)
  case Nil
  then show ?case using assms(3) by (simp add: limiter_counts_def)
next
  case (snoc e h)
  obtain k t where e: "e = (k, t)" by force
  have "card (fst ` set h) \<le> card (fst ` set (h @ [e]))" by (rule card_mono) auto
  then have "card (fst ` set h) \<le> sl_max_keys sl" using snoc.prems(2) by (rule order_trans)
  with clean_history_prefix [OF snoc.prems(1)] have "limiter_counts (limiter_exec ord sl h) h"
    by (rule snoc.IH)
  then show ?case
    using limiter_counts_step(1) [of "limiter_exec ord sl h" h k t ord] limiter_exec_inv [OF assms(1,2)]
      snoc.prems by (simp add: e)
qed

section \<open>Verdicts\<close>

lemma limiter_decision:
  "fst (limiter_check ord sl key now) =
     (if f64_le (window_estimate (sl_window_ms sl) now
          (next_counter (sl_window_ms sl) now (hm_get (hm_evict ord (sl_max_keys sl) key (sl_counters sl)) key)))
        (f64_of_u64 (sl_limit sl)) then Allow else Deny)"
  by (simp add: limiter_check_next Let_def)

lemma estimate_verdict:
  assumes "0 < window" and "unat (wc_current c) + unat (wc_previous c) \<le> 2 ^ 53" and "unat limit \<le> 2 ^ 53"
  shows "unat limit < unat (wc_current c) \<Longrightarrow> \<not> f64_le (window_estimate window now c) (f64_of_u64 limit)"
    and "unat (wc_current c) + unat (wc_previous c) \<le> unat limit \<Longrightarrow>
      f64_le (window_estimate window now c) (f64_of_u64 limit)"
    and "now mod window = 0 \<Longrightarrow> f64_le (window_estimate window now c) (f64_of_u64 limit) \<longleftrightarrow>
      unat (wc_current c) + unat (wc_previous c) \<le> unat limit"
proof -
  obtain e where e: "window_estimate window now c = Fin e"
    "rat_of_nat (unat (wc_current c)) \<le> e" "e \<le> rat_of_nat (unat (wc_current c) + unat (wc_previous c))"
    "now mod window = 0 \<Longrightarrow> e = rat_of_nat (unat (wc_current c) + unat (wc_previous c))"
    using window_estimate_range [OF assms(1,2)] by blast
  have le: "f64_le (window_estimate window now c) (f64_of_u64 limit) \<longleftrightarrow> e \<le> rat_of_nat (unat limit)"
    unfolding e(1) f64_of_small [OF assms(3)] by simp
  have cmp: "a \<le> b \<longleftrightarrow> rat_of_nat a \<le> rat_of_nat b" for a b by simp
  show "unat limit < unat (wc_current c) \<Longrightarrow> \<not> f64_le (window_estimate window now c) (f64_of_u64 limit)"
    unfolding le using e(2) cmp [of "unat (wc_current c)" "unat limit"] by (meson leD order_trans)
  show "unat (wc_current c) + unat (wc_previous c) \<le> unat limit \<Longrightarrow>
      f64_le (window_estimate window now c) (f64_of_u64 limit)"
    unfolding le using e(3) cmp by (meson order_trans)
  show "now mod window = 0 \<Longrightarrow> f64_le (window_estimate window now c) (f64_of_u64 limit) \<longleftrightarrow>
      unat (wc_current c) + unat (wc_previous c) \<le> unat limit"
    unfolding le using e(4) cmp by metis
qed

lemma prev_hits_le: "prev_hits window h k W \<le> length h"
  by (simp add: prev_hits_def hits_le)

lemma hits_prev_hits_le: "hits window h k W + prev_hits window h k W \<le> length h"
proof (cases "W = 0")
  case False
  have "hits window h k W + hits window h k (W - 1) \<le> length h"
    by (induction h) (auto simp: hits_def)
  with False show ?thesis by (simp add: prev_hits_def)
qed (simp add: prev_hits_def hits_le)

lemma history_verdict:
  assumes "iteration_order ord" and "limiter_with_capacity window limit cap = Inr sl"
    and "clean_history window (h @ [(k, t)])" and "card (fst ` set (h @ [(k, t)])) \<le> cap"
    and "length h < 2 ^ 53" and "unat limit \<le> 2 ^ 53"
  defines "n \<equiv> hits window (h @ [(k, t)]) k (t div window)"
    and "p \<equiv> prev_hits window (h @ [(k, t)]) k (t div window)"
    and "d \<equiv> fst (limiter_check ord (limiter_exec ord sl h) k t)"
  shows "unat limit < n \<Longrightarrow> d = Deny" and "n + p \<le> unat limit \<Longrightarrow> d = Allow"
    and "t mod window = 0 \<Longrightarrow> d = Allow \<longleftrightarrow> n + p \<le> unat limit"
proof -
  have sl: "sl_window_ms sl = window" "sl_limit sl = limit" "sl_max_keys sl = cap" "sl_counters sl = []"
    "0 < window" using assms(2) by (auto simp: limiter_with_capacity_def split: if_splits)
  have inv: "sl_inv sl" using assms(2) by (rule limiter_new_inv)
  let ?sl = "limiter_exec ord sl h"
  have "card (fst ` set h) \<le> card (fst ` set (h @ [(k, t)]))" by (rule card_mono) auto
  then have "limiter_counts ?sl h"
    using limiter_counts_exec [OF assms(1) inv sl(4), of h] clean_history_prefix [OF assms(3)] assms(4) sl
    by simp
  note cnt = next_counter_ok [OF this, of k t]
    and ev = limiter_counts_step(2) [OF limiter_exec_inv [OF assms(1) inv] this, of k t ord]
  define c where "c = next_counter window t (hm_get (sl_counters ?sl) k)"
  have c: "unat (wc_current c) = n" "unat (wc_previous c) = p"
    using cnt assms(3) sl unfolding counter_ok_def c_def n_def p_def by simp_all
  have d: "d = (if f64_le (window_estimate window t c) (f64_of_u64 limit) then Allow else Deny)"
    unfolding d_def limiter_decision using ev assms(3,4) sl by (simp add: c_def)
  have np: "n + p \<le> 2 ^ 53"
    using hits_prev_hits_le [of window "h @ [(k, t)]" k "t div window"] assms(5) unfolding n_def p_def by simp
  note v = estimate_verdict [OF sl(5), of c limit t, unfolded c, OF np assms(6)]
  show "unat limit < n \<Longrightarrow> d = Deny" "n + p \<le> unat limit \<Longrightarrow> d = Allow"
    "t mod window = 0 \<Longrightarrow> d = Allow \<longleftrightarrow> n + p \<le> unat limit"
    using v unfolding d by auto
qed

text \<open>Every rule records every request, and the first rule that denies names the verdict.\<close>

lemma evaluate_rules_recorded:
  "snd (evaluate_rules ord key now v rs) =
     map (\<lambda>r. r\<lparr>rule_limiter := snd (limiter_check ord (rule_limiter r) key now)\<rparr>) rs"
  by (induction rs arbitrary: v) (auto simp: Let_def split_def)

lemma evaluate_rules_kept: "v \<noteq> Verdict_Allow \<Longrightarrow> fst (evaluate_rules ord key now v rs) = v"
  by (induction rs arbitrary: v) (auto simp: Let_def split_def)

lemma evaluate_rules_first:
  "fst (evaluate_rules ord key now Verdict_Allow rs) =
     (case find (\<lambda>r. fst (limiter_check ord (rule_limiter r) key now) = Deny) rs of
        None \<Rightarrow> Verdict_Allow | Some r \<Rightarrow> Verdict_Deny (rule_name r) (rule_action r))"
  by (induction rs) (auto simp: Let_def split_def evaluate_rules_kept)

section \<open>Main properties\<close>



text \<open>C29. Bounded memory. However many distinct keys are checked, in whatever order and whatever key the
  eviction picks, a limiter never tracks more keys than its capacity.\<close>

theorem limiter_memory_bounded:
  assumes "iteration_order ord" and "limiter_with_capacity window limit cap = Inr sl"
  shows "tracked_keys (limiter_exec ord sl h) \<le> cap"
proof -
  have "sl_max_keys sl = cap" using assms(2) by (auto simp: limiter_with_capacity_def split: if_splits)
  then show ?thesis
    using limiter_exec_inv [OF assms(1) limiter_new_inv [OF assms(2)], of h] by (simp add: sl_inv_def)
qed

theorem limiter_memory_bounded_witness:
  "tracked_keys (limiter_exec (\<lambda>m. m) \<lparr>sl_window_ms = 10, sl_limit = 1, sl_max_keys = 1, sl_counters = []\<rparr>
     [([97], 3), ([98], 4), ([99], 5)]) \<le> 1"
  by (rule limiter_memory_bounded [where window = 10 and limit = 1])
    (simp_all add: iteration_order_def limiter_with_capacity_def)

text \<open>The verdict of a rule set is the first rule that denies, and every rule records the hit, also the
  rules after the one that denied.\<close>

theorem ruleset_first_denial:
  "ruleset_evaluate ord rs key now =
     (case find (\<lambda>r. fst (limiter_check ord (rule_limiter r) key now) = Deny) (rules rs) of
        None \<Rightarrow> Verdict_Allow | Some r \<Rightarrow> Verdict_Deny (rule_name r) (rule_action r),
      rs\<lparr>rules := map (\<lambda>r. r\<lparr>rule_limiter := snd (limiter_check ord (rule_limiter r) key now)\<rparr>) (rules rs)\<rparr>)"
  using evaluate_rules_first [of ord key now "rules rs"] evaluate_rules_recorded [of ord key now Verdict_Allow "rules rs"]
  by (simp add: ruleset_evaluate_def split_def)

end
