(* ===== verification/Onced_Sketch.thy ===== *)
theory Onced_Sketch
  imports Onced_F64
begin

text \<open>
  \<^verbatim>\<open>onced-core/src/sketch.rs\<close> and \<^verbatim>\<open>onced-core/src/hll.rs\<close>: the Count-Min sketch and the
  HyperLogLog counter. The algorithm of \<open>DefaultHasher\<close> is left open by its documentation,
  so the hash of a key is the argument \<open>hash\<close>, and the natural logarithm of the platform
  is the argument \<open>ln_f64\<close>. The lemmas give each cell and each register as a function of what
  was recorded: a Count-Min estimate is never too small, and a HyperLogLog sketch
  depends only on the set of its keys.
\<close>

section \<open>Count-Min\<close>

record count_min_sketch =
  cm_depth :: nat
  cm_width :: nat
  cm_counters :: "u64 list"

datatype sketch_panic = ZeroDimension | BadPrecision | SketchCapacity | SketchIndex

text \<open>Products and sums of \<open>usize\<close> wrap in a release build; \<open>vec!\<close> panics when its bytes exceed \<open>isize::MAX\<close>, and an
  index outside the vector panics.\<close>

definition cm_new :: "nat \<Rightarrow> nat \<Rightarrow> sketch_panic + count_min_sketch" where
  "cm_new depth width =
     (if 0 < depth \<and> 0 < width
      then let n = depth * width mod 2 ^ 64
           in if 2 ^ 63 \<le> 8 * n then Inl SketchCapacity
              else Inr \<lparr>cm_depth = depth, cm_width = width, cm_counters = replicate n 0\<rparr>
      else Inl ZeroDimension)"

definition cm_column :: "(nat \<Rightarrow> bytes \<Rightarrow> u64) \<Rightarrow> count_min_sketch \<Rightarrow> nat \<Rightarrow> bytes \<Rightarrow> nat" where
  "cm_column hash s row key = unat (hash row key mod of_nat (cm_width s))"

definition cm_add_row ::
    "(nat \<Rightarrow> bytes \<Rightarrow> u64) \<Rightarrow> bytes \<Rightarrow> u64 \<Rightarrow> nat \<Rightarrow> count_min_sketch \<Rightarrow> sketch_panic + count_min_sketch" where
  "cm_add_row hash key cnt row s =
     (let i = (row * cm_width s + cm_column hash s row key) mod 2 ^ 64
      in if i < length (cm_counters s)
         then Inr (s\<lparr>cm_counters := (cm_counters s)[i := saturating_add (cm_counters s ! i) cnt]\<rparr>)
         else Inl SketchIndex)"

definition cm_add ::
    "(nat \<Rightarrow> bytes \<Rightarrow> u64) \<Rightarrow> count_min_sketch \<Rightarrow> bytes \<Rightarrow> u64 \<Rightarrow> sketch_panic + count_min_sketch" where
  "cm_add hash s key cnt =
     fold (\<lambda>row r. case r of Inl p \<Rightarrow> Inl p | Inr s \<Rightarrow> cm_add_row hash key cnt row s) [0..<cm_depth s] (Inr s)"

definition cm_cell :: "(nat \<Rightarrow> bytes \<Rightarrow> u64) \<Rightarrow> count_min_sketch \<Rightarrow> bytes \<Rightarrow> nat \<Rightarrow> sketch_panic + u64" where
  "cm_cell hash s key row =
     (let i = (row * cm_width s + cm_column hash s row key) mod 2 ^ 64
      in if i < length (cm_counters s) then Inr (cm_counters s ! i) else Inl SketchIndex)"

fun cm_cells :: "(nat \<Rightarrow> bytes \<Rightarrow> u64) \<Rightarrow> count_min_sketch \<Rightarrow> bytes \<Rightarrow> nat list \<Rightarrow> sketch_panic + u64 list" where
  "cm_cells hash s key [] = Inr []"
| "cm_cells hash s key (row # rows) =
     (case cm_cell hash s key row of
        Inl p \<Rightarrow> Inl p
      | Inr c \<Rightarrow> (case cm_cells hash s key rows of Inl p \<Rightarrow> Inl p | Inr cs \<Rightarrow> Inr (c # cs)))"

definition cm_estimate :: "(nat \<Rightarrow> bytes \<Rightarrow> u64) \<Rightarrow> count_min_sketch \<Rightarrow> bytes \<Rightarrow> sketch_panic + u64" where
  "cm_estimate hash s key =
     (case cm_cells hash s key [0..<cm_depth s] of
        Inl p \<Rightarrow> Inl p
      | Inr [] \<Rightarrow> Inr 0
      | Inr (c # cs) \<Rightarrow> Inr (fold min cs c))"

section \<open>HyperLogLog\<close>

record hyper_log_log =
  hll_precision :: nat
  hll_registers :: "u8 list"

definition hll_new :: "u8 \<Rightarrow> sketch_panic + hyper_log_log" where
  "hll_new precision =
     (if 4 \<le> precision \<and> precision \<le> 16
      then Inr \<lparr>hll_precision = unat precision, hll_registers = replicate (2 ^ unat precision) 0\<rparr>
      else Inl BadPrecision)"

definition hll_index :: "nat \<Rightarrow> u64 \<Rightarrow> nat" where
  "hll_index p h = unat (drop_bit (64 - p) h)"

definition hll_rank :: "nat \<Rightarrow> u64 \<Rightarrow> u8" where
  "hll_rank p h =
     (let suffix = push_bit p h OR push_bit (p - 1) 1 in of_nat (leading_zeros suffix) + 1)"

definition hll_add :: "(bytes \<Rightarrow> u64) \<Rightarrow> hyper_log_log \<Rightarrow> bytes \<Rightarrow> hyper_log_log" where
  "hll_add hash s key =
     (let h = hash key;
          p = hll_precision s;
          index = hll_index p h;
          rank = hll_rank p h
      in if hll_registers s ! index < rank then s\<lparr>hll_registers := (hll_registers s)[index := rank]\<rparr>
         else s)"

definition hll_alpha :: "nat \<Rightarrow> f64" where
  "hll_alpha m =
     (if m = 16 then f64_round (673 / 1000)
      else if m = 32 then f64_round (697 / 1000)
      else if m = 64 then f64_round (709 / 1000)
      else f64_div (f64_round (7213 / 10000))
             (f64_add (Fin 1) (f64_div (f64_round (1079 / 1000)) (f64_of_usize m))))"

definition hll_harmonic :: "u8 list \<Rightarrow> f64" where
  "hll_harmonic registers = fold (\<lambda>r acc. f64_add acc (Fin (1 / 2 ^ unat r))) registers (Fin 0)"

definition hll_raw :: "u8 list \<Rightarrow> f64" where
  "hll_raw registers =
     (let m = f64_of_usize (length registers)
      in f64_div (f64_mul (f64_mul (hll_alpha (length registers)) m) m) (hll_harmonic registers))"

definition hll_estimate :: "(f64 \<Rightarrow> f64) \<Rightarrow> hyper_log_log \<Rightarrow> f64" where
  "hll_estimate ln_f64 s =
     (let m = f64_of_usize (length (hll_registers s));
          raw = hll_raw (hll_registers s);
          zeros = length (filter (\<lambda>r. r = 0) (hll_registers s))
      in if f64_le raw (f64_mul (Fin (5 / 2)) m) \<and> 0 < zeros
         then f64_mul m (ln_f64 (f64_div m (f64_of_usize zeros)))
         else raw)"

section \<open>Count-Min cells\<close>

text \<open>What a cell holds: the saturated sum of the counts whose key maps to it.\<close>

definition cell_sum :: "(nat \<Rightarrow> bytes \<Rightarrow> u64) \<Rightarrow> nat \<Rightarrow> (bytes \<times> u64) list \<Rightarrow> nat \<Rightarrow> nat \<Rightarrow> nat" where
  "cell_sum hash width h row col =
     sum_list (map (\<lambda>(k, c). if unat (hash row k mod of_nat width) = col then unat c else 0) h)"

definition key_sum :: "(bytes \<times> u64) list \<Rightarrow> bytes \<Rightarrow> nat" where
  "key_sum h key = sum_list (map (\<lambda>(k, c). if k = key then unat c else 0) h)"

definition total_sum :: "(bytes \<times> u64) list \<Rightarrow> nat" where
  "total_sum h = sum_list (map (\<lambda>(k, c). unat c) h)"

text \<open>A table with as many cells as its dimensions say, without wrap-around.\<close>

definition cm_dims :: "count_min_sketch \<Rightarrow> bool" where
  "cm_dims s \<longleftrightarrow> 0 < cm_depth s \<and> 0 < cm_width s \<and> cm_depth s * cm_width s < 2 ^ 64 \<and>
     length (cm_counters s) = cm_depth s * cm_width s"

definition cm_inv :: "(nat \<Rightarrow> bytes \<Rightarrow> u64) \<Rightarrow> count_min_sketch \<Rightarrow> (bytes \<times> u64) list \<Rightarrow> bool" where
  "cm_inv hash s h \<longleftrightarrow> cm_dims s \<and>
     (\<forall>row < cm_depth s. \<forall>col < cm_width s.
        unat (cm_counters s ! (row * cm_width s + col)) = min (2 ^ 64 - 1) (cell_sum hash (cm_width s) h row col))"

lemma cm_column_less:
  assumes "0 < cm_width s" and "cm_width s < 2 ^ 64"
  shows "cm_column hash s row key < cm_width s"
proof -
  have w: "unat (of_nat (cm_width s) :: u64) = cm_width s"
    using assms(2) by (simp add: unat_of_nat take_bit_nat_eq_self)
  then show ?thesis using assms(1) by (simp add: cm_column_def unat_mod)
qed

lemma cell_index_less: "row < d \<Longrightarrow> col < (w :: nat) \<Longrightarrow> row * w + col < d * w"
proof -
  assume "row < d" "col < w"
  then have "row * w + col < Suc row * w" by simp
  also have "\<dots> \<le> d * w" using \<open>row < d\<close> by (intro mult_le_mono1) simp
  finally show ?thesis .
qed

lemma cell_index_inject:
  "col < (w :: nat) \<Longrightarrow> col' < w \<Longrightarrow> row * w + col = row' * w + col' \<longleftrightarrow> row = row' \<and> col = col'"
  by (metis add.commute add_left_imp_eq div_mult_self3 div_less less_nat_zero_code mult.commute add_0)

text \<open>The update of one row when its index is in range.\<close>

definition cm_bump :: "(nat \<Rightarrow> bytes \<Rightarrow> u64) \<Rightarrow> bytes \<Rightarrow> u64 \<Rightarrow> nat \<Rightarrow> count_min_sketch \<Rightarrow> count_min_sketch" where
  "cm_bump hash key cnt row s =
     (let i = row * cm_width s + cm_column hash s row key
      in s\<lparr>cm_counters := (cm_counters s)[i := saturating_add (cm_counters s ! i) cnt]\<rparr>)"

lemma cm_bump_sel [simp]:
  "cm_depth (cm_bump hash key c row s) = cm_depth s" "cm_width (cm_bump hash key c row s) = cm_width s"
  "length (cm_counters (cm_bump hash key c row s)) = length (cm_counters s)"
  "cm_column hash (cm_bump hash key c row s) r k = cm_column hash s r k"
  by (simp_all add: cm_bump_def cm_column_def Let_def)

lemma cm_fold_sel [simp]:
  "cm_depth (fold (cm_bump hash key c) rows s) = cm_depth s"
  "cm_width (fold (cm_bump hash key c) rows s) = cm_width s"
  "length (cm_counters (fold (cm_bump hash key c) rows s)) = length (cm_counters s)"
  "cm_column hash (fold (cm_bump hash key c) rows s) r k = cm_column hash s r k"
  by (induction rows arbitrary: s) simp_all

lemma cm_dims_width:
  assumes "cm_dims s"
  shows "cm_width s < 2 ^ 64"
proof -
  have "cm_width s \<le> cm_depth s * cm_width s" using assms by (simp add: cm_dims_def)
  then show ?thesis using assms unfolding cm_dims_def by linarith
qed

lemma cm_index:
  assumes "cm_dims s" and "row < cm_depth s"
  shows "(row * cm_width s + cm_column hash s row key) mod 2 ^ 64 = row * cm_width s + cm_column hash s row key"
    and "row * cm_width s + cm_column hash s row key < length (cm_counters s)"
proof -
  have "cm_column hash s row key < cm_width s"
    using assms(1) cm_dims_width [OF assms(1)] by (intro cm_column_less) (auto simp: cm_dims_def)
  from cell_index_less [OF assms(2) this]
  have i: "row * cm_width s + cm_column hash s row key < cm_depth s * cm_width s" .
  then show "row * cm_width s + cm_column hash s row key < length (cm_counters s)" using assms(1) by (simp add: cm_dims_def)
  show "(row * cm_width s + cm_column hash s row key) mod 2 ^ 64 = row * cm_width s + cm_column hash s row key"
    by (rule mod_less) (use i assms(1) in \<open>unfold cm_dims_def, linarith\<close>)
qed

lemma cm_dims_fold [simp]: "cm_dims (fold (cm_bump hash key c) rows s) = cm_dims s"
  by (simp add: cm_dims_def)

text \<open>Then no operation panics.\<close>

lemma cm_add_row_ok:
  assumes "cm_dims s" and "row < cm_depth s"
  shows "cm_add_row hash key c row s = Inr (cm_bump hash key c row s)"
  using cm_index [OF assms, of hash key] by (simp only: cm_add_row_def cm_bump_def Let_def if_True)

lemma cm_add_ok:
  assumes "cm_dims s"
  shows "cm_add hash s key c = Inr (fold (cm_bump hash key c) [0..<cm_depth s] s)"
proof -
  let ?f = "\<lambda>row r. case r of Inl p \<Rightarrow> Inl p | Inr s \<Rightarrow> cm_add_row hash key c row s"
  have "n \<le> cm_depth s \<Longrightarrow> fold ?f [0..<n] (Inr s) = Inr (fold (cm_bump hash key c) [0..<n] s)" for n
    by (induction n) (simp_all add: cm_add_row_ok assms)
  then show ?thesis unfolding cm_add_def by simp
qed

lemma cm_cells_ok:
  assumes "cm_dims s" and "\<forall>row \<in> set rows. row < cm_depth s"
  shows "cm_cells hash s key rows = Inr (map (\<lambda>row. cm_counters s ! (row * cm_width s + cm_column hash s row key)) rows)"
  using assms(2) by (induction rows) (simp_all add: cm_cell_def Let_def cm_index(2) [OF assms(1)] cm_index(1) [OF assms(1), simplified])

lemma cm_add_rows:
  assumes "cm_dims s" and "row < cm_depth s" "col < cm_width s"
  shows "n \<le> cm_depth s \<Longrightarrow>
    cm_counters (fold (cm_bump hash key c) [0..<n] s) ! (row * cm_width s + col) =
        (if row < n \<and> col = cm_column hash s row key
         then saturating_add (cm_counters s ! (row * cm_width s + col)) c
         else cm_counters s ! (row * cm_width s + col))"
proof (induction n)
  case 0
  then show ?case by simp
next
  case (Suc n)
  let ?s = "fold (cm_bump hash key c) [0..<n] s" and ?j = "row * cm_width s + col"
  let ?i = "n * cm_width s + cm_column hash s n key"
  have "cm_column hash s n key < cm_width s" using assms(1) cm_dims_width [OF assms(1)] by (intro cm_column_less) (auto simp: cm_dims_def)
  then have ij: "?i = ?j \<longleftrightarrow> n = row \<and> cm_column hash s n key = col"
    using assms(3) by (rule cell_index_inject)
  have j: "?j < length (cm_counters ?s)" using assms by (simp add: cm_dims_def cell_index_less)
  have "cm_counters (cm_bump hash key c n ?s) ! ?j =
      (if ?i = ?j then saturating_add (cm_counters ?s ! ?j) c else cm_counters ?s ! ?j)"
    using j by (auto simp: cm_bump_def Let_def)
  then show ?case using Suc ij by (auto simp: less_Suc_eq)
qed

lemma cell_sum_Cons:
  "cell_sum hash w (h @ [(k, c)]) row col =
     cell_sum hash w h row col + (if unat (hash row k mod of_nat w) = col then unat c else 0)"
  by (simp add: cell_sum_def)

lemma cm_add_inv:
  assumes "cm_inv hash s h"
  obtains s' where "cm_add hash s key c = Inr s'" and "cm_inv hash s' (h @ [(key, c)])"
proof -
  let ?s = "fold (cm_bump hash key c) [0..<cm_depth s] s"
  have s: "cm_dims s" using assms by (simp add: cm_inv_def)
  have "unat (cm_counters ?s ! (row * cm_width s + col)) =
      min (2 ^ 64 - 1) (cell_sum hash (cm_width s) (h @ [(key, c)]) row col)"
    if "row < cm_depth s" "col < cm_width s" for row col
    using that assms cm_add_rows [OF s that order_refl, of hash key c]
    by (auto simp: cm_inv_def cell_sum_Cons unat_saturating_add cm_column_def)
  then have "cm_inv hash ?s (h @ [(key, c)])" using s by (simp add: cm_inv_def)
  with cm_add_ok [OF s] show thesis by (rule that)
qed

lemma cm_new_inv:
  assumes "cm_new depth width = Inr s" and "depth * width < 2 ^ 64"
  shows "cm_inv hash s []"
proof -
  have "(replicate (depth * width) (0 :: u64)) ! (row * width + col) = 0" if "row < depth" "col < width" for row col
    using cell_index_less [OF that] by simp
  with assms show ?thesis
    by (auto simp: cm_new_def cm_inv_def cm_dims_def cell_sum_def Let_def split: if_splits)
qed

lemma key_sum_le_cell: "key_sum h key \<le> cell_sum hash w h row (unat (hash row key mod of_nat w))"
  unfolding key_sum_def cell_sum_def by (induction h) auto

lemma cell_sum_le_total: "cell_sum hash w h row col \<le> total_sum h"
  unfolding total_sum_def cell_sum_def by (induction h) auto

lemma fold_min_mem: "fold min xs (a :: 'a::linorder) \<in> insert a (set xs)"
  by (metis List.finite_set Min_in finite.insertI insert_not_empty Min.set_eq_fold list.set(2))

lemma cm_estimate_mem:
  assumes "cm_dims s"
  obtains row where "row < cm_depth s"
    "cm_estimate hash s key = Inr (cm_counters s ! (row * cm_width s + cm_column hash s row key))"
proof -
  let ?f = "\<lambda>row. cm_counters s ! (row * cm_width s + cm_column hash s row key)"
  have cells: "cm_cells hash s key [0..<cm_depth s] = Inr (map ?f [0..<cm_depth s])" by (rule cm_cells_ok [OF assms]) simp
  have "map ?f [0..<cm_depth s] \<noteq> []" using assms by (simp add: cm_dims_def)
  then obtain c cs where cs: "map ?f [0..<cm_depth s] = c # cs" by (cases "map ?f [0..<cm_depth s]") auto
  have "cm_estimate hash s key = Inr (fold min cs c)" unfolding cm_estimate_def cells cs by simp
  moreover have "fold min cs c \<in> set (map ?f [0..<cm_depth s])" unfolding cs using fold_min_mem [of cs c] by simp
  ultimately show thesis using that by auto
qed

text \<open>The estimate of a key is at least its count, and at most everything recorded.\<close>

lemma cm_estimate_bounds:
  assumes "cm_inv hash s h"
  obtains v where "cm_estimate hash s key = Inr v" and "min (2 ^ 64 - 1) (key_sum h key) \<le> unat v" and "unat v \<le> total_sum h"
proof -
  have s: "cm_dims s" using assms by (simp add: cm_inv_def)
  obtain row where row: "row < cm_depth s"
      "cm_estimate hash s key = Inr (cm_counters s ! (row * cm_width s + cm_column hash s row key))"
    by (rule cm_estimate_mem [OF s])
  have "cm_column hash s row key < cm_width s"
    using s cm_dims_width [OF s] by (intro cm_column_less) (auto simp: cm_dims_def)
  then have "unat (cm_counters s ! (row * cm_width s + cm_column hash s row key)) =
      min (2 ^ 64 - 1) (cell_sum hash (cm_width s) h row (cm_column hash s row key))"
    using assms row(1) unfolding cm_inv_def by metis
  then show thesis
    using that [OF row(2)] key_sum_le_cell [of h key hash "cm_width s" row]
      cell_sum_le_total [of hash "cm_width s" h row] by (auto simp: cm_column_def min.coboundedI2 intro: min.mono)
qed

section \<open>HyperLogLog registers\<close>

definition hll_inv :: "hyper_log_log \<Rightarrow> bool" where
  "hll_inv s \<longleftrightarrow> 4 \<le> hll_precision s \<and> hll_precision s \<le> 16 \<and>
     length (hll_registers s) = 2 ^ hll_precision s"

lemma hll_index_less:
  assumes "p \<le> 64"
  shows "hll_index p h < 2 ^ p"
proof -
  have "unat h < 2 ^ 64" using unsigned_less [of h] by simp
  also have "(2 :: nat) ^ 64 = 2 ^ p * 2 ^ (64 - p)" using assms by (simp flip: power_add)
  finally have "drop_bit (64 - p) (unat h) < 2 ^ p"
    unfolding drop_bit_eq_div by (rule less_mult_imp_div_less)
  then show ?thesis by (simp only: hll_index_def unat_drop_bit_eq)
qed

lemma hll_rank_bounds:
  assumes "1 \<le> p" and "p \<le> 64"
  shows "1 \<le> unat (hll_rank p h)" and "unat (hll_rank p h) \<le> 65 - p"
proof -
  let ?s = "push_bit p h OR push_bit (p - 1) (1 :: u64)"
  have "p - Suc 0 < 64" using assms by arith
  then have "bit ?s (p - 1)" by (simp add: bit_simps)
  then have l: "leading_zeros ?s \<le> 64 - p" using leading_zeros_bound [of ?s "p - 1"] assms by simp
  then have u: "unat (of_nat (leading_zeros ?s) :: u8) = leading_zeros ?s"
    using assms by (simp add: unat_of_nat take_bit_nat_eq_self)
  have "(of_nat (leading_zeros ?s) :: u8) \<noteq> - 1"
    using u l unat_minus_one [where 'a = 8] assms by auto
  from unat_plus_one [OF this] have "unat (hll_rank p h) = Suc (leading_zeros ?s)"
    unfolding hll_rank_def Let_def u .
  with l assms show "1 \<le> unat (hll_rank p h)" "unat (hll_rank p h) \<le> 65 - p" by simp_all
qed

lemma hll_add_sel [simp]:
  "hll_precision (hll_add hash s key) = hll_precision s"
  "length (hll_registers (hll_add hash s key)) = length (hll_registers s)"
  by (simp_all add: hll_add_def Let_def)

lemma hll_add_inv: "hll_inv s \<Longrightarrow> hll_inv (hll_add hash s key)"
  by (simp add: hll_inv_def)

lemma hll_new_inv: "hll_new p = Inr s \<Longrightarrow> hll_inv s"
  by (auto simp: hll_new_def hll_inv_def word_le_nat_alt split: if_splits)

lemma hll_add_nth:
  assumes "hll_inv s" and "i < length (hll_registers s)"
  shows "hll_registers (hll_add hash s key) ! i =
    (if hll_index (hll_precision s) (hash key) = i
     then max (hll_registers s ! i) (hll_rank (hll_precision s) (hash key)) else hll_registers s ! i)"
  using assms by (auto simp: hll_add_def Let_def nth_list_update max_def)

text \<open>The register of an index: the largest rank among the keys that map to it.\<close>

definition hll_register :: "(bytes \<Rightarrow> u64) \<Rightarrow> nat \<Rightarrow> bytes set \<Rightarrow> nat \<Rightarrow> u8" where
  "hll_register hash p K i = Max (insert 0 ((\<lambda>k. hll_rank p (hash k)) ` {k \<in> K. hll_index p (hash k) = i}))"

lemma hll_register_insert:
  assumes "finite K"
  shows "hll_register hash p (insert key K) i =
    (if hll_index p (hash key) = i then max (hll_register hash p K i) (hll_rank p (hash key))
     else hll_register hash p K i)"
proof -
  let ?S = "insert 0 ((\<lambda>k. hll_rank p (hash k)) ` {k \<in> K. hll_index p (hash k) = i})"
  have "{k \<in> insert key K. hll_index p (hash k) = i} =
      (if hll_index p (hash key) = i then insert key {k \<in> K. hll_index p (hash k) = i}
       else {k \<in> K. hll_index p (hash k) = i})" by auto
  moreover have "Max (insert (hll_rank p (hash key)) ?S) = max (hll_rank p (hash key)) (Max ?S)"
    using assms by (intro Max_insert) auto
  ultimately show ?thesis
    by (simp add: hll_register_def insert_commute max.commute)
qed

lemma hll_fold_register:
  assumes "hll_inv s" and "i < length (hll_registers s)" and "finite K"
    and "hll_registers s ! i = hll_register hash (hll_precision s) K i"
  shows "hll_registers (fold (\<lambda>k s. hll_add hash s k) ks s) ! i =
    hll_register hash (hll_precision s) (K \<union> set ks) i"
  using assms
proof (induction ks arbitrary: s K)
  case Nil
  then show ?case by simp
next
  case (Cons k ks)
  show ?case
    using Cons.IH [of "hll_add hash s k" "insert k K"] Cons.prems
    by (simp add: hll_add_inv hll_add_nth hll_register_insert)
qed

lemma hll_fold_sel [simp]:
  "hll_precision (fold (\<lambda>k s. hll_add hash s k) ks s) = hll_precision s"
  "length (hll_registers (fold (\<lambda>k s. hll_add hash s k) ks s)) = length (hll_registers s)"
  by (induction ks arbitrary: s) simp_all

lemma hll_keys:
  assumes "hll_new p = Inr s"
  shows "hll_registers (fold (\<lambda>k s. hll_add hash s k) ks s) =
    map (hll_register hash (unat p) (set ks)) [0..<2 ^ unat p]"
proof -
  have s: "hll_inv s" "hll_precision s = unat p" "hll_registers s = replicate (2 ^ unat p) 0"
    using assms by (auto simp: hll_new_inv hll_new_def split: if_splits)
  show ?thesis
  proof (rule nth_equalityI)
    fix i assume "i < length (hll_registers (fold (\<lambda>k s. hll_add hash s k) ks s))"
    then have i: "i < 2 ^ unat p" using s by simp
    have "hll_registers s ! i = hll_register hash (unat p) {} i"
      using s i by (simp add: hll_register_def)
    then show "hll_registers (fold (\<lambda>k s. hll_add hash s k) ks s) ! i =
        map (hll_register hash (unat p) (set ks)) [0..<2 ^ unat p] ! i"
      using hll_fold_register [of s i "{}" hash ks] s i by simp
  qed (simp add: s)
qed

section \<open>The empty sketch\<close>

lemma hll_alpha_large:
  assumes "0 < m" and "m \<le> 2 ^ 16"
  obtains a where "f64_div (f64_round (7213 / 10000))
      (f64_add (Fin 1) (f64_div (f64_round (1079 / 1000)) (f64_of_usize m))) = Fin a" "0 \<le> a" "a \<le> 1"
proof -
  have m: "f64_of_usize m = Fin (of_nat m)" using assms(2) by (intro f64_of_usize_small) simp
  obtain n where n: "f64_round (7213 / 10000) = Fin n" "0 \<le> n" "n \<le> 1"
    by (rule f64_round_unit [of "7213 / 10000"]) simp_all
  let ?d = "1079 / 1000 :: rat"
  have "round53 ?d \<le> 2" using round53_le_nat [of ?d 2] by simp
  have d: "f64_round ?d = Fin (round53 ?d)" by (rule f64_round_fin) simp_all
  let ?q = "round53 ?d / of_nat m"
  have q: "0 \<le> ?q" "?q \<le> 2"
    using \<open>round53 ?d \<le> 2\<close> round53_nonneg [of ?d] assms(1) by (simp_all add: divide_le_eq)
  have rq: "0 \<le> round53 ?q" "round53 ?q \<le> 2"
    using q round53_nonneg [of ?q] round53_le_nat [of ?q 2] by simp_all
  have "1 \<le> round53 (1 + round53 ?q)" using rq by (intro round53_ge_one) simp
  moreover have "f64_add (Fin 1) (f64_div (f64_round ?d) (f64_of_usize m)) = Fin (round53 (1 + round53 ?q))"
  proof -
    have "?q \<le> 2 ^ 200" by (rule order_trans [OF q(2)]) simp
    moreover have "1 + round53 ?q \<le> 3" using rq(2) by simp
    then have "1 + round53 ?q \<le> 2 ^ 200" by (rule order_trans) simp
    ultimately show ?thesis using q(1) rq(1) assms(1) by (simp add: d m f64_round_fin)
  qed
  ultimately obtain b where b: "f64_add (Fin 1) (f64_div (f64_round ?d) (f64_of_usize m)) = Fin b" "1 \<le> b" by blast
  have nb: "0 \<le> n / b" "n / b \<le> 1" using n b by (auto simp: divide_le_eq)
  obtain a where a: "f64_round (n / b) = Fin a" "0 \<le> a" "a \<le> 1" using nb by (rule f64_round_unit)
  show thesis by (rule that [of a]) (use a b(2) in \<open>simp_all add: n(1) b(1)\<close>)
qed

lemma hll_alpha_unit:
  assumes "0 < m" and "m \<le> 2 ^ 16"
  obtains a where "hll_alpha m = Fin a" "0 \<le> a" "a \<le> 1"
proof -
  have small: "\<exists>a. f64_round q = Fin a \<and> 0 \<le> a \<and> a \<le> 1" if "0 \<le> q" "q \<le> 1" for q
    using f64_round_unit [OF that] by blast
  consider "m = 16" | "m = 32" | "m = 64" | "m \<noteq> 16" "m \<noteq> 32" "m \<noteq> 64" by blast
  then have "\<exists>a. hll_alpha m = Fin a \<and> 0 \<le> a \<and> a \<le> 1"
  proof cases
    case 1
    show ?thesis using small [of "673 / 1000"] by (simp add: hll_alpha_def 1)
  next
    case 2
    show ?thesis using small [of "697 / 1000"] by (simp add: hll_alpha_def 2)
  next
    case 3
    show ?thesis using small [of "709 / 1000"] by (simp add: hll_alpha_def 3)
  next
    case 4
    then show ?thesis using hll_alpha_large [OF assms] unfolding hll_alpha_def by metis
  qed
  then show thesis using that by blast
qed

lemma hll_harmonic_zeros:
  "n + m \<le> 2 ^ 53 \<Longrightarrow>
   fold (\<lambda>r acc. f64_add acc (Fin (1 / 2 ^ unat r))) (replicate m (0 :: u8)) (Fin (of_nat n)) = Fin (of_nat (n + m))"
proof (induction m arbitrary: n)
  case 0
  then show ?case by simp
next
  case (Suc m)
  have "f64_round (of_nat n + 1) = Fin (of_nat (Suc n))"
    using f64_round_nat [of "Suc n"] Suc.prems by (simp add: add.commute)
  with Suc.IH [of "Suc n"] Suc.prems show ?case by (simp add: algebra_simps)
qed

text \<open>An empty sketch estimates zero, whatever logarithm maps 1 to 0.\<close>

lemma hll_raw_empty:
  assumes "0 < m" and "m \<le> 2 ^ 16"
  obtains r where "hll_raw (replicate m 0) = Fin r" "r \<le> of_nat m"
proof -
  let ?m = "rat_of_nat m"
  have mm: "m * m \<le> 2 ^ 53" using mult_le_mono [OF assms(2,2)] by simp
  have m53: "m \<le> 2 ^ 53" using assms(2) by simp
  obtain a where a: "hll_alpha m = Fin a" "0 \<le> a" "a \<le> 1" using hll_alpha_unit [OF assms] .
  have am: "0 \<le> a * ?m" "a * ?m \<le> ?m" using a by (auto intro: mult_left_le_one_le)
  have r1: "0 \<le> round53 (a * ?m)" "round53 (a * ?m) \<le> ?m"
    using am m53 by (auto intro: round53_nonneg round53_le_nat)
  have p2: "0 \<le> round53 (a * ?m) * ?m" "round53 (a * ?m) * ?m \<le> of_nat (m * m)"
    using r1 by (auto intro: mult_right_mono)
  have r2: "0 \<le> round53 (round53 (a * ?m) * ?m)" "round53 (round53 (a * ?m) * ?m) \<le> of_nat (m * m)"
    using round53_nonneg [OF p2(1)] round53_le_nat [OF p2 mm] by auto
  let ?q = "round53 (round53 (a * ?m) * ?m) / ?m"
  have q: "0 \<le> ?q" "?q \<le> ?m" using r2 assms(1) by (auto simp: divide_le_eq)
  have big: "x \<le> of_nat n \<Longrightarrow> n \<le> 2 ^ 53 \<Longrightarrow> x \<le> 2 ^ 200" for x :: rat and n
    using rat_of_nat_small by (meson order_trans)
  have "hll_harmonic (replicate m 0) = Fin ?m"
    unfolding hll_harmonic_def using hll_harmonic_zeros [of 0 m] m53 by simp
  then have "hll_raw (replicate m 0) = Fin (round53 ?q)"
    using assms(1) a(1) am p2 q big [OF am(2) m53] big [OF p2(2) mm] big [OF q(2) m53]
    by (simp add: hll_raw_def Let_def f64_of_usize_small [OF m53] f64_round_fin)
  then show thesis using that round53_le_nat [OF q m53] by blast
qed

lemma hll_estimate_empty:
  assumes "hll_new p = Inr s" and "ln_f64 (Fin 1) = Fin 0"
  shows "hll_estimate ln_f64 s = Fin 0"
proof -
  have p: "unat p \<le> 16" and s: "hll_registers s = replicate (2 ^ unat p) 0"
    using assms(1) by (auto simp: hll_new_def word_le_nat_alt split: if_splits)
  define m :: nat where "m = 2 ^ unat p"
  have m: "0 < m" "m \<le> 2 ^ 16" using power_increasing [OF p, of "2 :: nat"] by (simp_all add: m_def)
  then obtain r where r: "hll_raw (replicate m 0) = Fin r" "r \<le> of_nat m" by (rule hll_raw_empty)
  have m53: "m \<le> 2 ^ 53" using m(2) by simp
  let ?h = "(5 / 2) * rat_of_nat m"
  have "rat_of_nat m \<le> ?h" by simp
  moreover have "?h \<le> rat_of_nat (3 * m)" by simp
  moreover have "3 * m \<le> 2 ^ 53" using m(2) by simp
  ultimately have "of_nat m \<le> round53 ?h" "?h \<le> 2 ^ 200"
    using m53 rat_of_nat_small by (auto intro: round53_ge_nat order_trans)
  then have "f64_le (Fin r) (f64_mul (Fin (5 / 2)) (Fin (of_nat m)))"
    using r(2) by (simp add: f64_round_fin)
  moreover have "f64_round 1 = Fin 1" using f64_round_nat [of 1] by simp
  moreover have "f64_round 0 = Fin 0" using f64_round_nat [of 0] by simp
  ultimately show ?thesis
    using r(1) m(1) assms(2) by (simp add: hll_estimate_def s Let_def f64_of_usize_small [OF m53] flip: m_def)
qed

section \<open>Main properties\<close>

text \<open>A sequence of \<open>add\<close>, up to the first panic.\<close>

fun cm_run :: "(nat \<Rightarrow> bytes \<Rightarrow> u64) \<Rightarrow> count_min_sketch \<Rightarrow> (bytes \<times> u64) list \<Rightarrow> sketch_panic + count_min_sketch" where
  "cm_run hash s [] = Inr s"
| "cm_run hash s ((key, cnt) # h) = (case cm_add hash s key cnt of Inl p \<Rightarrow> Inl p | Inr s' \<Rightarrow> cm_run hash s' h)"

lemma cm_run_inv: "cm_inv hash s g \<Longrightarrow> \<exists>s'. cm_run hash s h = Inr s' \<and> cm_inv hash s' (g @ h)"
proof (induction h arbitrary: s g)
  case (Cons e h)
  obtain s1 where s1: "cm_add hash s (fst e) (snd e) = Inr s1" "cm_inv hash s1 (g @ [e])"
    using cm_add_inv [OF Cons.prems, of "fst e" "snd e"] by auto
  from Cons.IH [OF s1(2)] s1(1) show ?case by (cases e) auto
qed simp

text \<open>In a release build the product of the dimensions can wrap to an empty table, whose first \<open>add\<close> panics.\<close>

lemma cm_dimensions_wrap:
  "\<exists>s. cm_new 2 (2 ^ 63) = Inr s \<and> cm_add hash s key cnt = Inl SketchIndex"
proof -
  have "[0..<2 :: nat] = [0, 1]" by (simp add: numeral_2_eq_2)
  then show ?thesis by (simp add: cm_new_def cm_add_def cm_add_row_def)
qed

text \<open>C30. A Count-Min sketch never underestimates: if the number of its cells is a \<open>usize\<close>, then after any sequence
  of \<open>add\<close>, none of which panics, the estimate of a key is at least the (saturated) sum recorded for it, and at
  most everything recorded.\<close>

theorem cm_never_underestimates:
  assumes "cm_new depth width = Inr s" and "depth * width < 2 ^ 64"
  shows "\<exists>s' v. cm_run hash s h = Inr s' \<and> cm_estimate hash s' key = Inr v \<and>
    min (2 ^ 64 - 1) (key_sum h key) \<le> unat v \<and> unat v \<le> total_sum h"
proof -
  obtain s' where "cm_run hash s h = Inr s'" "cm_inv hash s' h"
    using cm_run_inv [OF cm_new_inv [OF assms, of hash], of h] by auto
  with cm_estimate_bounds [of hash s' h key] show ?thesis by metis
qed

theorem cm_never_underestimates_witness:
  "\<exists>s s' v. cm_new 2 3 = Inr s \<and> cm_run (\<lambda>r k. of_nat r) s [([1], 2), ([2], 9), ([1], 3)] = Inr s' \<and>
     cm_estimate (\<lambda>r k. of_nat r) s' [1] = Inr v \<and> 5 \<le> unat v \<and> unat v \<le> 14"
proof -
  have s: "cm_new 2 3 = Inr \<lparr>cm_depth = 2, cm_width = 3, cm_counters = replicate 6 0\<rparr>" by (simp add: cm_new_def)
  show ?thesis
    using cm_never_underestimates [OF s, of "\<lambda>r k. of_nat r" "[([1], 2), ([2], 9), ([1], 3)]" "[1]"] s
    by (simp add: key_sum_def total_sum_def min_def split: if_splits)
qed

text \<open>C31. A HyperLogLog sketch depends only on the set of keys added: order and repetition change neither its
  registers nor its estimate.\<close>

theorem hll_set_semantics:
  assumes "hll_new p = Inr s" and "set ks = set ks'"
  shows "fold (\<lambda>k s. hll_add hash s k) ks s = fold (\<lambda>k s. hll_add hash s k) ks' s"
  using hll_keys [OF assms(1), of hash ks] hll_keys [OF assms(1), of hash ks'] assms(2)
  by (intro hyper_log_log.equality) simp_all

theorem hll_set_semantics_witness:
  "fold (\<lambda>k s. hll_add (\<lambda>k. 7) s k) [[1], [2], [1]] (projr (hll_new 4)) =
   fold (\<lambda>k s. hll_add (\<lambda>k. 7) s k) [[2], [1]] (projr (hll_new 4))"
  by (rule hll_set_semantics [of 4]) (auto simp: hll_new_def)

end
