(* ===== verification/Onced_Velocity.thy ===== *)
theory Onced_Velocity
  imports Onced_Abuse Onced_Sketch
begin

text \<open>
  \<^verbatim>\<open>onced-core/src/velocity.rs\<close>: the limiter on the number of distinct targets of an actor.
  The lemmas show that the number of tracked actors is bounded, that within a window the
  sketch of an actor is the sketch of the set of its targets, and that asking again
  about a target changes nothing.
\<close>

section \<open>State and operations\<close>

definition DEFAULT_MAX_ACTORS :: nat where
  "DEFAULT_MAX_ACTORS = 100000"

definition PRECISION :: u8 where
  "PRECISION = 10"

record actor_window =
  aw_window_index :: u64
  aw_seen :: hyper_log_log

record velocity_limiter =
  vl_window_ms :: u64
  vl_max_distinct :: u64
  vl_max_actors :: nat
  vl_actors :: "(bytes, actor_window) hashmap"

datatype velocity_panic = VelocityZeroWindow | ZeroMaxActors

definition velocity_with_capacity :: "u64 \<Rightarrow> u64 \<Rightarrow> nat \<Rightarrow> velocity_panic + velocity_limiter" where
  "velocity_with_capacity window max_distinct max_actors =
     (if \<not> 0 < window then Inl VelocityZeroWindow
      else if \<not> 0 < max_actors then Inl ZeroMaxActors
      else Inr \<lparr>vl_window_ms = window, vl_max_distinct = max_distinct, vl_max_actors = max_actors,
                vl_actors = []\<rparr>)"

definition velocity_new :: "u64 \<Rightarrow> u64 \<Rightarrow> velocity_panic + velocity_limiter" where
  "velocity_new window max_distinct = velocity_with_capacity window max_distinct DEFAULT_MAX_ACTORS"

definition tracked_actors :: "velocity_limiter \<Rightarrow> nat" where
  "tracked_actors vl = length (vl_actors vl)"

text \<open>\<open>HyperLogLog::new(PRECISION)\<close>, which does not panic.\<close>

definition fresh_seen :: hyper_log_log where
  "fresh_seen = projr (hll_new PRECISION)"

definition velocity_check ::
    "((bytes, actor_window) hashmap \<Rightarrow> (bytes, actor_window) hashmap) \<Rightarrow> (bytes \<Rightarrow> u64) \<Rightarrow>
       (f64 \<Rightarrow> f64) \<Rightarrow> velocity_limiter \<Rightarrow> bytes \<Rightarrow> bytes \<Rightarrow> u64 \<Rightarrow> decision \<times> velocity_limiter" where
  "velocity_check ord hash ln_f64 vl actor target now =
     (let window_index = now div vl_window_ms vl;
          actors = hm_evict ord (vl_max_actors vl) actor (vl_actors vl);
          entry = (case hm_get actors actor of
                     Some w \<Rightarrow> w
                   | None \<Rightarrow> \<lparr>aw_window_index = window_index, aw_seen = fresh_seen\<rparr>);
          entry = (if aw_window_index entry \<noteq> window_index
                   then \<lparr>aw_window_index = window_index, aw_seen = fresh_seen\<rparr> else entry);
          entry = entry\<lparr>aw_seen := hll_add hash (aw_seen entry) target\<rparr>
      in (if f64_less (f64_of_u64 (vl_max_distinct vl)) (hll_estimate ln_f64 (aw_seen entry)) then Deny else Allow,
          vl\<lparr>vl_actors := hm_insert actor entry actors\<rparr>))"

section \<open>Properties\<close>

lemma fresh_seen_new: "hll_new PRECISION = Inr fresh_seen"
proof -
  have "(4 \<le> (10 :: u8) \<and> (10 :: u8) \<le> 16) = True" by simp
  then show ?thesis by (simp only: fresh_seen_def hll_new_def PRECISION_def if_True sum.sel)
qed

definition vl_inv :: "velocity_limiter \<Rightarrow> bool" where
  "vl_inv vl \<longleftrightarrow> 0 < vl_window_ms vl \<and> 0 < vl_max_actors vl \<and> hm_wf (vl_actors vl) \<and>
     tracked_actors vl \<le> vl_max_actors vl \<and> (\<forall>(a, w) \<in> set (vl_actors vl). hll_inv (aw_seen w))"

lemma velocity_new_inv: "velocity_with_capacity window d cap = Inr vl \<Longrightarrow> vl_inv vl"
  by (auto simp: velocity_with_capacity_def vl_inv_def tracked_actors_def split: if_splits)

lemma velocity_check_sel [simp]:
  "vl_window_ms (snd (velocity_check ord hash ln_f64 vl actor target now)) = vl_window_ms vl"
  "vl_max_distinct (snd (velocity_check ord hash ln_f64 vl actor target now)) = vl_max_distinct vl"
  "vl_max_actors (snd (velocity_check ord hash ln_f64 vl actor target now)) = vl_max_actors vl"
  by (simp_all add: velocity_check_def Let_def)

text \<open>The entry of the actor after a check.\<close>

definition velocity_entry :: "(bytes \<Rightarrow> u64) \<Rightarrow> bytes \<Rightarrow> u64 \<Rightarrow> actor_window option \<Rightarrow> actor_window" where
  "velocity_entry hash target W w =
     (let fresh = \<lparr>aw_window_index = W, aw_seen = fresh_seen\<rparr>;
          entry = (case w of Some w \<Rightarrow> if aw_window_index w = W then w else fresh | None \<Rightarrow> fresh)
      in entry\<lparr>aw_seen := hll_add hash (aw_seen entry) target\<rparr>)"

lemma velocity_check_entry:
  "velocity_check ord hash ln_f64 vl actor target now =
     (let actors = hm_evict ord (vl_max_actors vl) actor (vl_actors vl);
          entry = velocity_entry hash target (now div vl_window_ms vl) (hm_get actors actor)
      in (if f64_less (f64_of_u64 (vl_max_distinct vl)) (hll_estimate ln_f64 (aw_seen entry)) then Deny else Allow,
          vl\<lparr>vl_actors := hm_insert actor entry actors\<rparr>))"
  by (auto simp: velocity_check_def velocity_entry_def Let_def split: option.split)

lemma set_hm_evict: "set (hm_evict ord cap k m) \<subseteq> set m"
  by (auto simp: hm_evict_def hm_remove_def split: option.split)

lemma set_hm_insert: "set (hm_insert k v m) \<subseteq> insert (k, v) (set m)"
  unfolding hm_insert_def by (induction m) auto

lemma velocity_entry_inv:
  "(\<And>w'. w = Some w' \<Longrightarrow> hll_inv (aw_seen w')) \<Longrightarrow> hll_inv (aw_seen (velocity_entry hash target W w))"
  using hll_new_inv [OF fresh_seen_new]
  by (auto simp: velocity_entry_def Let_def hll_add_inv split: option.split)

lemma velocity_check_inv:
  assumes "iteration_order ord" and "vl_inv vl"
  shows "vl_inv (snd (velocity_check ord hash ln_f64 vl actor target now))"
proof -
  let ?actors = "hm_evict ord (vl_max_actors vl) actor (vl_actors vl)"
  let ?entry = "velocity_entry hash target (now div vl_window_ms vl) (hm_get ?actors actor)"
  have a: "vl_actors (snd (velocity_check ord hash ln_f64 vl actor target now)) = hm_insert actor ?entry ?actors"
    by (simp add: velocity_check_entry Let_def)
  have old: "hll_inv (aw_seen w)" if "(k, w) \<in> set ?actors" for k w
    using that assms(2) set_hm_evict [of ord "vl_max_actors vl" actor "vl_actors vl"] by (auto simp: vl_inv_def)
  have "hll_inv (aw_seen ?entry)" by (rule velocity_entry_inv) (meson map_of_SomeD old)
  with old have "\<forall>(k, w) \<in> set (hm_insert actor ?entry ?actors). hll_inv (aw_seen w)"
    using set_hm_insert [of actor ?entry ?actors] by auto
  moreover have "length (hm_insert actor ?entry ?actors) \<le> vl_max_actors vl"
    using assms by (intro length_hm_evict) (auto simp: vl_inv_def tracked_actors_def)
  moreover have "hm_wf (hm_insert actor ?entry ?actors)" using assms(2) by (simp add: vl_inv_def)
  ultimately show ?thesis
    using assms(2) unfolding vl_inv_def tracked_actors_def a by simp
qed

text \<open>Asking again about the same target in the same window changes nothing.\<close>

lemma hll_add_idem:
  assumes "hll_inv s"
  shows "hll_add hash (hll_add hash s key) key = hll_add hash s key"
proof -
  have "hll_index (hll_precision s) (hash key) < length (hll_registers s)"
    using assms hll_index_less [of "hll_precision s"] by (simp add: hll_inv_def)
  then show ?thesis by (auto simp: hll_add_def Let_def)
qed

lemma hm_insert_same: "hm_get m k = Some v \<Longrightarrow> hm_insert k v m = m"
  unfolding hm_insert_def by (induction m) auto

lemma velocity_check_again:
  assumes "vl_inv vl" and "r = velocity_check ord hash ln_f64 vl actor target now"
    and "now' div vl_window_ms vl = now div vl_window_ms vl"
  shows "velocity_check ord hash ln_f64 (snd r) actor target now' = r"
proof -
  let ?actors = "hm_evict ord (vl_max_actors vl) actor (vl_actors vl)"
  let ?W = "now div vl_window_ms vl"
  let ?entry = "velocity_entry hash target ?W (hm_get ?actors actor)"
  have r: "r = (if f64_less (f64_of_u64 (vl_max_distinct vl)) (hll_estimate ln_f64 (aw_seen ?entry)) then Deny else Allow,
      vl\<lparr>vl_actors := hm_insert actor ?entry ?actors\<rparr>)"
    by (simp add: assms(2) velocity_check_entry Let_def)
  have get: "hm_get (hm_insert actor ?entry ?actors) actor = Some ?entry" by (simp add: map_simps)
  have "hll_inv (aw_seen w)" if "hm_get ?actors actor = Some w" for w
    using that assms(1) set_hm_evict [of ord "vl_max_actors vl" actor "vl_actors vl"]
    by (auto simp: vl_inv_def dest: map_of_SomeD simp del: map_of_eq_Some_iff)
  then have "velocity_entry hash target ?W (Some ?entry) = ?entry"
    using hll_new_inv [OF fresh_seen_new]
    by (auto simp: velocity_entry_def Let_def hll_add_idem split: option.split)
  then show ?thesis
    using assms(3) get hm_insert_same [OF get]
    by (simp add: r velocity_check_entry Let_def hm_evict_present [OF get])
qed

section \<open>Main properties\<close>

text \<open>C32. Repeating a target costs nothing: asking again about the same actor and target in the same window gives
  the same decision and leaves the limiter as it was. The number of tracked actors never exceeds the cap.\<close>

theorem velocity_repeat_free:
  assumes "iteration_order ord" and "vl_inv vl" and "r = velocity_check ord hash ln_f64 vl actor target now"
    and "now' div vl_window_ms vl = now div vl_window_ms vl"
  shows "velocity_check ord hash ln_f64 (snd r) actor target now' = r \<and>
    tracked_actors (snd r) \<le> vl_max_actors vl \<and> vl_inv (snd r)"
  using velocity_check_again [OF assms(2-4)] velocity_check_inv [OF assms(1,2)] assms(3)
  by (simp add: vl_inv_def)

theorem velocity_repeat_free_witness:
  "let vl = \<lparr>vl_window_ms = 10, vl_max_distinct = 2, vl_max_actors = 1, vl_actors = []\<rparr>;
       r = velocity_check (\<lambda>m. m) (\<lambda>k. 7) (\<lambda>x. Fin 0) vl [97] [98] 3
   in velocity_check (\<lambda>m. m) (\<lambda>k. 7) (\<lambda>x. Fin 0) (snd r) [97] [98] 4 = r"
  using velocity_repeat_free [of "\<lambda>m. m" "\<lparr>vl_window_ms = 10, vl_max_distinct = 2, vl_max_actors = 1, vl_actors = []\<rparr>",
      OF _ _ refl, where now' = 4]
  by (simp add: vl_inv_def tracked_actors_def iteration_order_def Let_def)

end
