(* ===== verification/Onced_Pow.thy ===== *)
theory Onced_Pow
  imports Onced_Hash Onced_F64
begin

text \<open>
  \<^verbatim>\<open>onced-core/src/pow.rs\<close>: the stateless proof-of-work challenge. Division by a zero window
  panics in Rust; it is \<open>None\<close> here. The lemmas show which nonces \<open>verify\<close> accepts and for how
  long, that the leading-zero count is the size of the digest as a number, that
  a challenge determines its client, window and request up to a collision of HMAC, and
  the bounds of the adaptive difficulty.
\<close>

section \<open>Operations\<close>

record pow_challenge =
  ch_challenge :: bytes
  ch_difficulty :: u8

definition build_hmac_message :: "bytes \<Rightarrow> u64 \<Rightarrow> bytes \<Rightarrow> bytes" where
  "build_hmac_message identity window_index request_hash =
     identity @ to_le_bytes 8 window_index @ request_hash"

definition derive_challenge_at :: "bytes \<Rightarrow> bytes \<Rightarrow> bytes \<Rightarrow> u64 \<Rightarrow> bytes" where
  "derive_challenge_at server_secret identity request_hash window_index =
     hmac_sha256 server_secret (build_hmac_message identity window_index request_hash)"

definition u64_div :: "u64 \<Rightarrow> u64 \<Rightarrow> u64 option" where
  "u64_div a b = (if b = 0 then None else Some (a div b))"

definition derive_challenge :: "bytes \<Rightarrow> bytes \<Rightarrow> bytes \<Rightarrow> u64 \<Rightarrow> u64 \<Rightarrow> bytes option" where
  "derive_challenge server_secret identity request_hash window_ms now_ms =
     map_option (derive_challenge_at server_secret identity request_hash) (u64_div now_ms window_ms)"

definition pow_challenge_for :: "bytes \<Rightarrow> bytes \<Rightarrow> bytes \<Rightarrow> u8 \<Rightarrow> u64 \<Rightarrow> u64 \<Rightarrow> pow_challenge option" where
  "pow_challenge_for server_secret identity request_hash difficulty window_ms now_ms =
     map_option (\<lambda>v. \<lparr>ch_challenge = v, ch_difficulty = difficulty\<rparr>)
       (derive_challenge server_secret identity request_hash window_ms now_ms)"

text \<open>The loop of \<open>leading_zero_bits\<close>, with its running count.\<close>

fun leading_zero_bits_loop :: "bytes \<Rightarrow> u32 \<Rightarrow> u32" where
  "leading_zero_bits_loop [] cnt = cnt"
| "leading_zero_bits_loop (b # bs) cnt =
     (if b = 0 then leading_zero_bits_loop bs (cnt + 8) else cnt + of_nat (leading_zeros b))"

definition leading_zero_bits :: "bytes \<Rightarrow> u32" where
  "leading_zero_bits digest = leading_zero_bits_loop digest 0"

definition check_solution :: "bytes \<Rightarrow> bytes \<Rightarrow> u8 \<Rightarrow> bool" where
  "check_solution c nonce_bytes difficulty =
     (let digest = sha256 (c @ nonce_bytes) in ucast difficulty \<le> leading_zero_bits digest)"

text \<open>The loop over the current and the preceding window.\<close>

fun verify_windows :: "(u64 \<Rightarrow> bool) \<Rightarrow> u64 list \<Rightarrow> bool" where
  "verify_windows solved [] = False"
| "verify_windows solved (i # is) = (if solved i then True else verify_windows solved is)"

definition pow_verify :: "bytes \<Rightarrow> bytes \<Rightarrow> bytes \<Rightarrow> u8 \<Rightarrow> u64 \<Rightarrow> u64 \<Rightarrow> u64 \<Rightarrow> bool option" where
  "pow_verify server_secret identity request_hash difficulty nonce window_ms now_ms =
     (case u64_div now_ms window_ms of
        None \<Rightarrow> None
      | Some current_idx \<Rightarrow> Some (verify_windows
          (\<lambda>i. check_solution (derive_challenge_at server_secret identity request_hash i)
                 (to_le_bytes 8 nonce) difficulty)
          [current_idx, saturating_sub current_idx 1]))"

definition difficulty_for :: "u8 \<Rightarrow> f64 \<Rightarrow> u8" where
  "difficulty_for base overage_ratio =
     (if f64_le overage_ratio (Fin 0) then base
      else let delta = f64_as_u64 (f64_floor (f64_mul (Fin 4) overage_ratio));
               delta = ucast (min delta 20) :: u8
           in saturating_add base delta)"

section \<open>What verify accepts\<close>

definition pow_solves :: "bytes \<Rightarrow> bytes \<Rightarrow> bytes \<Rightarrow> u8 \<Rightarrow> u64 \<Rightarrow> u64 \<Rightarrow> bool" where
  "pow_solves server_secret identity request_hash difficulty nonce window_index \<longleftrightarrow>
     unat difficulty \<le> unat (leading_zero_bits (sha256
       (derive_challenge_at server_secret identity request_hash window_index @ to_le_bytes 8 nonce)))"

lemma check_solution_iff:
  "check_solution c n d \<longleftrightarrow> unat d \<le> unat (leading_zero_bits (sha256 (c @ n)))"
proof -
  have "uint (ucast d :: u32) = uint d" by (simp add: uint_up_ucast is_up)
  then have "unat (ucast d :: u32) = unat d" unfolding unat_eq_nat_uint by (rule arg_cong)
  then show ?thesis unfolding check_solution_def Let_def word_le_nat_alt by (simp only:)
qed

lemma verify_windows_iff: "verify_windows solved is \<longleftrightarrow> (\<exists>i \<in> set is. solved i)"
  by (induction "is") auto

lemma pow_verify_iff:
  "pow_verify s ident rh d nonce w now =
     (if w = 0 then None
      else Some (pow_solves s ident rh d nonce (now div w) \<or>
                 pow_solves s ident rh d nonce (saturating_sub (now div w) 1)))"
  by (simp add: pow_verify_def u64_div_def pow_solves_def check_solution_iff del: verify_windows.simps
      add: verify_windows_iff)

text \<open>Windows as the verifier sees them: a solution is good in its window and the next one.\<close>

lemma saturating_sub_one: "(i :: u64) \<noteq> - 1 \<Longrightarrow> saturating_sub (i + 1) 1 = i"
  by (simp add: word_unat_eq_iff unat_saturating_sub unat_plus_one)

section \<open>Leading zeros\<close>

definition be_nat :: "bytes \<Rightarrow> nat" where
  "be_nat bs = fold (\<lambda>b n. 256 * n + unat b) bs 0"

fun zero_bits :: "bytes \<Rightarrow> nat" where
  "zero_bits [] = 0"
| "zero_bits (b # bs) = (if b = 0 then 8 + zero_bits bs else leading_zeros b)"

lemma leading_zeros_byte: "leading_zeros (b :: u8) \<le> 8"
  unfolding leading_zeros_def using length_takeWhile_le [of _ "rev [0..<8]"] by simp

lemma unat_add_small: "unat (c :: u32) + n < 2 ^ 32 \<Longrightarrow> unat (c + of_nat n) = unat c + n"
  by (simp add: unat_word_ariths unat_of_nat take_bit_nat_eq_self)

lemma leading_zero_bits_loop_nat:
  "unat cnt + 8 * length bs < 2 ^ 32 \<Longrightarrow> unat (leading_zero_bits_loop bs cnt) = unat cnt + zero_bits bs"
proof (induction bs arbitrary: cnt)
  case Nil
  then show ?case by simp
next
  case (Cons b bs)
  have "unat (cnt + 8) = unat cnt + 8" using Cons.prems unat_add_small [of cnt 8] by simp
  moreover have "unat (cnt + of_nat (leading_zeros b)) = unat cnt + leading_zeros b"
    using Cons.prems leading_zeros_byte [of b] by (intro unat_add_small) simp
  ultimately show ?case using Cons by simp
qed

lemma be_nat_fold: "fold (\<lambda>b n. 256 * n + unat b) bs a = a * 256 ^ length bs + be_nat bs"
proof (induction bs arbitrary: a)
  case Nil
  then show ?case by (simp add: be_nat_def)
next
  case (Cons b bs)
  show ?case using Cons [of "256 * a + unat b"] Cons [of "unat b"]
    by (simp add: be_nat_def algebra_simps)
qed

lemma be_nat_Cons: "be_nat (b # bs) = unat b * 256 ^ length bs + be_nat bs"
  using be_nat_fold [of bs "unat b"] by (simp add: be_nat_def)

lemma be_nat_less: "be_nat bs < 256 ^ length bs"
proof (induction bs)
  case Nil
  then show ?case by (simp add: be_nat_def)
next
  case (Cons b bs)
  have "unat b < 2 ^ 8" using unsigned_less [of b, where ?'a = nat] by simp
  then have "unat b \<le> 255" by simp
  then have "unat b * 256 ^ length bs \<le> 255 * 256 ^ length bs" by (rule mult_le_mono1)
  then have "be_nat (b # bs) < 255 * 256 ^ length bs + 256 ^ length bs"
    unfolding be_nat_Cons using Cons.IH by (rule add_le_less_mono)
  then show ?case by simp
qed

lemma pow256: "(256 :: nat) ^ n = 2 ^ (8 * n)"
  by (simp add: power_mult)

lemma mult_add_less_iff: "(r :: nat) < m \<Longrightarrow> a * m + r < b * m \<longleftrightarrow> a < b"
proof
  assume "r < m" "a < b"
  then have "Suc a * m \<le> b * m" by (intro mult_le_mono1) simp
  with \<open>r < m\<close> show "a * m + r < b * m" by simp
next
  assume "a * m + r < b * m"
  then have "a * m < b * m" by linarith
  then show "a < b" by simp
qed

lemma zero_bits_ge:
  "n \<le> 8 * length bs \<Longrightarrow> n \<le> zero_bits bs \<longleftrightarrow> be_nat bs < 2 ^ (8 * length bs - n)"
proof (induction bs arbitrary: n)
  case Nil
  then show ?case by (simp add: be_nat_def)
next
  case (Cons b bs)
  let ?L = "8 * length bs"
  have r: "be_nat bs < 2 ^ ?L" using be_nat_less [of bs] by (simp add: pow256)
  have c: "be_nat (b # bs) = unat b * 2 ^ ?L + be_nat bs" by (simp add: be_nat_Cons pow256)
  show ?case
  proof (cases "n \<le> 8")
    case True
    have p: "(2 :: nat) ^ (8 * length (b # bs) - n) = 2 ^ (8 - n) * 2 ^ ?L"
      using True by (simp flip: power_add)
    have "unat b * 2 ^ ?L + be_nat bs < 2 ^ (8 - n) * 2 ^ ?L \<longleftrightarrow> unat b < 2 ^ (8 - n)"
      using r by (rule mult_add_less_iff)
    moreover have "n \<le> zero_bits (b # bs) \<longleftrightarrow> unat b < 2 ^ (8 - n)"
      using True leading_zeros_ge [of n b] by auto
    ultimately show ?thesis unfolding c p by blast
  next
    case False
    have e: "8 * length (b # bs) - n = ?L - (n - 8)" "n - 8 \<le> ?L" using False Cons.prems by auto
    show ?thesis
    proof (cases "b = 0")
      case True
      then show ?thesis using Cons.IH [OF e(2)] False c e(1) by auto
    next
      case b: False
      have "n \<le> zero_bits (b # bs) \<longleftrightarrow> False" using b False leading_zeros_byte [of b] by simp
      moreover have "1 \<le> unat b" using b by (simp add: Suc_le_eq unat_gt_0)
      then have "2 ^ ?L \<le> unat b * 2 ^ ?L" by simp
      moreover have "(2 :: nat) ^ (?L - (n - 8)) \<le> 2 ^ ?L" by (rule power_increasing) simp_all
      ultimately have "\<not> unat b * 2 ^ ?L + be_nat bs < 2 ^ (?L - (n - 8))" by linarith
      with \<open>n \<le> zero_bits (b # bs) \<longleftrightarrow> False\<close> show ?thesis unfolding c e(1) by blast
    qed
  qed
qed

lemma leading_zero_bits_nat:
  assumes "length digest = 32"
  shows "unat (leading_zero_bits digest) = zero_bits digest"
  using leading_zero_bits_loop_nat [of 0 digest] assms by (simp add: leading_zero_bits_def)

section \<open>Difficulty\<close>

lemma f64_as_u64_mono:
  assumes "0 \<le> a" and "a \<le> b"
  shows "f64_as_u64 (Fin (of_int a)) \<le> f64_as_u64 (Fin (of_int b))"
proof -
  have "(of_int a :: u64) \<le> of_int b" if "b < 2 ^ 64"
    using that assms by (simp add: word_le_nat_alt unat_eq_nat_uint uint_word_of_int take_bit_int_eq_self)
  with assms show ?thesis by auto
qed

definition difficulty_delta :: "rat \<Rightarrow> u64" where
  "difficulty_delta r = f64_as_u64 (f64_floor (f64_mul (Fin 4) (Fin r)))"

lemma difficulty_delta_mono:
  assumes "0 \<le> r" and "r \<le> r'"
  shows "difficulty_delta r \<le> difficulty_delta r'"
proof -
  have "round53 (4 * r) \<le> round53 (4 * r')" using assms by (intro round53_mono) simp_all
  moreover have "0 \<le> round53 (4 * r)" using assms by (intro round53_nonneg) simp
  ultimately show ?thesis
    unfolding difficulty_delta_def
    by (auto simp: f64_round_def Let_def intro!: f64_as_u64_mono floor_mono simp del: f64_as_u64.simps(1))
qed

lemma unat_delta: "unat (ucast (min d 20) :: u8) = min (unat d) 20" for d :: u64
proof -
  have m: "unat (min d 20) = min (unat d) 20" by (simp add: min_def word_le_nat_alt)
  have "unat (ucast (min d 20) :: u8) = take_bit 8 (unat (min d 20))" by (simp add: unsigned_ucast_eq)
  also have "\<dots> = unat (min d 20)" unfolding m by (rule take_bit_nat_eq_self) simp
  finally show ?thesis unfolding m .
qed

lemma difficulty_for_fin:
  "unat (difficulty_for base (Fin r)) =
     (if r \<le> 0 then unat base else min (unat base + min (unat (difficulty_delta r)) 20) 255)"
  by (simp add: difficulty_for_def Let_def difficulty_delta_def unat_saturating_add unat_delta)

lemma be_nat_zeros: "be_nat (replicate n 0) = 0"
  by (induction n) (simp_all add: be_nat_Cons, simp add: be_nat_def)

section \<open>Main properties\<close>

text \<open>C33. A nonce that solves the challenge \<open>challenge\<close> issued at time \<open>t0\<close> is accepted by \<open>verify\<close> at every
  time in the same window and in the next one, for the same identity, request and difficulty.\<close>

theorem pow_verify_accepts:
  assumes "pow_challenge_for secret ident rh d w t0 = Some ch"
    and "unat d \<le> unat (leading_zero_bits (sha256 (ch_challenge ch @ to_le_bytes 8 nonce)))"
    and "now div w = t0 div w \<or> (now div w = t0 div w + 1 \<and> t0 div w \<noteq> - 1)"
  shows "pow_verify secret ident rh (ch_difficulty ch) nonce w now = Some True"
proof -
  have w: "w \<noteq> 0" and ch: "ch_challenge ch = derive_challenge_at secret ident rh (t0 div w)"
    "ch_difficulty ch = d"
    using assms(1) by (auto simp: pow_challenge_for_def derive_challenge_def u64_div_def split: if_splits)
  have "pow_solves secret ident rh d nonce (t0 div w)" using assms(2) ch(1) by (simp add: pow_solves_def)
  with assms(3) w show ?thesis by (auto simp: pow_verify_iff saturating_sub_one ch(2))
qed

theorem pow_verify_accepts_witness:
  "pow_verify [] [] [] (ch_difficulty (the (pow_challenge_for [] [] [] 0 1000 0))) 7 1000 1500 = Some True"
  by (rule pow_verify_accepts [where d = 0 and ?t0.0 = 0])
    (simp_all add: pow_challenge_for_def derive_challenge_def u64_div_def)

text \<open>C34. \<open>leading_zero_bits\<close> of a 32-byte digest reaches a difficulty exactly when the digest, read as
  a big-endian number, is below \<open>2 ^ (256 - difficulty)\<close>.\<close>

theorem leading_zero_bits_threshold:
  assumes "length digest = 32" and "n \<le> 256"
  shows "n \<le> unat (leading_zero_bits digest) \<longleftrightarrow> be_nat digest < 2 ^ (256 - n)"
  using zero_bits_ge [of n digest] assms by (simp add: leading_zero_bits_nat)

theorem leading_zero_bits_threshold_witness:
  "\<not> 8 \<le> unat (leading_zero_bits (1 # replicate 31 0)) \<and> 7 \<le> unat (leading_zero_bits (1 # replicate 31 0))"
proof -
  have "be_nat (1 # replicate 31 0) = 2 ^ 248" by (simp add: be_nat_Cons be_nat_zeros)
  then show ?thesis
    using leading_zero_bits_threshold [of "1 # replicate 31 0" 8]
      leading_zero_bits_threshold [of "1 # replicate 31 0" 7] by simp
qed

text \<open>The adaptive difficulty never falls below the base, exceeds it by at most 20 without
  wrapping, and does not decrease when the overage ratio grows.\<close>

theorem difficulty_for_bounds:
  "unat base \<le> unat (difficulty_for base x) \<and> unat (difficulty_for base x) \<le> min (unat base + 20) 255 \<and>
   (r \<le> r' \<longrightarrow> difficulty_for base (Fin r) \<le> difficulty_for base (Fin r'))"
proof (intro conjI impI)
  have "unat base \<le> 255" using unsigned_less [of base, where ?'a = nat] by simp
  have "unat (difficulty_for base x) = unat base \<or>
      (\<exists>d. unat (difficulty_for base x) = min (unat base + min d 20) 255)"
    by (auto simp: difficulty_for_def Let_def unat_saturating_add unat_delta)
  with \<open>unat base \<le> 255\<close> show "unat base \<le> unat (difficulty_for base x)"
    "unat (difficulty_for base x) \<le> min (unat base + 20) 255"
    by auto
  assume "r \<le> r'"
  then have "0 < r \<Longrightarrow> unat (difficulty_delta r) \<le> unat (difficulty_delta r')"
    using difficulty_delta_mono [of r r'] by (simp add: word_le_nat_alt)
  with \<open>r \<le> r'\<close> \<open>unat base \<le> 255\<close> show "difficulty_for base (Fin r) \<le> difficulty_for base (Fin r')"
    unfolding word_le_nat_alt difficulty_for_fin by (auto simp: not_le)
qed

theorem difficulty_for_bounds_witness:
  "difficulty_for 8 (Fin 0) \<le> difficulty_for 8 (Fin 2)"
  using difficulty_for_bounds [of 8 NaN 0 2] by simp

text \<open>For request hashes of one length (a SHA-256 digest has 32 bytes) the authenticated message
  determines the identity, the time window and the request: a challenge is never shared by two clients,
  two windows or two requests unless HMAC-SHA-256 collides.\<close>

theorem hmac_message_inj:
  assumes "length rh = length rh'"
  shows "build_hmac_message ident i rh = build_hmac_message ident' i' rh' \<longleftrightarrow>
    ident = ident' \<and> i = i' \<and> rh = rh'"
  using assms append_eq_append_conv [of rh rh' "ident @ to_le_bytes 8 i" "ident' @ to_le_bytes 8 i'"]
  by (auto simp: build_hmac_message_def to_le_bytes_inject)

theorem hmac_message_inj_witness:
  "build_hmac_message [1] 2 [3] \<noteq> build_hmac_message [1, 2] 0 [3]"
  using hmac_message_inj [of "[3]" "[3]" "[1]" 2 "[1, 2]" 0] by simp

end
