(* ===== verification/Onced_Text.thy ===== *)
theory Onced_Text
  imports Onced_Prelude
begin

text \<open>
  The operations of Rust's \<open>str\<close>, integer and \<open>BufRead\<close> interfaces that the HTTP layer uses,
  on UTF-8 byte lists: trimming (all characters of Unicode's \<open>White_Space\<close> property),
  splitting at an ASCII character, ASCII case folding, decimal parsing and printing, and
  reading lines. A reader is the bytes it will still deliver and whether it then reports an
  I/O error instead of the end of the file. \<open>CapacityOverflow\<close> is the panic of \<open>vec!\<close> on a
  length above \<open>isize::MAX\<close>.
\<close>

section \<open>Case folding, splitting and trimming\<close>

definition to_ascii_lower :: "u8 \<Rightarrow> u8" where
  "to_ascii_lower b = (if 65 \<le> b \<and> b \<le> 90 then b + 32 else b)"

definition eq_ignore_ascii_case :: "bytes \<Rightarrow> bytes \<Rightarrow> bool" where
  "eq_ignore_ascii_case a b \<longleftrightarrow> map to_ascii_lower a = map to_ascii_lower b"

fun split_char :: "u8 \<Rightarrow> bytes \<Rightarrow> bytes list" where
  "split_char c [] = [[]]"
| "split_char c (b # bs) =
     (if b = c then [] # split_char c bs
      else case split_char c bs of p # ps \<Rightarrow> (b # p) # ps | [] \<Rightarrow> [[b]])"

definition split_once :: "u8 \<Rightarrow> bytes \<Rightarrow> (bytes \<times> bytes) option" where
  "split_once c s =
     (case dropWhile (\<lambda>b. b \<noteq> c) s of [] \<Rightarrow> None | _ # rest \<Rightarrow> Some (takeWhile (\<lambda>b. b \<noteq> c) s, rest))"

definition nth_or_empty :: "bytes list \<Rightarrow> nat \<Rightarrow> bytes" where
  "nth_or_empty ps i = (if i < length ps then ps ! i else [])"

text \<open>\<open>trim_end_matches(['\r', '\n'])\<close>.\<close>

definition is_crlf :: "u8 \<Rightarrow> bool" where
  "is_crlf b \<longleftrightarrow> b = 13 \<or> b = 10"

definition trim_end_crlf :: "bytes \<Rightarrow> bytes" where
  "trim_end_crlf s = rev (dropWhile is_crlf (rev s))"

text \<open>The length of the white-space character a string starts with, 0 if it starts with none.\<close>

definition ws_ascii :: "u8 \<Rightarrow> bool" where
  "ws_ascii b \<longleftrightarrow> 9 \<le> b \<and> b \<le> 13 \<or> b = 32"

definition ws2 :: "u8 \<Rightarrow> u8 \<Rightarrow> bool" where
  "ws2 a b \<longleftrightarrow> a = 0xC2 \<and> (b = 0x85 \<or> b = 0xA0)"

definition ws3 :: "u8 \<Rightarrow> u8 \<Rightarrow> u8 \<Rightarrow> bool" where
  "ws3 a b c \<longleftrightarrow>
     a = 0xE1 \<and> b = 0x9A \<and> c = 0x80 \<or>
     a = 0xE2 \<and> b = 0x80 \<and> (0x80 \<le> c \<and> c \<le> 0x8A \<or> c = 0xA8 \<or> c = 0xA9 \<or> c = 0xAF) \<or>
     a = 0xE2 \<and> b = 0x81 \<and> c = 0x9F \<or>
     a = 0xE3 \<and> b = 0x80 \<and> c = 0x80"

fun trim_start :: "bytes \<Rightarrow> bytes" where
  "trim_start (a # b # c # r) =
     (if ws_ascii a then trim_start (b # c # r)
      else if ws2 a b then trim_start (c # r)
      else if ws3 a b c then trim_start r
      else a # b # c # r)"
| "trim_start [a, b] = (if ws_ascii a then trim_start [b] else if ws2 a b then [] else [a, b])"
| "trim_start [a] = (if ws_ascii a then [] else [a])"
| "trim_start [] = []"

text \<open>The same from the end; its argument is the reversed string.\<close>

fun trim_rev :: "bytes \<Rightarrow> bytes" where
  "trim_rev (c # b # a # r) =
     (if ws_ascii c then trim_rev (b # a # r)
      else if ws2 b c then trim_rev (a # r)
      else if ws3 a b c then trim_rev r
      else c # b # a # r)"
| "trim_rev [c, b] = (if ws_ascii c then trim_rev [b] else if ws2 b c then [] else [c, b])"
| "trim_rev [c] = (if ws_ascii c then [] else [c])"
| "trim_rev [] = []"

definition trim :: "bytes \<Rightarrow> bytes" where
  "trim s = rev (trim_rev (rev (trim_start s)))"

section \<open>Decimal numbers\<close>

text \<open>\<open>str::parse\<close> for an unsigned type whose values are below \<open>bound\<close>.\<close>

definition is_digit :: "u8 \<Rightarrow> bool" where
  "is_digit b \<longleftrightarrow> 48 \<le> b \<and> b \<le> 57"

definition digits_value :: "bytes \<Rightarrow> nat" where
  "digits_value ds = fold (\<lambda>d n. 10 * n + (unat d - 48)) ds 0"

definition parse_uint :: "nat \<Rightarrow> bytes \<Rightarrow> nat option" where
  "parse_uint bound s =
     (let ds = (case s of b # bs \<Rightarrow> if b = 43 then bs else s | [] \<Rightarrow> [])
      in if ds \<noteq> [] \<and> list_all is_digit ds \<and> digits_value ds < bound then Some (digits_value ds) else None)"

fun print_uint :: "nat \<Rightarrow> bytes" where
  "print_uint n = (if n < 10 then [of_nat (48 + n)] else print_uint (n div 10) @ [of_nat (48 + n mod 10)])"

declare print_uint.simps [simp del]

section \<open>Readers\<close>

record bufreader =
  rd_bytes :: bytes
  rd_fails :: bool

datatype io_error = InvalidData bytes | UnexpectedEof | IoFailure | CapacityOverflow

definition read_line :: "bufreader \<Rightarrow> io_error + (bytes \<times> bufreader)" where
  "read_line r =
     (let line = takeWhile (\<lambda>b. b \<noteq> 10) (rd_bytes r);
          rest = dropWhile (\<lambda>b. b \<noteq> 10) (rd_bytes r)
      in if rest = [] \<and> rd_fails r then Inl IoFailure
         else let line = (if rest = [] then line else line @ [10])
              in if utf8_valid line then Inr (line, r\<lparr>rd_bytes := drop 1 rest\<rparr>)
                 else Inl (InvalidData (ascii ''stream did not contain valid UTF-8'')))"

definition read_exact :: "nat \<Rightarrow> bufreader \<Rightarrow> io_error + (bytes \<times> bufreader)" where
  "read_exact n r =
     (if n \<le> length (rd_bytes r) then Inr (take n (rd_bytes r), r\<lparr>rd_bytes := drop n (rd_bytes r)\<rparr>)
      else Inl (if rd_fails r then IoFailure else UnexpectedEof))"

definition read_to_end :: "bufreader \<Rightarrow> io_error + (bytes \<times> bufreader)" where
  "read_to_end r = (if rd_fails r then Inl IoFailure else Inr (rd_bytes r, r\<lparr>rd_bytes := []\<rparr>))"

lemma read_line_shorter:
  assumes "read_line r = Inr (line, r')" and "line \<noteq> []"
  shows "length (rd_bytes r') < length (rd_bytes r)"
proof -
  have "rd_bytes r \<noteq> []" using assms by (auto simp: read_line_def split: if_splits)
  moreover have "rd_bytes r' = drop 1 (dropWhile (\<lambda>b. b \<noteq> 10) (rd_bytes r))"
    using assms(1) by (auto simp: read_line_def Let_def split: if_splits)
  ultimately show ?thesis
    using length_dropWhile_le [of "\<lambda>b. b \<noteq> 10" "rd_bytes r"] by (cases "rd_bytes r") auto
qed

lemma read_line_write:
  assumes "10 \<notin> set s" and "utf8_valid (s @ [10])"
  shows "read_line \<lparr>rd_bytes = s @ 10 # rest, rd_fails = f\<rparr> = Inr (s @ [10], \<lparr>rd_bytes = rest, rd_fails = f\<rparr>)"
proof -
  have "takeWhile (\<lambda>b. b \<noteq> 10) (s @ 10 # rest) = s" "dropWhile (\<lambda>b. b \<noteq> 10) (s @ 10 # rest) = 10 # rest"
    using assms(1) by (auto simp: takeWhile_append dropWhile_append)
  with assms(2) show ?thesis by (simp add: read_line_def)
qed

section \<open>Lemmas\<close>

lemma utf8_second_cont: "utf8_second3 b0 b1 \<Longrightarrow> utf8_cont b1" "utf8_second4 b0 b1 \<Longrightarrow> utf8_cont b1"
  by (auto simp: utf8_second3_def utf8_second4_def utf8_cont_def word_le_nat_alt split: if_splits)

text \<open>The characters of a string: a first byte and what follows it.\<close>

lemma utf8_valid_cases:
  assumes "utf8_valid (b0 # bs)"
  obtains (char) cs r where "bs = cs @ r" "list_all utf8_cont cs" "utf8_valid r" "\<And>r'. utf8_valid r' \<Longrightarrow> utf8_valid (b0 # cs @ r')"
proof -
  consider "b0 < 0x80" | "\<not> b0 < 0x80" "0xC2 \<le> b0 \<and> b0 \<le> 0xDF"
    | "\<not> b0 < 0x80" "\<not> (0xC2 \<le> b0 \<and> b0 \<le> 0xDF)" "0xE0 \<le> b0 \<and> b0 \<le> 0xEF"
    | "\<not> b0 < 0x80" "\<not> (0xC2 \<le> b0 \<and> b0 \<le> 0xDF)" "\<not> (0xE0 \<le> b0 \<and> b0 \<le> 0xEF)" "0xF0 \<le> b0 \<and> b0 \<le> 0xF4"
    using assms unfolding utf8_valid.simps(2) by argo
  then show thesis
  proof cases
    case 1
    show thesis by (rule char [of "[]" bs]) (use 1 assms in \<open>simp_all add: utf8_valid.simps(2) [of b0]\<close>)
  next
    case 2
    with assms obtain b1 r where "bs = b1 # r" "utf8_cont b1" "utf8_valid r"
      unfolding utf8_valid.simps(2) by (simp split: list.splits)
    then show thesis by (intro char [of "[b1]" r]) (use 2 in \<open>simp_all add: utf8_valid.simps(2) [of b0]\<close>)
  next
    case 3
    with assms obtain b1 b2 r where "bs = b1 # b2 # r" "utf8_second3 b0 b1" "utf8_cont b2" "utf8_valid r"
      unfolding utf8_valid.simps(2) by (simp split: list.splits)
    then show thesis by (intro char [of "[b1, b2]" r]) (use 3 in \<open>auto simp: utf8_valid.simps(2) [of b0] utf8_second_cont\<close>)
  next
    case 4
    with assms obtain b1 b2 b3 r where "bs = b1 # b2 # b3 # r" "utf8_second4 b0 b1" "utf8_cont b2" "utf8_cont b3" "utf8_valid r"
      unfolding utf8_valid.simps(2) by (simp split: list.splits)
    then show thesis by (intro char [of "[b1, b2, b3]" r]) (use 4 in \<open>auto simp: utf8_valid.simps(2) [of b0] utf8_second_cont\<close>)
  qed
qed

lemma utf8_valid_append: "utf8_valid a \<Longrightarrow> utf8_valid b \<Longrightarrow> utf8_valid (a @ b)"
proof (induction "length a" arbitrary: a rule: less_induct)
  case less
  show ?case
  proof (cases a)
    case (Cons b0 bs)
    then obtain cs r where "bs = cs @ r" "utf8_valid r" "\<And>r'. utf8_valid r' \<Longrightarrow> utf8_valid (b0 # cs @ r')"
      using less.prems(1) by (blast elim: utf8_valid_cases)
    with less.hyps [of r] less.prems(2) Cons show ?thesis by simp
  qed (use less.prems in simp)
qed

lemma ascii_simps: "ascii (c # s) = of_char c # ascii s" "ascii [] = []"
  by (simp_all add: ascii_def)

lemma split_char_ne [simp]: "split_char c s \<noteq> []"
  by (induction s) (auto split: list.split)

lemma split_char_word: "c \<notin> set s \<Longrightarrow> split_char c (s @ c # t) = s # split_char c t"
  by (induction s) auto

lemma split_char_last: "c \<notin> set s \<Longrightarrow> split_char c s = [s]"
  by (induction s) auto

lemma split_once_word: "c \<notin> set s \<Longrightarrow> split_once c (s @ c # t) = Some (s, t)"
  by (auto simp: split_once_def takeWhile_append dropWhile_append)

lemma trim_end_crlf_line: "s = [] \<or> \<not> is_crlf (last s) \<Longrightarrow> trim_end_crlf (s @ [13, 10]) = s"
  by (cases s rule: rev_cases) (auto simp: trim_end_crlf_def is_crlf_def)

text \<open>Printing and parsing.\<close>

lemma unat_digit: "k < 10 \<Longrightarrow> unat (of_nat (48 + k) :: u8) = 48 + k"
  by (simp add: unat_of_nat take_bit_nat_eq_self del: of_nat_add)

lemma digit_ok: "k < 10 \<Longrightarrow> is_digit (of_nat (48 + k))"
  by (simp add: is_digit_def word_le_nat_alt unat_digit del: of_nat_add)

lemma digits_value_snoc: "digits_value (ds @ [d]) = 10 * digits_value ds + (unat d - 48)"
  by (simp add: digits_value_def)

lemma print_uint_ne [simp]: "print_uint n \<noteq> []"
  by (subst print_uint.simps) simp

lemma print_uint_digits: "list_all is_digit (print_uint n) \<and> digits_value (print_uint n) = n"
proof (induction n rule: print_uint.induct)
  case (1 n)
  show ?case
  proof (cases "n < 10")
    case True
    then show ?thesis
      by (subst (1 2) print_uint.simps) (simp add: digit_ok unat_digit digits_value_def del: of_nat_add)
  next
    case False
    then have "digits_value (print_uint n) = 10 * (n div 10) + n mod 10"
      using 1 by (subst print_uint.simps) (simp add: digits_value_snoc unat_digit del: of_nat_add)
    moreover have "list_all is_digit (print_uint n)"
      using 1 False by (subst print_uint.simps) (simp add: digit_ok del: of_nat_add)
    ultimately show ?thesis by simp
  qed
qed

lemma print_uint_set: "b \<in> set (print_uint n) \<Longrightarrow> 48 \<le> b \<and> b \<le> 57"
  using print_uint_digits [of n] by (auto simp: list_all_iff is_digit_def)

lemma parse_print_uint: "n < bound \<Longrightarrow> parse_uint bound (print_uint n) = Some n"
proof -
  assume n: "n < bound"
  have "hd (print_uint n) \<noteq> 43" using print_uint_set [of "hd (print_uint n)" n] by auto
  then have "(case print_uint n of b # bs \<Rightarrow> if b = 43 then bs else print_uint n | [] \<Rightarrow> []) = print_uint n"
    by (auto split: list.split)
  with n print_uint_digits [of n] show ?thesis by (simp add: parse_uint_def)
qed

lemma print_uint_utf8 [simp]: "utf8_valid (print_uint n)"
proof (rule utf8_valid_ascii, rule ballI)
  fix b assume "b \<in> set (print_uint n)"
  then have "b \<le> 57" by (simp add: print_uint_set)
  then show "b < 0x80" by (rule order.strict_trans1) simp
qed

lemma trim_start_print [simp]: "trim_start (print_uint n) = print_uint n"
proof -
  have "\<not> ws_ascii b \<and> b \<noteq> 0xC2 \<and> b \<noteq> 0xE1 \<and> b \<noteq> 0xE2 \<and> b \<noteq> 0xE3" if "b \<in> set (print_uint n)" for b
    using print_uint_set [OF that] by (auto simp: ws_ascii_def word_le_nat_alt)
  then show ?thesis
    by (cases "print_uint n" rule: trim_start.cases) (auto simp: ws2_def ws3_def)
qed

text \<open>Trimming.\<close>

lemma length_trim_start: "length (trim_start s) \<le> length s"
  by (induction s rule: trim_start.induct) auto

lemma trim_start_same: "length (trim_start s) = length s \<Longrightarrow> trim_start s = s"
proof (induction s rule: trim_start.induct)
  case (1 a b c r)
  show ?case
    using 1(4) length_trim_start [of "b # c # r"] length_trim_start [of "c # r"] length_trim_start [of r]
    by (auto split: if_splits)
next
  case (2 a b)
  then show ?case by (auto split: if_splits)
qed (auto split: if_splits)

lemma length_trim_rev: "length (trim_rev s) \<le> length s"
  by (induction s rule: trim_rev.induct) auto

lemma trim_rev_hd: "trim_rev s = s \<Longrightarrow> s \<noteq> [] \<Longrightarrow> \<not> ws_ascii (hd s)"
proof (cases s rule: trim_rev.cases)
  case (1 c b a r)
  then show "trim_rev s = s \<Longrightarrow> s \<noteq> [] \<Longrightarrow> \<not> ws_ascii (hd s)"
    using length_trim_rev [of "b # a # r"] by (metis hd_conv_nth impossible_Cons length_Cons list.sel(1) trim_rev.simps(1))
next
  case (2 c b)
  then show "trim_rev s = s \<Longrightarrow> s \<noteq> [] \<Longrightarrow> \<not> ws_ascii (hd s)"
    using length_trim_rev [of "[b]"] by auto
qed auto

lemma trim_last: "trim v = v \<Longrightarrow> v = [] \<or> \<not> ws_ascii (last v)"
proof -
  assume t: "trim v = v"
  have "length (trim v) \<le> length (trim_start v)"
    using length_trim_rev [of "rev (trim_start v)"] by (simp add: trim_def)
  then have "trim_start v = v" using t length_trim_start [of v] by (intro trim_start_same) simp
  then have "trim_rev (rev v) = rev v" using t by (simp add: trim_def) (metis rev_rev_ident)
  from trim_rev_hd [OF this] show ?thesis by (auto simp: hd_rev)
qed

lemma trim_space: "trim (32 # v) = trim v"
proof -
  have "trim_start (32 # v) = trim_start v"
    by (cases v rule: trim_start.cases) (simp_all add: ws_ascii_def)
  then show ?thesis by (simp add: trim_def)
qed

lemma trim_rev_print [simp]: "trim_rev (rev (print_uint n)) = rev (print_uint n)"
proof -
  have "\<not> ws_ascii b \<and> b \<noteq> 0x80 \<and> b \<noteq> 0x81 \<and> b \<noteq> 0x85 \<and> b \<noteq> 0x9A \<and> b \<noteq> 0xA0" if "b \<in> set (rev (print_uint n))" for b
    using print_uint_set [of b n] that by (auto simp: ws_ascii_def word_le_nat_alt word_less_nat_alt)
  then show ?thesis
    by (cases "rev (print_uint n)" rule: trim_rev.cases) (auto simp: ws2_def ws3_def)
qed

lemma trim_print [simp]: "trim (print_uint n) = print_uint n"
  by (simp add: trim_def)

section \<open>Pieces of a string are strings\<close>

text \<open>A cut before a byte that continues no character leaves two strings.\<close>

lemma utf8_valid_cut:
  "utf8_valid (a @ b) \<Longrightarrow> b = [] \<or> \<not> utf8_cont (hd b) \<Longrightarrow> utf8_valid a \<and> utf8_valid b"
proof (induction "length a" arbitrary: a rule: less_induct)
  case less
  show ?case
  proof (cases a)
    case (Cons b0 bs)
    then obtain cs r where c: "bs @ b = cs @ r" "list_all utf8_cont cs" "utf8_valid r" "\<And>r'. utf8_valid r' \<Longrightarrow> utf8_valid (b0 # cs @ r')"
      using less.prems(1) by (auto elim: utf8_valid_cases)
    from c(1) obtain us where "bs = cs @ us \<and> us @ b = r \<or> bs @ us = cs \<and> b = us @ r" by (auto simp: append_eq_append_conv2)
    then consider "bs = cs @ us" "us @ b = r" | "us \<noteq> []" "cs = bs @ us" "b = us @ r" by (cases "us = []") auto
    then show ?thesis
    proof cases
      case 1
      then have "utf8_valid us \<and> utf8_valid b" using less.hyps [of us] less.prems(2) c(3) Cons by auto
      then show ?thesis using c(4) [of us] 1 Cons by simp
    next
      case 2
      then have "utf8_cont (hd b)" "b \<noteq> []" using c(2) by (cases us; auto)+
      with less.prems(2) show ?thesis by simp
    qed
  qed (use less.prems in simp)
qed

lemma ascii_no_cont: "c < 0x80 \<Longrightarrow> \<not> utf8_cont c"
  by (simp add: utf8_cont_def word_le_nat_alt word_less_nat_alt)

lemma utf8_valid_ascii_Cons: "c < 0x80 \<Longrightarrow> utf8_valid (c # s) \<longleftrightarrow> utf8_valid s"
  by (simp add: utf8_valid.simps(2) [of c])

lemma utf8_valid_word:
  assumes "utf8_valid s" and "c < 0x80"
  shows "utf8_valid (takeWhile (\<lambda>b. b \<noteq> c) s)" "utf8_valid (dropWhile (\<lambda>b. b \<noteq> c) s)"
proof -
  have "dropWhile (\<lambda>b. b \<noteq> c) s = [] \<or> \<not> utf8_cont (hd (dropWhile (\<lambda>b. b \<noteq> c) s))"
    using hd_dropWhile [of "\<lambda>b. b \<noteq> c" s] ascii_no_cont [OF assms(2)] by auto
  with utf8_valid_cut [of "takeWhile (\<lambda>b. b \<noteq> c) s" "dropWhile (\<lambda>b. b \<noteq> c) s"] assms(1)
  show "utf8_valid (takeWhile (\<lambda>b. b \<noteq> c) s)" "utf8_valid (dropWhile (\<lambda>b. b \<noteq> c) s)" by simp_all
qed

lemma split_char_takeWhile:
  "split_char c s = takeWhile (\<lambda>b. b \<noteq> c) s #
     (case dropWhile (\<lambda>b. b \<noteq> c) s of [] \<Rightarrow> [] | _ # rest \<Rightarrow> split_char c rest)"
  by (induction s) auto

lemma utf8_valid_pieces: "utf8_valid s \<Longrightarrow> c < 0x80 \<Longrightarrow> p \<in> set (split_char c s) \<Longrightarrow> utf8_valid p"
proof (induction "length s" arbitrary: s rule: less_induct)
  case less
  note w = utf8_valid_word [OF less.prems(1,2)]
  show ?case
  proof (cases "dropWhile (\<lambda>b. b \<noteq> c) s")
    case Nil
    show ?thesis using less.prems(3) w(1) unfolding split_char_takeWhile [of c s] Nil by simp
  next
    case (Cons d rest)
    have "d = c" using hd_dropWhile [of "\<lambda>b. b \<noteq> c" s] Cons by simp
    then have "utf8_valid rest" using w(2) less.prems(2) by (simp add: Cons utf8_valid_ascii_Cons)
    moreover have "length rest < length s" using length_dropWhile_le [of "\<lambda>b. b \<noteq> c" s] by (simp add: Cons)
    ultimately show ?thesis using less.hyps [of rest] less.prems(2,3) w(1) by (auto simp: split_char_takeWhile [of c s] Cons)
  qed
qed

lemma utf8_valid_split_once:
  assumes "utf8_valid s" and "c < 0x80" and "split_once c s = Some (a, b)"
  shows "utf8_valid a" "utf8_valid b"
proof -
  obtain d where d: "dropWhile (\<lambda>b. b \<noteq> c) s = d # b" "a = takeWhile (\<lambda>b. b \<noteq> c) s"
    using assms(3) by (auto simp: split_once_def split: list.splits)
  have "d = c" using hd_dropWhile [of "\<lambda>b. b \<noteq> c" s] d(1) by simp
  with utf8_valid_word [OF assms(1,2)] d assms(2) show "utf8_valid a" "utf8_valid b" by (simp_all add: utf8_valid_ascii_Cons)
qed

lemma utf8_valid_trim_end_crlf:
  assumes "utf8_valid s"
  shows "utf8_valid (trim_end_crlf s)"
proof -
  let ?t = "rev (takeWhile is_crlf (rev s))"
  have s: "s = trim_end_crlf s @ ?t" by (simp add: trim_end_crlf_def flip: rev_append)
  have "?t = [] \<or> \<not> utf8_cont (hd ?t)"
  proof (cases "?t = []")
    case False
    then have "hd ?t \<in> set (takeWhile is_crlf (rev s))" by (metis hd_in_set set_rev)
    then have "is_crlf (hd ?t)" by (rule set_takeWhileD [THEN conjunct2])
    then show ?thesis by (auto simp: is_crlf_def utf8_cont_def)
  qed simp
  then show ?thesis using utf8_valid_cut [of "trim_end_crlf s" ?t] assms s by simp
qed

lemma utf8_valid_trim_start: "utf8_valid s \<Longrightarrow> utf8_valid (trim_start s)"
proof (induction s rule: trim_start.induct)
  case (1 a b c r)
  have ws: "ws_ascii a \<Longrightarrow> utf8_valid (b # c # r)" "ws2 a b \<Longrightarrow> utf8_valid (c # r)" "ws3 a b c \<Longrightarrow> utf8_valid r"
    using 1(4) by (auto simp: utf8_valid.simps(2) [of a] utf8_valid.simps(2) [of 194] ws_ascii_def ws2_def ws3_def word_le_nat_alt word_less_nat_alt split: if_splits)
  with 1 show ?case by simp
qed (auto simp: utf8_valid.simps(2) ws_ascii_def word_le_nat_alt word_less_nat_alt split: if_splits)

lemma trim_rev_cut: "\<exists>t. x = t @ trim_rev x \<and> (t = [] \<or> \<not> utf8_cont (last t))"
proof (induction x rule: trim_rev.induct)
  case (1 c b a r)
  have nc: "ws_ascii c \<Longrightarrow> \<not> utf8_cont c" "ws2 b c \<Longrightarrow> \<not> utf8_cont b" "ws3 a b c \<Longrightarrow> \<not> utf8_cont a"
    by (auto simp: ws_ascii_def ws2_def ws3_def utf8_cont_def word_le_nat_alt)
  have ext: "\<exists>t'. u @ y = t' @ trim_rev y \<and> (t' = [] \<or> \<not> utf8_cont (last t'))"
    if "\<exists>t. y = t @ trim_rev y \<and> (t = [] \<or> \<not> utf8_cont (last t))" "u \<noteq> []" "\<not> utf8_cont (last u)" for u y
  proof -
    from that(1) obtain t where "y = t @ trim_rev y" "t = [] \<or> \<not> utf8_cont (last t)" by blast
    then have "u @ y = (u @ t) @ trim_rev y \<and> \<not> utf8_cont (last (u @ t))"
      using that(2,3) by (cases "t = []") (metis append.assoc append_Nil2 last_appendR)+
    then show ?thesis by blast
  qed
  consider "ws_ascii c" | "\<not> ws_ascii c" "ws2 b c" | "\<not> ws_ascii c" "\<not> ws2 b c" "ws3 a b c" | "\<not> ws_ascii c" "\<not> ws2 b c" "\<not> ws3 a b c" by blast
  then show ?case
  proof cases
    case 1 then show ?thesis using ext [of "b # a # r" "[c]"] "1.IH"(1) nc(1) by simp
  next
    case 2 then show ?thesis using ext [of "a # r" "[c, b]"] "1.IH"(2) nc(2) by simp
  next
    case 3 then show ?thesis using ext [of r "[c, b, a]"] "1.IH"(3) nc(3) by simp
  qed simp
qed (auto simp: ws_ascii_def ws2_def utf8_cont_def word_le_nat_alt)

lemma utf8_valid_trim:
  assumes "utf8_valid s"
  shows "utf8_valid (trim s)"
proof -
  obtain t where t: "rev (trim_start s) = t @ trim_rev (rev (trim_start s))" "t = [] \<or> \<not> utf8_cont (last t)"
    using trim_rev_cut by blast
  have "trim_start s = trim s @ rev t" unfolding trim_def by (metis rev_append rev_rev_ident t(1))
  moreover have "rev t = [] \<or> \<not> utf8_cont (hd (rev t))" using t(2) by (auto simp: hd_rev)
  ultimately show ?thesis using utf8_valid_cut [of "trim s" "rev t"] utf8_valid_trim_start [OF assms] by simp
qed

end
