(* ===== verification/Onced_Http.thy ===== *)
theory Onced_Http
  imports Onced_Text
begin

text \<open>
  \<^verbatim>\<open>onced-gateway/src/http.rs\<close>: HTTP/1.1 messages, their parser and their serializer. The
  parsers return the value and what is left of the reader. Writing always succeeds into a
  buffer, so a writer is the function to the bytes it emits. The lemmas give the round
  trips: what the gateway writes to the backend or the client, its own parser reads back.
\<close>

section \<open>Messages\<close>

record http_request =
  req_method :: bytes
  req_target :: bytes
  req_headers :: "(bytes \<times> bytes) list"
  req_body :: bytes

definition find_header :: "(bytes \<times> bytes) list \<Rightarrow> bytes \<Rightarrow> bytes option" where
  "find_header hs name = map_option snd (find (\<lambda>(key, _). eq_ignore_ascii_case key name) hs)"

definition request_header :: "http_request \<Rightarrow> bytes \<Rightarrow> bytes option" where
  "request_header r name = find_header (req_headers r) name"

record http_response =
  res_status :: u16
  res_headers :: "(bytes \<times> bytes) list"
  res_body :: bytes

definition invalid :: "bytes \<Rightarrow> io_error" where
  "invalid message = InvalidData message"

section \<open>Parsing\<close>

text \<open>The header loop, shared by both parsers (they differ in the message of the error).\<close>

function parse_headers ::
    "bytes \<Rightarrow> bufreader \<Rightarrow> (bytes \<times> bytes) list \<Rightarrow> io_error + ((bytes \<times> bytes) list \<times> bufreader)" where
  "parse_headers msg r hs =
     (case read_line r of
        Inl err \<Rightarrow> Inl err
      | Inr (line, r') \<Rightarrow>
          if line = [] then Inr (hs, r')
          else let t = trim_end_crlf line in
            if t = [] then Inr (hs, r')
            else case split_once 58 t of
                Some (name, value) \<Rightarrow> parse_headers msg r' (hs @ [(trim name, trim value)])
              | None \<Rightarrow> Inl (invalid msg))"
  by pat_completeness auto

termination
  by (relation "measure (\<lambda>(msg, r, hs). length (rd_bytes r))") (auto intro: read_line_shorter)

declare parse_headers.simps [simp del]

definition USIZE_BOUND :: nat where
  "USIZE_BOUND = 2 ^ 64"

definition CONTENT_LENGTH :: bytes where
  "CONTENT_LENGTH = ascii ''content-length''"

definition content_length :: "(bytes \<times> bytes) list \<Rightarrow> nat option" where
  "content_length hs = Option.bind (find_header hs CONTENT_LENGTH) (parse_uint USIZE_BOUND)"

text \<open>\<open>vec![0u8; n]\<close>, then \<open>read_exact\<close> unless \<open>n\<close> is 0.\<close>

definition read_body :: "nat \<Rightarrow> bufreader \<Rightarrow> io_error + (bytes \<times> bufreader)" where
  "read_body n r =
     (if 2 ^ 63 \<le> n then Inl CapacityOverflow
      else if 0 < n then read_exact n r else Inr ([], r))"

definition parse_request :: "bufreader \<Rightarrow> io_error + (http_request option \<times> bufreader)" where
  "parse_request r =
     (case read_line r of
        Inl err \<Rightarrow> Inl err
      | Inr (request_line, r) \<Rightarrow>
          if request_line = [] then Inr (None, r)
          else
            let parts = split_char 32 (trim_end_crlf request_line);
                method = nth_or_empty parts 0;
                target = nth_or_empty parts 1
            in if method = [] \<or> target = [] then Inl (invalid (ascii ''malformed request line''))
               else case parse_headers (ascii ''malformed header line'') r [] of
                   Inl err \<Rightarrow> Inl err
                 | Inr (headers, r) \<Rightarrow>
                     let n = (case content_length headers of Some n \<Rightarrow> n | None \<Rightarrow> 0)
                     in case read_body n r of
                          Inl err \<Rightarrow> Inl err
                        | Inr (body, r) \<Rightarrow>
                            Inr (Some \<lparr>req_method = method, req_target = target,
                                       req_headers = headers, req_body = body\<rparr>, r))"

text \<open>The second piece of \<open>splitn(3, ' ')\<close> is the second piece of \<open>split(' ')\<close>.\<close>

definition parse_response :: "bufreader \<Rightarrow> io_error + (http_response \<times> bufreader)" where
  "parse_response r =
     (case read_line r of
        Inl err \<Rightarrow> Inl err
      | Inr (status_line, r) \<Rightarrow>
          if status_line = [] then Inl (invalid (ascii ''empty response''))
          else
            let parts = split_char 32 (trim_end_crlf status_line)
            in case (if 1 < length parts then parse_uint (2 ^ 16) (parts ! 1) else None) of
                 None \<Rightarrow> Inl (invalid (ascii ''bad status line''))
               | Some status \<Rightarrow>
                   (case parse_headers (ascii ''malformed response header'') r [] of
                      Inl err \<Rightarrow> Inl err
                    | Inr (headers, r) \<Rightarrow>
                        (case (case content_length headers of
                                 Some n \<Rightarrow> read_body n r
                               | None \<Rightarrow> read_to_end r) of
                           Inl err \<Rightarrow> Inl err
                         | Inr (body, r) \<Rightarrow>
                             Inr (\<lparr>res_status = of_nat status, res_headers = headers, res_body = body\<rparr>, r))))"

section \<open>Writing\<close>

definition CRLF :: bytes where
  "CRLF = [13, 10]"

definition reason_phrase :: "u16 \<Rightarrow> bytes" where
  "reason_phrase status =
     (if status = 200 then ascii ''OK''
      else if status = 201 then ascii ''Created''
      else if status = 400 then ascii ''Bad Request''
      else if status = 409 then ascii ''Conflict''
      else if status = 422 then ascii ''Unprocessable Entity''
      else if status = 429 then ascii ''Too Many Requests''
      else if status = 500 then ascii ''Internal Server Error''
      else if status = 502 then ascii ''Bad Gateway''
      else ascii ''Status'')"

definition header_line :: "bytes \<times> bytes \<Rightarrow> bytes" where
  "header_line h = fst h @ [58, 32] @ snd h @ CRLF"

definition write_response :: "http_response \<Rightarrow> bytes" where
  "write_response response =
     ascii ''HTTP/1.1 '' @ print_uint (unat (res_status response)) @ [32] @ reason_phrase (res_status response) @ CRLF
     @ ascii ''Content-Length: '' @ print_uint (length (res_body response)) @ CRLF
     @ concat (map header_line (filter (\<lambda>(name, _). \<not> eq_ignore_ascii_case name CONTENT_LENGTH) (res_headers response)))
     @ CRLF @ res_body response"

definition write_request :: "http_request \<Rightarrow> bytes" where
  "write_request request =
     req_method request @ [32] @ req_target request @ ascii '' HTTP/1.1'' @ CRLF
     @ concat (map header_line (filter (\<lambda>(name, _). \<not> (eq_ignore_ascii_case name CONTENT_LENGTH \<or>
           eq_ignore_ascii_case name (ascii ''connection''))) (req_headers request)))
     @ ascii ''Content-Length: '' @ print_uint (length (req_body request)) @ CRLF
     @ ascii ''Connection: close'' @ CRLF
     @ CRLF @ req_body request"

section \<open>Round trips\<close>

text \<open>What a header must satisfy to come back from the wire as it was.\<close>

definition wf_header :: "bytes \<times> bytes \<Rightarrow> bool" where
  "wf_header h \<longleftrightarrow> utf8_valid (fst h) \<and> utf8_valid (snd h) \<and> trim (fst h) = fst h \<and> trim (snd h) = snd h \<and>
     58 \<notin> set (fst h) \<and> 10 \<notin> set (fst h) \<and> 10 \<notin> set (snd h)"

definition wf_request :: "http_request \<Rightarrow> bool" where
  "wf_request r \<longleftrightarrow> req_method r \<noteq> [] \<and> req_target r \<noteq> [] \<and>
     utf8_valid (req_method r) \<and> utf8_valid (req_target r) \<and>
     32 \<notin> set (req_method r) \<and> 10 \<notin> set (req_method r) \<and>
     32 \<notin> set (req_target r) \<and> 10 \<notin> set (req_target r) \<and>
     list_all wf_header (req_headers r) \<and> length (req_body r) < 2 ^ 63"

definition wf_response :: "http_response \<Rightarrow> bool" where
  "wf_response r \<longleftrightarrow> list_all wf_header (res_headers r) \<and> length (res_body r) < 2 ^ 63"

lemma utf8_ascii_literals [simp]:
  "utf8_valid [13, 10]" "utf8_valid [58, 32]" "utf8_valid [32]" "utf8_valid [10]" "utf8_valid [13]"
  by code_simp+

lemma wf_header_line:
  assumes "wf_header h"
  shows "parse_headers msg \<lparr>rd_bytes = header_line h @ rest, rd_fails = f\<rparr> hs =
    parse_headers msg \<lparr>rd_bytes = rest, rd_fails = f\<rparr> (hs @ [h])"
proof -
  obtain n v where h: "h = (n, v)" by force
  let ?s = "n @ [58, 32] @ v"
  have wf: "utf8_valid n" "utf8_valid v" "trim n = n" "trim v = v" "58 \<notin> set n" "10 \<notin> set n" "10 \<notin> set v"
    using assms by (simp_all add: h wf_header_def)
  have "utf8_valid ((?s @ [13]) @ [10])" using wf by (intro utf8_valid_append) simp_all
  then have rd: "read_line \<lparr>rd_bytes = (?s @ [13]) @ 10 # rest, rd_fails = f\<rparr> =
      Inr ((?s @ [13]) @ [10], \<lparr>rd_bytes = rest, rd_fails = f\<rparr>)"
    using wf by (intro read_line_write) auto
  have "\<not> is_crlf (last ?s)" using trim_last [OF wf(4)] by (auto simp: is_crlf_def ws_ascii_def)
  then have tr: "trim_end_crlf ((?s @ [13]) @ [10]) = ?s" using trim_end_crlf_line [of ?s] by simp
  have sp: "split_once 58 ?s = Some (n, 32 # v)" using split_once_word [OF wf(5), of "32 # v"] by simp
  have "header_line h @ rest = (?s @ [13]) @ 10 # rest" by (simp add: h header_line_def CRLF_def)
  then show ?thesis
    using rd tr sp wf by (subst parse_headers.simps) (simp add: h trim_space)
qed

lemma parse_headers_end:
  "parse_headers msg \<lparr>rd_bytes = CRLF @ rest, rd_fails = f\<rparr> hs = Inr (hs, \<lparr>rd_bytes = rest, rd_fails = f\<rparr>)"
proof -
  have "read_line \<lparr>rd_bytes = [13] @ 10 # rest, rd_fails = f\<rparr> = Inr ([13] @ [10], \<lparr>rd_bytes = rest, rd_fails = f\<rparr>)"
    by (rule read_line_write) simp_all
  moreover have "trim_end_crlf [13, 10] = []" using trim_end_crlf_line [of "[]"] by simp
  ultimately show ?thesis by (subst parse_headers.simps) (simp add: CRLF_def)
qed

lemma parse_headers_write:
  "list_all wf_header hs \<Longrightarrow>
   parse_headers msg \<lparr>rd_bytes = concat (map header_line hs) @ CRLF @ rest, rd_fails = f\<rparr> acc =
     Inr (acc @ hs, \<lparr>rd_bytes = rest, rd_fails = f\<rparr>)"
  by (induction hs arbitrary: acc) (simp_all add: parse_headers_end wf_header_line)

definition length_header :: "bytes \<Rightarrow> bytes \<times> bytes" where
  "length_header body = (ascii ''Content-Length'', print_uint (length body))"

definition CLOSE_HEADER :: "bytes \<times> bytes" where
  "CLOSE_HEADER = (ascii ''Connection'', ascii ''close'')"

lemma header_literals:
  "ascii ''Content-Length: '' = ascii ''Content-Length'' @ [58, 32]"
  "ascii ''Connection: close'' @ CRLF = header_line CLOSE_HEADER"
  "eq_ignore_ascii_case (ascii ''Content-Length'') CONTENT_LENGTH"
  "trim (ascii ''Content-Length'') = ascii ''Content-Length''" "utf8_valid (ascii ''Content-Length'')"
  "58 \<notin> set (ascii ''Content-Length'')" "10 \<notin> set (ascii ''Content-Length'')"
  "wf_header CLOSE_HEADER"
  by code_simp+

lemma wf_length_header: "wf_header (length_header body)"
  using print_uint_set [of 10 "length body"]
  by (auto simp: wf_header_def length_header_def header_literals)

lemma length_header_line: "ascii ''Content-Length: '' @ print_uint (length b) @ CRLF = header_line (length_header b)"
  by (simp only: header_literals(1) length_header_def header_line_def fst_conv snd_conv append_assoc append_Cons append_Nil)

lemma content_length_found:
  assumes "\<And>n v. (n, v) \<in> set hs \<Longrightarrow> \<not> eq_ignore_ascii_case n CONTENT_LENGTH" and "length body < 2 ^ 63"
  shows "content_length (hs @ length_header body # hs') = Some (length body)"
proof -
  have "find (\<lambda>(key, _). eq_ignore_ascii_case key CONTENT_LENGTH) (hs @ length_header body # hs') = Some (length_header body)"
    using assms(1) by (induction hs) (auto simp: length_header_def header_literals(3))
  then show ?thesis
    using assms(2) by (simp add: content_length_def find_header_def length_header_def parse_print_uint USIZE_BOUND_def)
qed

lemma read_body_exact:
  "length body < 2 ^ 63 \<Longrightarrow> read_body (length body) \<lparr>rd_bytes = body @ rest, rd_fails = f\<rparr> =
     Inr (body, \<lparr>rd_bytes = rest, rd_fails = f\<rparr>)"
  by (simp add: read_body_def read_exact_def)

lemma line_literals:
  "ascii '' HTTP/1.1'' = 32 # ascii ''HTTP/1.1''" "ascii ''HTTP/1.1 '' = ascii ''HTTP/1.1'' @ [32]"
  "utf8_valid (ascii ''HTTP/1.1'')" "10 \<notin> set (ascii ''HTTP/1.1'')" "32 \<notin> set (ascii ''HTTP/1.1'')"
  "ascii ''HTTP/1.1'' \<noteq> []" "\<not> is_crlf (last (ascii ''HTTP/1.1''))"
  by code_simp+

lemma reason_phrase_ok:
  "utf8_valid (reason_phrase st) \<and> 10 \<notin> set (reason_phrase st) \<and> reason_phrase st \<noteq> [] \<and>
   \<not> is_crlf (last (reason_phrase st))"
proof -
  have "\<forall>s \<in> set [''OK'', ''Created'', ''Bad Request'', ''Conflict'', ''Unprocessable Entity'',
      ''Too Many Requests'', ''Internal Server Error'', ''Bad Gateway'', ''Status''].
    utf8_valid (ascii s) \<and> 10 \<notin> set (ascii s) \<and> ascii s \<noteq> [] \<and> \<not> is_crlf (last (ascii s))"
    by code_simp
  then show ?thesis unfolding reason_phrase_def by (simp split: if_split)
qed

lemma first_line:
  assumes "utf8_valid s" and "10 \<notin> set s" and "s = [] \<or> \<not> is_crlf (last s)"
  shows "read_line \<lparr>rd_bytes = s @ CRLF @ rest, rd_fails = f\<rparr> = Inr (s @ CRLF, \<lparr>rd_bytes = rest, rd_fails = f\<rparr>)"
    and "trim_end_crlf (s @ CRLF) = s"
proof -
  have "utf8_valid ((s @ [13]) @ [10])" using assms(1) by (intro utf8_valid_append) simp_all
  then show "read_line \<lparr>rd_bytes = s @ CRLF @ rest, rd_fails = f\<rparr> = Inr (s @ CRLF, \<lparr>rd_bytes = rest, rd_fails = f\<rparr>)"
    using read_line_write [of "s @ [13]" rest f] assms(2) by (simp add: CRLF_def)
  show "trim_end_crlf (s @ CRLF) = s" using trim_end_crlf_line [OF assms(3)] by (simp add: CRLF_def)
qed

text \<open>The headers a forwarded request carries.\<close>

definition forwarded_headers :: "http_request \<Rightarrow> (bytes \<times> bytes) list" where
  "forwarded_headers r =
     filter (\<lambda>(name, _). \<not> (eq_ignore_ascii_case name CONTENT_LENGTH \<or>
       eq_ignore_ascii_case name (ascii ''connection''))) (req_headers r)
     @ [length_header (req_body r), CLOSE_HEADER]"

definition emitted_headers :: "http_response \<Rightarrow> (bytes \<times> bytes) list" where
  "emitted_headers r =
     length_header (res_body r)
     # filter (\<lambda>(name, _). \<not> eq_ignore_ascii_case name CONTENT_LENGTH) (res_headers r)"

lemma write_request_lines:
  "write_request r = (req_method r @ 32 # req_target r @ 32 # ascii ''HTTP/1.1'') @ CRLF
     @ concat (map header_line (forwarded_headers r)) @ CRLF @ req_body r"
  using length_header_line [of "req_body r"] header_literals(2)
  by (simp add: write_request_def forwarded_headers_def line_literals(1) flip: append_assoc)

lemma write_response_lines:
  "write_response r = (ascii ''HTTP/1.1'' @ 32 # print_uint (unat (res_status r)) @ 32 # reason_phrase (res_status r)) @ CRLF
     @ concat (map header_line (emitted_headers r)) @ CRLF @ res_body r"
  using length_header_line [of "res_body r"]
  by (simp add: write_response_def emitted_headers_def line_literals(2) flip: append_assoc)

lemma filter_wf: "list_all wf_header hs \<Longrightarrow> list_all wf_header (filter P hs)"
  by (auto simp: list_all_iff)

text \<open>C27. Forwarding loses nothing: a well-formed request written by \<open>write_request\<close> is read back by
  \<open>parse_request\<close> with the same method, target and body and the same headers in order, except that
  \<open>Content-Length\<close> and \<open>Connection\<close> are replaced by the serializer's own; the rest of the stream is untouched.\<close>

theorem request_round_trip:
  assumes "wf_request r"
  shows "parse_request \<lparr>rd_bytes = write_request r @ rest, rd_fails = f\<rparr> =
    Inr (Some (r\<lparr>req_headers := forwarded_headers r\<rparr>), \<lparr>rd_bytes = rest, rd_fails = f\<rparr>)"
proof -
  let ?line = "req_method r @ 32 # req_target r @ 32 # ascii ''HTTP/1.1''"
  have wf: "req_method r \<noteq> []" "req_target r \<noteq> []" "utf8_valid (req_method r)" "utf8_valid (req_target r)"
    "32 \<notin> set (req_method r)" "10 \<notin> set (req_method r)" "32 \<notin> set (req_target r)" "10 \<notin> set (req_target r)"
    "list_all wf_header (req_headers r)" "length (req_body r) < 2 ^ 63"
    using assms by (auto simp: wf_request_def)
  have "utf8_valid (req_method r @ [32] @ req_target r @ [32] @ ascii ''HTTP/1.1'')"
    using wf by (intro utf8_valid_append) (simp_all add: line_literals)
  then have line: "utf8_valid ?line" "10 \<notin> set ?line" "?line = [] \<or> \<not> is_crlf (last ?line)"
    using wf line_literals by auto
  have parts: "split_char 32 ?line = [req_method r, req_target r, ascii ''HTTP/1.1'']"
    using wf(5,7) line_literals(5) by (simp add: split_char_word split_char_last)
  have hs: "list_all wf_header (forwarded_headers r)"
    using wf(9) by (simp add: forwarded_headers_def filter_wf wf_length_header header_literals)
  have cl: "content_length (forwarded_headers r) = Some (length (req_body r))"
    unfolding forwarded_headers_def using wf(10) by (intro content_length_found) auto
  have "read_line \<lparr>rd_bytes = write_request r @ rest, rd_fails = f\<rparr> =
      Inr (?line @ CRLF, \<lparr>rd_bytes = concat (map header_line (forwarded_headers r)) @ CRLF @ req_body r @ rest, rd_fails = f\<rparr>)"
    unfolding write_request_lines using first_line(1) [OF line] by simp
  then show ?thesis
    unfolding parse_request_def
    using first_line(2) [OF line] parts wf(1,2) parse_headers_write [OF hs] cl read_body_exact [OF wf(10)]
    by (simp add: nth_or_empty_def)
qed

lemma sample_header: "wf_header ([65], [66])" "utf8_valid [71]" "utf8_valid [47]"
  by code_simp+

theorem request_round_trip_witness:
  "\<exists>r'. parse_request \<lparr>rd_bytes = write_request
       \<lparr>req_method = [71], req_target = [47], req_headers = [([65], [66])], req_body = [1, 2]\<rparr> @ [9], rd_fails = False\<rparr> =
     Inr (Some r', \<lparr>rd_bytes = [9], rd_fails = False\<rparr>)"
proof -
  have "wf_request \<lparr>req_method = [71], req_target = [47], req_headers = [([65], [66])], req_body = [1, 2]\<rparr>"
    by (simp add: wf_request_def sample_header)
  from request_round_trip [OF this] show ?thesis by blast
qed

text \<open>C28. Round trip of responses: a response with well-formed headers written by \<open>write_response\<close> is read back by
  \<open>parse_response\<close> with the same status and body; its headers follow the serializer's \<open>Content-Length\<close>.\<close>

theorem response_round_trip:
  assumes "wf_response r"
  shows "parse_response \<lparr>rd_bytes = write_response r @ rest, rd_fails = f\<rparr> =
    Inr (r\<lparr>res_headers := emitted_headers r\<rparr>, \<lparr>rd_bytes = rest, rd_fails = f\<rparr>)"
proof -
  let ?n = "print_uint (unat (res_status r))" and ?p = "reason_phrase (res_status r)"
  let ?line = "ascii ''HTTP/1.1'' @ 32 # ?n @ 32 # ?p"
  have wf: "list_all wf_header (res_headers r)" "length (res_body r) < 2 ^ 63"
    using assms by (auto simp: wf_response_def)
  have n: "32 \<notin> set ?n" "10 \<notin> set ?n" using print_uint_set [of 32] print_uint_set [of 10] by auto
  have "utf8_valid (ascii ''HTTP/1.1'' @ [32] @ ?n @ [32] @ ?p)"
    using reason_phrase_ok by (intro utf8_valid_append) (simp_all add: line_literals)
  then have line: "utf8_valid ?line" "10 \<notin> set ?line" "?line = [] \<or> \<not> is_crlf (last ?line)"
    using n line_literals reason_phrase_ok [of "res_status r"] by auto
  have parts: "split_char 32 ?line = ascii ''HTTP/1.1'' # ?n # split_char 32 ?p"
    using n(1) line_literals(5) by (simp add: split_char_word)
  have hs: "list_all wf_header (emitted_headers r)"
    using wf(1) by (simp add: emitted_headers_def filter_wf wf_length_header)
  have cl: "content_length (emitted_headers r) = Some (length (res_body r))"
    unfolding emitted_headers_def using wf(2) content_length_found [of "[]"] by simp
  have "unat (res_status r) < 2 ^ 16" using unsigned_less [of "res_status r", where ?'a = nat] by simp
  note st = parse_print_uint [OF this]
  have "read_line \<lparr>rd_bytes = write_response r @ rest, rd_fails = f\<rparr> =
      Inr (?line @ CRLF, \<lparr>rd_bytes = concat (map header_line (emitted_headers r)) @ CRLF @ res_body r @ rest, rd_fails = f\<rparr>)"
    unfolding write_response_lines using first_line(1) [OF line] by simp
  then show ?thesis
    unfolding parse_response_def
    using first_line(2) [OF line] parts st parse_headers_write [OF hs] cl read_body_exact [OF wf(2)]
    by simp
qed

theorem response_round_trip_witness:
  "\<exists>r'. parse_response \<lparr>rd_bytes = write_response \<lparr>res_status = 201, res_headers = [([65], [66])], res_body = [1, 2]\<rparr> @ [9],
       rd_fails = False\<rparr> = Inr (r', \<lparr>rd_bytes = [9], rd_fails = False\<rparr>)"
proof -
  have "wf_response \<lparr>res_status = 201, res_headers = [([65], [66])], res_body = [1, 2]\<rparr>"
    by (simp add: wf_response_def sample_header)
  from response_round_trip [OF this] show ?thesis by blast
qed

section \<open>Types\<close>

lemma read_line_utf8: "read_line r = Inr (line, r') \<Longrightarrow> utf8_valid line"
  by (auto simp: read_line_def Let_def split: if_splits)

abbreviation utf8_header :: "bytes \<times> bytes \<Rightarrow> bool" where
  "utf8_header h \<equiv> utf8_valid (fst h) \<and> utf8_valid (snd h)"

lemma parse_headers_utf8:
  "parse_headers msg r hs = Inr (hs', r') \<Longrightarrow> list_all utf8_header hs \<Longrightarrow> list_all utf8_header hs'"
proof (induction msg r hs rule: parse_headers.induct)
  case (1 msg r hs)
  obtain line r1 where line: "read_line r = Inr (line, r1)"
    using "1.prems"(1) by (subst (asm) parse_headers.simps) (auto split: sum.splits)
  note eq = "1.prems"(1) [unfolded parse_headers.simps [of msg r hs] line, simplified]
  let ?t = "trim_end_crlf line"
  show ?case
  proof (cases "line = [] \<or> ?t = []")
    case True
    then show ?thesis using eq "1.prems"(2) by (auto simp: Let_def split: if_splits)
  next
    case False
    then obtain name val where s: "split_once 58 ?t = Some (name, val)"
      and rec: "parse_headers msg r1 (hs @ [(trim name, trim val)]) = Inr (hs', r')"
      using eq by (auto simp: Let_def split: option.splits)
    have "utf8_valid ?t" using read_line_utf8 [OF line] by (rule utf8_valid_trim_end_crlf)
    then have "utf8_valid name" "utf8_valid val" using utf8_valid_split_once [OF _ _ s] by simp_all
    then have "list_all utf8_header (hs @ [(trim name, trim val)])" using "1.prems"(2) by (simp add: utf8_valid_trim)
    with "1.IH" [OF line refl _ refl _ s refl rec] False show ?thesis by blast
  qed
qed

lemma parse_request_valid:
  assumes "parse_request inp = Inr (Some q, rest')"
  shows "utf8_valid (req_method q)" "utf8_valid (req_target q)" "list_all utf8_header (req_headers q)"
    "req_method q \<noteq> []" "req_target q \<noteq> []"
    "length (req_body q) = (case content_length (req_headers q) of Some n \<Rightarrow> n | None \<Rightarrow> 0)"
proof -
  obtain line r1 hs r2 body where l: "read_line inp = Inr (line, r1)" "line \<noteq> []"
      and q: "q = \<lparr>req_method = nth_or_empty (split_char 32 (trim_end_crlf line)) 0,
        req_target = nth_or_empty (split_char 32 (trim_end_crlf line)) 1, req_headers = hs, req_body = body\<rparr>"
      and ne: "req_method q \<noteq> []" "req_target q \<noteq> []"
      and h: "parse_headers (ascii ''malformed header line'') r1 [] = Inr (hs, r2)"
      and b: "read_body (case content_length hs of Some n \<Rightarrow> n | None \<Rightarrow> 0) r2 = Inr (body, rest')"
    using assms by (auto simp: parse_request_def Let_def split: sum.splits prod.splits if_splits)
  have "utf8_valid (nth_or_empty (split_char 32 (trim_end_crlf line)) i)" for i
    using utf8_valid_pieces [OF utf8_valid_trim_end_crlf [OF read_line_utf8 [OF l(1)]], of 32] by (simp add: nth_or_empty_def)
  then show "utf8_valid (req_method q)" "utf8_valid (req_target q)" unfolding q by simp_all
  show "list_all utf8_header (req_headers q)" using parse_headers_utf8 [OF h] by (simp add: q)
  show "req_method q \<noteq> []" "req_target q \<noteq> []" by (fact ne)+
  show "length (req_body q) = (case content_length (req_headers q) of Some n \<Rightarrow> n | None \<Rightarrow> 0)"
    using b by (auto simp: q read_body_def read_exact_def split: if_splits)
qed

lemma request_key_utf8:
  assumes "list_all utf8_header (req_headers q)" and "request_header q name = Some k"
  shows "utf8_valid k" "k \<in> snd ` set (req_headers q)"
proof -
  obtain h where "h \<in> set (req_headers q)" "k = snd h"
    using assms(2) by (auto simp: request_header_def find_header_def find_Some_iff) (metis nth_mem)
  then show "utf8_valid k" "k \<in> snd ` set (req_headers q)" using assms(1) by (auto simp: list_all_iff)
qed

text \<open>C26. Every request that \<open>parse_request\<close> accepts from arbitrary bytes has the Rust types: method, target, header
  names and header values are valid UTF-8, method and target are not empty, and the body has exactly the
  announced length.\<close>

theorem parse_request_well_typed:
  assumes "parse_request inp = Inr (Some q, rest')"
  shows "utf8_valid (req_method q) \<and> utf8_valid (req_target q) \<and> list_all utf8_header (req_headers q) \<and>
    req_method q \<noteq> [] \<and> req_target q \<noteq> [] \<and>
    length (req_body q) = (case content_length (req_headers q) of Some n \<Rightarrow> n | None \<Rightarrow> 0)"
  using parse_request_valid [OF assms] by simp

lemma parse_headers_eof:
  "parse_headers msg \<lparr>rd_bytes = [], rd_fails = False\<rparr> hs = Inr (hs, \<lparr>rd_bytes = [], rd_fails = False\<rparr>)"
  by (subst parse_headers.simps) (simp add: read_line_def Let_def)

theorem parse_request_well_typed_witness:
  "\<exists>q rest'. parse_request \<lparr>rd_bytes = ascii ''GET /'', rd_fails = False\<rparr> = Inr (Some q, rest') \<and>
     utf8_valid (req_method q) \<and> utf8_valid (req_target q)"
proof -
  have l: "read_line \<lparr>rd_bytes = ascii ''GET /'', rd_fails = False\<rparr> = Inr (ascii ''GET /'', \<lparr>rd_bytes = [], rd_fails = False\<rparr>)"
    by code_simp
  have p: "split_char 32 (trim_end_crlf (ascii ''GET /'')) = [ascii ''GET'', ascii ''/'']" "ascii ''GET /'' \<noteq> []"
    "ascii ''GET'' \<noteq> []" "ascii ''/'' \<noteq> []" by code_simp+
  have "parse_request \<lparr>rd_bytes = ascii ''GET /'', rd_fails = False\<rparr> = Inr (Some \<lparr>req_method = ascii ''GET'',
      req_target = ascii ''/'', req_headers = [], req_body = []\<rparr>, \<lparr>rd_bytes = [], rd_fails = False\<rparr>)"
    unfolding parse_request_def l by (simp add: p parse_headers_eof Let_def nth_or_empty_def content_length_def find_header_def read_body_def)
  from parse_request_well_typed [OF this] this show ?thesis by blast
qed

end
