(* ===== verification/Onced_Gateway.thy ===== *)
theory Onced_Gateway
  imports Onced_Http Onced_Abuse Onced_Hash Onced_Wal
begin

text \<open>
  \<^verbatim>\<open>onced-gateway/src/gateway.rs\<close>: the handler that puts the engine and the abuse rules in front
  of a backend. A gateway is generic in its store (the dictionary \<open>ops\<close>, as for the engine);
  the backend is the argument \<open>fwd\<close>, which gives the response or the I/O error of a request.
  \<open>gateway_exec\<close> interleaves the two locked phases of any number of requests in any order, as
  the router does; the engine inside a gateway then runs exactly the calls of those phases,
  so the guarantees of the engine hold for HTTP traffic.
\<close>

section \<open>Metrics\<close>

record metrics =
  requests_total :: u64
  created :: u64
  replayed :: u64
  in_progress :: u64
  mismatch :: u64
  denied :: u64
  upstream_error :: u64
  passthrough :: u64

definition metrics_default :: metrics where
  "metrics_default =
     \<lparr>requests_total = 0, created = 0, replayed = 0, in_progress = 0, mismatch = 0, denied = 0,
      upstream_error = 0, passthrough = 0\<rparr>"

definition metrics_merge :: "metrics \<Rightarrow> metrics \<Rightarrow> metrics" where
  "metrics_merge m other =
     \<lparr>requests_total = requests_total m + requests_total other,
      created = created m + created other,
      replayed = replayed m + replayed other,
      in_progress = in_progress m + in_progress other,
      mismatch = mismatch m + mismatch other,
      denied = denied m + denied other,
      upstream_error = upstream_error m + upstream_error other,
      passthrough = passthrough m + passthrough other\<rparr>"

definition metrics_render :: "metrics \<Rightarrow> bytes" where
  "metrics_render m =
     ascii ''# HELP onced_requests_total Proxied requests handled.'' @ [10]
     @ ascii ''# TYPE onced_requests_total counter'' @ [10]
     @ ascii ''onced_requests_total '' @ print_uint (unat (requests_total m)) @ [10]
     @ ascii ''# HELP onced_outcomes_total Responses by how they were produced.'' @ [10]
     @ ascii ''# TYPE onced_outcomes_total counter'' @ [10]
     @ concat (map (\<lambda>(outcome, n).
         ascii ''onced_outcomes_total{outcome='' @ [34] @ ascii outcome @ [34] @ ascii ''} '' @ print_uint (unat n) @ [10])
         [(''created'', created m), (''replayed'', replayed m), (''in_progress'', in_progress m),
          (''mismatch'', mismatch m), (''denied'', denied m), (''upstream_error'', upstream_error m),
          (''passthrough'', passthrough m)])"

section \<open>Responses\<close>

definition path_of :: "http_request \<Rightarrow> bytes" where
  "path_of request = hd (split_char 63 (req_target request))"

definition ONCED_STATUS :: bytes where
  "ONCED_STATUS = ascii ''Onced-Status''"

definition health_ok :: http_response where
  "health_ok = \<lparr>res_status = 200, res_headers = [(ONCED_STATUS, ascii ''healthy'')], res_body = ascii ''ok''\<rparr>"

definition metrics_response :: "metrics \<Rightarrow> http_response" where
  "metrics_response m =
     \<lparr>res_status = 200, res_headers = [(ascii ''Content-Type'', ascii ''text/plain; version=0.0.4'')],
      res_body = metrics_render m\<rparr>"

definition canonical_request :: "http_request \<Rightarrow> bytes" where
  "canonical_request request =
     to_be_bytes 4 (of_nat (length (req_method request)) :: u32) @ req_method request
     @ to_be_bytes 4 (of_nat (length (req_target request)) :: u32) @ req_target request
     @ to_be_bytes 4 (of_nat (length (req_body request)) :: u32) @ req_body request"

definition fingerprint_of :: "http_request \<Rightarrow> bytes \<Rightarrow> request_fingerprint" where
  "fingerprint_of request server_key = RequestFingerprint (hmac_sha256 server_key (canonical_request request))"

definition to_outcome :: "http_response \<Rightarrow> cached_outcome" where
  "to_outcome response =
     \<lparr>co_status = res_status response,
      co_headers = fold (\<lambda>(name, value) m. bt_insert name value m) (res_headers response) [],
      co_body = res_body response\<rparr>"

definition from_outcome :: "cached_outcome \<Rightarrow> http_response" where
  "from_outcome outcome =
     \<lparr>res_status = co_status outcome, res_headers = co_headers outcome, res_body = co_body outcome\<rparr>"

definition tag :: "http_response \<Rightarrow> bytes \<Rightarrow> http_response" where
  "tag response status = response\<lparr>res_headers := res_headers response @ [(ONCED_STATUS, status)]\<rparr>"

definition tagged_status :: "u16 \<Rightarrow> bytes \<Rightarrow> http_response" where
  "tagged_status code status = \<lparr>res_status = code, res_headers = [(ONCED_STATUS, status)], res_body = []\<rparr>"

fun action_name :: "abuse_action \<Rightarrow> bytes" where
  "action_name Challenge = ascii ''challenge''"
| "action_name Throttle = ascii ''throttle''"
| "action_name Block = ascii ''block''"

definition too_many_requests :: "bytes \<Rightarrow> abuse_action \<Rightarrow> http_response" where
  "too_many_requests rule action =
     \<lparr>res_status = 429,
      res_headers = [(ONCED_STATUS, ascii ''denied''), (ascii ''Onced-Rule'', rule),
                     (ascii ''Onced-Action'', action_name action)],
      res_body = []\<rparr>"

definition bad_gateway :: http_response where
  "bad_gateway = \<lparr>res_status = 502, res_headers = [(ONCED_STATUS, ascii ''upstream-error'')], res_body = []\<rparr>"

section \<open>The gateway\<close>

record 's gateway =
  gw_engine :: "'s engine"
  gw_rules :: rule_set
  gw_metrics :: metrics
  gw_fingerprint_key :: bytes

datatype forward_ticket = ForwardTicket (ticket_token: "run_token option")

datatype begin_phase = Phase_Done http_response | Phase_Forward forward_ticket

definition gateway_new :: "'s engine \<Rightarrow> rule_set \<Rightarrow> 's gateway" where
  "gateway_new e rs =
     \<lparr>gw_engine = e, gw_rules = rs, gw_metrics = metrics_default, gw_fingerprint_key = replicate 32 0\<rparr>"

definition with_fingerprint_key :: "'s gateway \<Rightarrow> bytes \<Rightarrow> 's gateway" where
  "with_fingerprint_key g key = g\<lparr>gw_fingerprint_key := key\<rparr>"

definition gateway_prune_expired :: "'s store_ops \<Rightarrow> 's gateway \<Rightarrow> u64 \<Rightarrow> 's gateway" where
  "gateway_prune_expired ops g now = g\<lparr>gw_engine := engine_prune_expired ops (gw_engine g) now\<rparr>"

definition count_replayed :: "metrics \<Rightarrow> metrics" where
  "count_replayed m = m\<lparr>replayed := replayed m + 1\<rparr>"

definition count_upstream_error :: "metrics \<Rightarrow> metrics" where
  "count_upstream_error m = m\<lparr>upstream_error := upstream_error m + 1\<rparr>"

definition gw_begin_phase :: "'s store_ops \<Rightarrow> 's gateway \<Rightarrow> http_request \<Rightarrow> u64 \<Rightarrow> begin_phase \<times> 's gateway" where
  "gw_begin_phase ops g request now =
     (let m = (gw_metrics g)\<lparr>requests_total := requests_total (gw_metrics g) + 1\<rparr>;
          g = g\<lparr>gw_metrics := m\<rparr>
      in case request_header request (ascii ''idempotency-key'') of
           None \<Rightarrow> (Phase_Forward (ForwardTicket None), g)
         | Some k \<Rightarrow>
             let key = IdempotencyKey k;
                 fingerprint = fingerprint_of request (gw_fingerprint_key g);
                 (b, e) = engine_begin ops (gw_engine g) key fingerprint now;
                 g = g\<lparr>gw_engine := e\<rparr>
             in case b of
                  Begin_Run token \<Rightarrow> (Phase_Forward (ForwardTicket (Some token)), g)
                | Begin_Replay outcome \<Rightarrow>
                    (Phase_Done (tag (from_outcome outcome) (ascii ''replayed'')), g\<lparr>gw_metrics := count_replayed m\<rparr>)
                | Begin_InProgress \<Rightarrow>
                    (Phase_Done (tagged_status 409 (ascii ''in-progress'')),
                     g\<lparr>gw_metrics := m\<lparr>in_progress := in_progress m + 1\<rparr>\<rparr>)
                | Begin_Mismatch \<Rightarrow>
                    (Phase_Done (tagged_status 422 (ascii ''mismatch'')),
                     g\<lparr>gw_metrics := m\<lparr>mismatch := mismatch m + 1\<rparr>\<rparr>))"

definition gw_complete_phase ::
    "'s store_ops \<Rightarrow> 's gateway \<Rightarrow> forward_ticket \<Rightarrow> io_error + http_response \<Rightarrow> u64 \<Rightarrow> http_response \<times> 's gateway" where
  "gw_complete_phase ops g ticket forwarded now =
     (let m = gw_metrics g
      in case (ticket_token ticket, forwarded) of
           (Some token, Inr response) \<Rightarrow>
             if 500 \<le> res_status response
             then (response, g\<lparr>gw_metrics := count_upstream_error m\<rparr>)
             else
               (tag response (ascii ''created''),
                g\<lparr>gw_engine := snd (engine_complete ops (gw_engine g) token (to_outcome response) now),
                  gw_metrics := m\<lparr>created := created m + 1\<rparr>\<rparr>)
         | (Some token, Inl err) \<Rightarrow> (bad_gateway, g\<lparr>gw_metrics := count_upstream_error m\<rparr>)
         | (None, Inr response) \<Rightarrow> (response, g\<lparr>gw_metrics := m\<lparr>passthrough := passthrough m + 1\<rparr>\<rparr>)
         | (None, Inl err) \<Rightarrow> (bad_gateway, g\<lparr>gw_metrics := count_upstream_error m\<rparr>))"

definition handle_after_abuse ::
    "'s store_ops \<Rightarrow> (http_request \<Rightarrow> io_error + http_response) \<Rightarrow> 's gateway \<Rightarrow> http_request \<Rightarrow> u64 \<Rightarrow>
       http_response \<times> 's gateway" where
  "handle_after_abuse ops fwd g request now =
     (case gw_begin_phase ops g request now of
        (Phase_Done response, g) \<Rightarrow> (response, g)
      | (Phase_Forward ticket, g) \<Rightarrow> gw_complete_phase ops g ticket (fwd request) now)"

definition identity_of :: "http_request \<Rightarrow> bytes" where
  "identity_of request =
     (case request_header request (ascii ''x-forwarded-for'') of Some i \<Rightarrow> i | None \<Rightarrow> ascii ''anonymous'')"

definition gateway_handle ::
    "((bytes, window_counter) hashmap \<Rightarrow> (bytes, window_counter) hashmap) \<Rightarrow> 's store_ops \<Rightarrow>
       (http_request \<Rightarrow> io_error + http_response) \<Rightarrow> 's gateway \<Rightarrow> http_request \<Rightarrow> u64 \<Rightarrow>
       http_response \<times> 's gateway" where
  "gateway_handle ord ops fwd g request now =
     (if path_of request = ascii ''/healthz'' then (health_ok, g)
      else if path_of request = ascii ''/metrics'' then (metrics_response (gw_metrics g), g)
      else
        let (v, rs) = ruleset_evaluate ord (gw_rules g) (identity_of request) now;
            g = g\<lparr>gw_rules := rs\<rparr>
        in case v of
             Verdict_Deny rule action \<Rightarrow>
               (too_many_requests rule action,
                g\<lparr>gw_metrics := (gw_metrics g)\<lparr>denied := denied (gw_metrics g) + 1\<rparr>\<rparr>)
           | Verdict_Allow \<Rightarrow> handle_after_abuse ops fwd g request now)"

definition noop_forward :: "http_request \<Rightarrow> io_error + http_response" where
  "noop_forward request = Inl IoFailure"

section \<open>Interleaved requests\<close>

text \<open>The locked phases of all requests of a gateway, in the order the lock admits them.\<close>

datatype gateway_event =
    GwBegin http_request u64
  | GwComplete forward_ticket "io_error + http_response" u64
  | GwPrune u64

fun gateway_step :: "'s store_ops \<Rightarrow> 's gateway \<Rightarrow> gateway_event \<Rightarrow> 's gateway" where
  "gateway_step ops g (GwBegin r now) = snd (gw_begin_phase ops g r now)"
| "gateway_step ops g (GwComplete t f now) = snd (gw_complete_phase ops g t f now)"
| "gateway_step ops g (GwPrune now) = gateway_prune_expired ops g now"

definition gateway_exec :: "'s store_ops \<Rightarrow> 's gateway \<Rightarrow> gateway_event list \<Rightarrow> 's gateway" where
  "gateway_exec ops g evs = foldl (gateway_step ops) g evs"

text \<open>The calls of the engine that an event makes.\<close>

definition request_key :: "http_request \<Rightarrow> idempotency_key option" where
  "request_key r = map_option IdempotencyKey (request_header r (ascii ''idempotency-key''))"

fun gateway_calls :: "bytes \<Rightarrow> gateway_event \<Rightarrow> engine_event list" where
  "gateway_calls fk (GwBegin r now) =
     (case request_key r of None \<Rightarrow> [] | Some k \<Rightarrow> [EvBegin k (fingerprint_of r fk) now])"
| "gateway_calls fk (GwComplete (ForwardTicket (Some tok)) (Inr response) now) =
     (if 500 \<le> res_status response then [] else [EvComplete tok (to_outcome response) now])"
| "gateway_calls fk (GwComplete _ _ now) = []"
| "gateway_calls fk (GwPrune now) = [EvPrune now]"

lemma gateway_step_engine:
  "gw_engine (gateway_step ops g ev) = engine_exec ops (gw_engine g) (gateway_calls (gw_fingerprint_key g) ev)"
  "gw_fingerprint_key (gateway_step ops g ev) = gw_fingerprint_key g"
proof -
  have "gw_engine (gateway_step ops g ev) = engine_exec ops (gw_engine g) (gateway_calls (gw_fingerprint_key g) ev) \<and>
    gw_fingerprint_key (gateway_step ops g ev) = gw_fingerprint_key g"
    by (cases "(gw_fingerprint_key g, ev)" rule: gateway_calls.cases)
      (auto simp: gw_begin_phase_def gw_complete_phase_def gateway_prune_expired_def request_key_def Let_def
        split: option.split prod.split begin_result.split sum.split)
  then show "gw_engine (gateway_step ops g ev) = engine_exec ops (gw_engine g) (gateway_calls (gw_fingerprint_key g) ev)"
    "gw_fingerprint_key (gateway_step ops g ev) = gw_fingerprint_key g" by auto
qed

lemma gateway_exec_simps [simp]:
  "gateway_exec ops g [] = g" "gateway_exec ops g (ev # evs) = gateway_exec ops (gateway_step ops g ev) evs"
  "gateway_exec ops g (xs @ ys) = gateway_exec ops (gateway_exec ops g xs) ys"
  by (simp_all add: gateway_exec_def)

text \<open>A gateway is a client of its engine: it makes no other call.\<close>

lemma gateway_exec_engine:
  "gw_engine (gateway_exec ops g evs) =
     engine_exec ops (gw_engine g) (concat (map (gateway_calls (gw_fingerprint_key g)) evs)) \<and>
   gw_fingerprint_key (gateway_exec ops g evs) = gw_fingerprint_key g"
  by (induction evs arbitrary: g) (simp_all add: gateway_step_engine)

fun gw_at_or_after :: "u64 \<Rightarrow> gateway_event \<Rightarrow> bool" where
  "gw_at_or_after t (GwBegin r now) \<longleftrightarrow> t \<le> now"
| "gw_at_or_after t (GwComplete tk f now) \<longleftrightarrow> t \<le> now"
| "gw_at_or_after t (GwPrune now) \<longleftrightarrow> t \<le> now"

lemma calls_at_or_after:
  "\<forall>ev \<in> set evs. \<not> gw_at_or_after t ev \<Longrightarrow>
   \<forall>c \<in> set (concat (map (gateway_calls fk) evs)). \<not> event_at_or_after t c"
proof (intro ballI)
  fix c assume h: "\<forall>ev \<in> set evs. \<not> gw_at_or_after t ev" and c: "c \<in> set (concat (map (gateway_calls fk) evs))"
  then obtain ev where ev: "ev \<in> set evs" "c \<in> set (gateway_calls fk ev)" by auto
  with h have "\<not> gw_at_or_after t ev" by blast
  with ev(2) show "\<not> event_at_or_after t c"
    by (cases "(fk, ev)" rule: gateway_calls.cases) (auto split: option.splits if_splits)
qed

lemma calls_complete:
  assumes "EvComplete tok oc t \<in> set (concat (map (gateway_calls fk) evs))"
  shows "\<exists>f t. GwComplete (ForwardTicket (Some tok)) f t \<in> set evs"
proof -
  from assms obtain ev where ev: "ev \<in> set evs" "EvComplete tok oc t \<in> set (gateway_calls fk ev)" by auto
  then have "\<exists>f. ev = GwComplete (ForwardTicket (Some tok)) f t"
    by (cases "(fk, ev)" rule: gateway_calls.cases) (auto split: option.splits if_splits)
  with ev(1) show ?thesis by blast
qed

section \<open>Outcomes\<close>

lemma map_of_fold_insert:
  "map_of (fold (\<lambda>(n, v) m. bt_insert n v m) hs m) k = (case map_of (rev hs) k of Some v \<Rightarrow> Some v | None \<Rightarrow> map_of m k)"
  by (induction hs arbitrary: m) (auto simp: map_simps map_of_append map_add_def split: option.split)

lemma to_from_outcome:
  "res_status (from_outcome (to_outcome r)) = res_status r" "res_body (from_outcome (to_outcome r)) = res_body r"
  "map_of (res_headers (from_outcome (to_outcome r))) k = map_of (rev (res_headers r)) k"
  by (simp_all add: from_outcome_def to_outcome_def map_of_fold_insert split: option.split)

lemma from_to_outcome_sorted:
  "sorted_wrt (<) (map fst (res_headers r)) \<Longrightarrow> from_outcome (to_outcome r) = r"
  using bt_rebuild [of "[]" "res_headers r"] by (simp add: from_outcome_def to_outcome_def)

section \<open>Metrics\<close>

text \<open>The sum of the series \<open>onced_outcomes_total\<close> that \<open>render\<close> prints.\<close>

definition outcomes_total :: "metrics \<Rightarrow> u64" where
  "outcomes_total m =
     created m + replayed m + in_progress m + mismatch m + denied m + upstream_error m + passthrough m"

lemma handle_after_abuse_metrics:
  "requests_total (gw_metrics (snd (handle_after_abuse ops fwd g r now))) = requests_total (gw_metrics g) + 1 \<and>
   denied (gw_metrics (snd (handle_after_abuse ops fwd g r now))) = denied (gw_metrics g) \<and>
   outcomes_total (gw_metrics (snd (handle_after_abuse ops fwd g r now))) = outcomes_total (gw_metrics g) + 1"
  by (auto simp: handle_after_abuse_def gw_begin_phase_def gw_complete_phase_def Let_def outcomes_total_def
      count_replayed_def count_upstream_error_def
      split: option.split prod.split begin_result.split sum.split)

definition proxied :: "http_request \<Rightarrow> bool" where
  "proxied r \<longleftrightarrow> path_of r \<noteq> ascii ''/healthz'' \<and> path_of r \<noteq> ascii ''/metrics''"

lemma gateway_handle_metrics:
  fixes g :: "'s gateway"
  defines "m \<equiv> gw_metrics g"
  shows "let m' = gw_metrics (snd (gateway_handle ord ops fwd g r now)) in
    outcomes_total m' = outcomes_total m + (if proxied r then 1 else 0) \<and>
    requests_total m' + denied m' = requests_total m + denied m + (if proxied r then 1 else 0)"
proof (cases "proxied r")
  case True
  obtain v rs where v: "ruleset_evaluate ord (gw_rules g) (identity_of r) now = (v, rs)" by fastforce
  with True show ?thesis
    by (cases v) (simp_all add: gateway_handle_def proxied_def handle_after_abuse_metrics m_def, simp add: outcomes_total_def)
qed (auto simp: gateway_handle_def proxied_def m_def)

section \<open>What a client sees\<close>

lemma begin_phase_answer:
  assumes "request_key r = Some k"
  shows "fst (gw_begin_phase ops g r now) =
    (case fst (engine_begin ops (gw_engine g) k (fingerprint_of r (gw_fingerprint_key g)) now) of
       Begin_Run tok \<Rightarrow> Phase_Forward (ForwardTicket (Some tok))
     | Begin_Replay oc \<Rightarrow> Phase_Done (tag (from_outcome oc) (ascii ''replayed''))
     | Begin_InProgress \<Rightarrow> Phase_Done (tagged_status 409 (ascii ''in-progress''))
     | Begin_Mismatch \<Rightarrow> Phase_Done (tagged_status 422 (ascii ''mismatch'')))"
  using assms
  by (auto simp: gw_begin_phase_def request_key_def Let_def split: prod.split begin_result.split)

lemma begin_phase_token:
  assumes "fst (gw_begin_phase ops g r now) = Phase_Forward (ForwardTicket (Some tok))"
  shows "request_key r = Some (tok_key tok)"
    and "fst (engine_begin ops (gw_engine g) (tok_key tok) (fingerprint_of r (gw_fingerprint_key g)) now) = Begin_Run tok"
proof -
  obtain k where k: "request_key r = Some k"
    using assms by (cases "request_key r") (auto simp: gw_begin_phase_def request_key_def Let_def)
  with assms have run: "fst (engine_begin ops (gw_engine g) k (fingerprint_of r (gw_fingerprint_key g)) now) = Begin_Run tok"
    by (auto simp: begin_phase_answer split: begin_result.splits)
  then have "tok_key tok = k" by (auto simp: engine_defs Let_def split: begin_action.splits)
  with k run show "request_key r = Some (tok_key tok)"
    "fst (engine_begin ops (gw_engine g) (tok_key tok) (fingerprint_of r (gw_fingerprint_key g)) now) = Begin_Run tok"
    by simp_all
qed

context key_store
begin

lemma begin_phase_run:
  assumes "inv (eng_store (gw_engine g))"
    and "fst (gw_begin_phase ops g r now) = Phase_Forward (ForwardTicket (Some tok))"
  shows "store_get ops (eng_store (gw_engine (snd (gw_begin_phase ops g r now)))) (tok_key tok) =
      Some (InProgress (tok_fence tok) (fingerprint_of r (gw_fingerprint_key g))
        (saturating_add now (lease_ms (gw_engine g))))"
    and "inv (eng_store (gw_engine (snd (gw_begin_phase ops g r now))))"
proof -
  note tok = begin_phase_token [OF assms(2)]
  have e: "gw_engine (snd (gw_begin_phase ops g r now)) =
      snd (engine_begin ops (gw_engine g) (tok_key tok) (fingerprint_of r (gw_fingerprint_key g)) now)"
    using gateway_step_engine(1) [of ops g "GwBegin r now"] tok(1) by simp
  show "inv (eng_store (gw_engine (snd (gw_begin_phase ops g r now))))"
    unfolding e using begin_store(1) [OF assms(1)] .
  have "tok_fence tok = Fence (next_fence (gw_engine g))"
    "begin_decision (ttl_ms (gw_engine g)) (fingerprint_of r (gw_fingerprint_key g)) now
       (store_get ops (eng_store (gw_engine g)) (tok_key tok)) = Act_Start"
    using tok(2) unfolding begin_result by (cases tok, auto split: begin_action.splits)+
  then show "store_get ops (eng_store (gw_engine (snd (gw_begin_phase ops g r now)))) (tok_key tok) =
      Some (InProgress (tok_fence tok) (fingerprint_of r (gw_fingerprint_key g))
        (saturating_add now (lease_ms (gw_engine g))))"
    unfolding e by (simp add: begin_store(2) [OF assms(1)])
qed

lemma gateway_lease:
  assumes "inv (eng_store (gw_engine g))"
    and "store_get ops (eng_store (gw_engine g)) (tok_key tok) = Some (InProgress (tok_fence tok) fp l)"
    and "\<forall>ev \<in> set evs. \<not> gw_at_or_after l ev"
    and "\<forall>f t. GwComplete (ForwardTicket (Some tok)) f t \<notin> set evs"
  shows "store_get ops (eng_store (gw_engine (gateway_exec ops g evs))) (tok_key tok) =
      Some (InProgress (tok_fence tok) fp l)"
    and "inv (eng_store (gw_engine (gateway_exec ops g evs)))"
proof -
  let ?cs = "concat (map (gateway_calls (gw_fingerprint_key g)) evs)"
  have e: "gw_engine (gateway_exec ops g evs) = engine_exec ops (gw_engine g) ?cs"
    using gateway_exec_engine by blast
  have tk: "\<lparr>tok_key = tok_key tok, tok_fence = tok_fence tok\<rparr> = tok" by simp
  have "\<forall>oc t. EvComplete \<lparr>tok_key = tok_key tok, tok_fence = tok_fence tok\<rparr> oc t \<notin> set ?cs"
    unfolding tk using calls_complete [of tok _ _ "gw_fingerprint_key g" evs] assms(4) by blast
  then show "store_get ops (eng_store (gw_engine (gateway_exec ops g evs))) (tok_key tok) =
      Some (InProgress (tok_fence tok) fp l)"
    unfolding e using assms(1,2) calls_at_or_after [OF assms(3)] by (intro lease_exec)
  show "inv (eng_store (gw_engine (gateway_exec ops g evs)))" unfolding e by (rule exec_inv) fact
qed

lemma gateway_replays:
  assumes "inv (eng_store (gw_engine g))"
    and "store_get ops (eng_store (gw_engine g)) (tok_key tok) = Some (InProgress (tok_fence tok) fp l)"
    and "res_status response < 500"
    and "\<forall>ev \<in> set evs. \<not> gw_at_or_after (saturating_add t (ttl_ms (gw_engine g))) ev"
    and "now < saturating_add t (ttl_ms (gw_engine g))" and "request_key r = Some (tok_key tok)"
    and "g' = gateway_exec ops g (GwComplete (ForwardTicket (Some tok)) (Inr response) t # evs)"
  shows "fst (gw_begin_phase ops g' r now) =
    (if fingerprint_of r (gw_fingerprint_key g) = fp
     then Phase_Done (tag (from_outcome (to_outcome response)) (ascii ''replayed''))
     else Phase_Done (tagged_status 422 (ascii ''mismatch'')))"
proof -
  let ?fk = "gw_fingerprint_key g"
  have e: "gw_engine g' = engine_exec ops (gw_engine g)
      (EvComplete tok (to_outcome response) t # concat (map (gateway_calls ?fk) evs))"
    and fk: "gw_fingerprint_key g' = ?fk"
    using gateway_exec_engine [of ops g "GwComplete (ForwardTicket (Some tok)) (Inr response) t # evs"] assms(3,7)
    by (simp_all add: not_le [symmetric])
  show ?thesis
    unfolding begin_phase_answer [OF assms(6)] e fk
    using replays_until_ttl [OF assms(1,2) calls_at_or_after [OF assms(4)] assms(5)] by simp
qed

end

section \<open>Main properties\<close>

text \<open>The backend runs once per key. Let a keyed request be forwarded at \<open>now\<close>. While its lease lasts and it has
  not completed, every request with the key, through any interleaving of other requests, is answered 409 or
  422 without touching the backend. Once the response (below 500) is handed back within the lease,
  every request with the key is answered from the cache until the outcome expires: the replayed response for the
  same fingerprint, 422 for another.\<close>

lemma gateway_runs_once:
  assumes "ws_inv (eng_store (gw_engine g))"
    and "gw_begin_phase (wal_ops ord) g r now = (Phase_Forward (ForwardTicket (Some tok)), g1)"
    and "\<forall>ev \<in> set evs. \<not> gw_at_or_after (saturating_add now (lease_ms (gw_engine g))) ev"
    and "\<forall>f t. GwComplete (ForwardTicket (Some tok)) f t \<notin> set evs"
    and "res_status response < 500"
    and "\<forall>ev \<in> set evs'. \<not> gw_at_or_after (saturating_add t (ttl_ms (gw_engine g))) ev"
    and "request_key r' = request_key r"
  shows "let g2 = gateway_exec (wal_ops ord) g1 evs;
      g3 = gateway_exec (wal_ops ord) g2 (GwComplete (ForwardTicket (Some tok)) (Inr response) t # evs');
      same = (fingerprint_of r' (gw_fingerprint_key g) = fingerprint_of r (gw_fingerprint_key g))
    in (now' < saturating_add now (lease_ms (gw_engine g)) \<longrightarrow>
         fst (gw_begin_phase (wal_ops ord) g2 r' now') =
           (if same then Phase_Done (tagged_status 409 (ascii ''in-progress''))
            else Phase_Done (tagged_status 422 (ascii ''mismatch'')))) \<and>
       (now' < saturating_add t (ttl_ms (gw_engine g)) \<longrightarrow>
         fst (gw_begin_phase (wal_ops ord) g3 r' now') =
           (if same then Phase_Done (tag (from_outcome (to_outcome response)) (ascii ''replayed''))
            else Phase_Done (tagged_status 422 (ascii ''mismatch''))))"
proof -
  let ?o = "wal_ops ord" and ?fk = "gw_fingerprint_key g"
  let ?l = "saturating_add now (lease_ms (gw_engine g))"
  have fwd: "fst (gw_begin_phase ?o g r now) = Phase_Forward (ForwardTicket (Some tok))"
    and g1: "g1 = snd (gw_begin_phase ?o g r now)" using assms(2) by simp_all
  note run = wal.begin_phase_run [OF assms(1) fwd, folded g1]
  have key: "request_key r' = Some (tok_key tok)" using begin_phase_token(1) [OF fwd] assms(7) by simp
  have c: "gw_engine g1 = engine_exec ?o (gw_engine g) (gateway_calls ?fk (GwBegin r now))" "gw_fingerprint_key g1 = ?fk"
    using gateway_step_engine [of ?o g "GwBegin r now"] by (simp_all add: g1)
  let ?g2 = "gateway_exec ?o g1 evs"
  note lease = wal.gateway_lease [OF run(2,1) assms(3,4)]
  have fk: "gw_fingerprint_key ?g2 = ?fk" and ttl: "ttl_ms (gw_engine ?g2) = ttl_ms (gw_engine g)"
    using gateway_exec_engine [of ?o g1 evs] c by simp_all
  have "fst (gw_begin_phase ?o ?g2 r' now') =
      (if fingerprint_of r' ?fk = fingerprint_of r ?fk then Phase_Done (tagged_status 409 (ascii ''in-progress''))
       else Phase_Done (tagged_status 422 (ascii ''mismatch'')))" if "now' < ?l"
    unfolding begin_phase_answer [OF key] wal.begin_result lease(1) fk using that by (simp flip: not_less)
  moreover note wal.gateway_replays [OF lease(2,1) assms(5), of evs' t now' r', unfolded ttl fk, OF assms(6) _ key refl]
  ultimately show ?thesis by (simp add: Let_def)
qed

text \<open>C15. A failed run is not cached and does not wedge its key: if the backend fails or answers 5xx, the store is as
  before the completion, and once the lease is over the same request is forwarded again.\<close>

theorem failed_run_retries:
  assumes "ws_inv (eng_store (gw_engine g))"
    and "gw_begin_phase (wal_ops ord) g r now = (Phase_Forward (ForwardTicket (Some tok)), g1)"
    and "case f of Inl err \<Rightarrow> True | Inr response \<Rightarrow> 500 \<le> res_status response"
    and "saturating_add now (lease_ms (gw_engine g)) \<le> now'"
  shows "gw_engine (snd (gw_complete_phase (wal_ops ord) g1 (ForwardTicket (Some tok)) f t)) = gw_engine g1 \<and>
    (\<exists>tok'. fst (gw_begin_phase (wal_ops ord) (snd (gw_complete_phase (wal_ops ord) g1 (ForwardTicket (Some tok)) f t)) r now') =
       Phase_Forward (ForwardTicket (Some tok')))"
proof -
  let ?o = "wal_ops ord" and ?g2 = "snd (gw_complete_phase (wal_ops ord) g1 (ForwardTicket (Some tok)) f t)"
  have fwd: "fst (gw_begin_phase ?o g r now) = Phase_Forward (ForwardTicket (Some tok))"
    and g1: "g1 = snd (gw_begin_phase ?o g r now)" using assms(2) by simp_all
  note run = wal.begin_phase_run [OF assms(1) fwd, folded g1]
  have same: "gw_engine ?g2 = gw_engine g1" "gw_fingerprint_key ?g2 = gw_fingerprint_key g1"
    using assms(3) by (auto simp: gw_complete_phase_def Let_def split: sum.splits)
  have fk: "gw_fingerprint_key g1 = gw_fingerprint_key g"
    using gateway_step_engine(2) [of ?o g "GwBegin r now"] by (simp add: g1)
  show ?thesis
    unfolding begin_phase_answer [OF begin_phase_token(1) [OF fwd]] wal.begin_result same run(1) fk
    using assms(4) by simp
qed

text \<open>C23. The counters add up: after any sequence of requests, the outcomes counted (created, replayed, in progress,
  mismatch, denied, upstream error and passthrough together) are as many as the requests other than those for
  \<open>/healthz\<close> and \<open>/metrics\<close>, and \<open>requests_total\<close> counts those of them that no abuse rule denied.\<close>

theorem metrics_balance:
  "let m = gw_metrics (foldl (\<lambda>g (fwd, r, now). snd (gateway_handle ord ops fwd g r now)) (gateway_new e rs) reqs)
   in outcomes_total m = of_nat (length (filter (\<lambda>(fwd, r, now). proxied r) reqs)) \<and>
      requests_total m = outcomes_total m - denied m"
proof -
  let ?run = "\<lambda>g reqs. gw_metrics (foldl (\<lambda>g (fwd, r, now). snd (gateway_handle ord ops fwd g r now)) g reqs)"
  let ?n = "\<lambda>reqs. of_nat (length (filter (\<lambda>(fwd, r, now). proxied r) reqs)) :: u64"
  have "outcomes_total (?run g reqs) = outcomes_total (gw_metrics g) + ?n reqs \<and>
    requests_total (?run g reqs) + denied (?run g reqs) = requests_total (gw_metrics g) + denied (gw_metrics g) + ?n reqs" for g
  proof (induction reqs arbitrary: g)
    case (Cons q reqs)
    obtain fwd r now where q: "q = (fwd, r, now)" by (cases q)
    show ?case using Cons.IH [of "snd (gateway_handle ord ops fwd g r now)"] gateway_handle_metrics [of ord ops fwd g r now]
      by (simp add: q Let_def)
  qed simp
  moreover have "outcomes_total (gw_metrics (gateway_new e rs)) = 0"
    "requests_total (gw_metrics (gateway_new e rs)) + denied (gw_metrics (gateway_new e rs)) = 0"
    by (simp_all add: gateway_new_def metrics_default_def outcomes_total_def)
  ultimately have "outcomes_total (?run (gateway_new e rs) reqs) = ?n reqs"
    "requests_total (?run (gateway_new e rs) reqs) + denied (?run (gateway_new e rs) reqs) = ?n reqs" by simp_all
  then show ?thesis unfolding Let_def by (simp add: eq_diff_eq)
qed

text \<open>C24. The fingerprint's canonical string is injective: requests with the same canonical string have the same method,
  target and body (each shorter than 4 GiB), so equal fingerprints of different requests are a collision of HMAC.\<close>

theorem canonical_request_inj:
  assumes "length (req_method r) < 2 ^ 32" "length (req_target r) < 2 ^ 32" "length (req_body r) < 2 ^ 32"
    and "length (req_method r') < 2 ^ 32" "length (req_target r') < 2 ^ 32" "length (req_body r') < 2 ^ 32"
  shows "canonical_request r = canonical_request r' \<longleftrightarrow>
    req_method r = req_method r' \<and> req_target r = req_target r' \<and> req_body r = req_body r'"
proof -
  have lp: "to_be_bytes 4 (of_nat (length a) :: u32) @ a @ x = to_be_bytes 4 (of_nat (length b) :: u32) @ b @ y \<longleftrightarrow> a = b \<and> x = y"
    if "length a < 2 ^ 32" "length b < 2 ^ 32" for a b x y :: bytes
  proof
    assume eq: "to_be_bytes 4 (of_nat (length a) :: u32) @ a @ x = to_be_bytes 4 (of_nat (length b) :: u32) @ b @ y"
    have l: "length (to_be_bytes 4 (of_nat (length a) :: u32)) = length (to_be_bytes 4 (of_nat (length b) :: u32))"
      by (simp only: length_to_be_bytes)
    from eq have "to_be_bytes 4 (of_nat (length a) :: u32) = to_be_bytes 4 (of_nat (length b) :: u32)" "a @ x = b @ y"
      unfolding append_eq_append_conv [OF disjI1 [OF l]] by blast+
    then have "(of_nat (length a) :: u32) = of_nat (length b)" by (simp add: to_be_bytes_inject)
    then have "unat (of_nat (length a) :: u32) = unat (of_nat (length b) :: u32)" by (rule arg_cong)
    then have "length a = length b" unfolding unat_of_nat_u32 [OF that(1)] unat_of_nat_u32 [OF that(2)] .
    with \<open>a @ x = b @ y\<close> show "a = b \<and> x = y" by simp
  qed simp
  show ?thesis
    by (simp only: canonical_request_def append_assoc lp [OF assms(1,4)] lp [OF assms(2,5)]
        lp [OF assms(3,6), of "[]" "[]", unfolded append_Nil2] simp_thms)
qed

text \<open>C25. What is replayed is what was cached: same status and body, and for every header name the value that name had
  last; the response is identical when its headers are strictly sorted by name. Repeated names (such as
  \<open>Set-Cookie\<close>) keep only their last value and the order is lost.\<close>

theorem replay_fidelity:
  "res_status (from_outcome (to_outcome r)) = res_status r \<and> res_body (from_outcome (to_outcome r)) = res_body r \<and>
   map_of (res_headers (from_outcome (to_outcome r))) = map_of (rev (res_headers r)) \<and>
   bt_wf (res_headers (from_outcome (to_outcome r))) \<and>
   (bt_wf (res_headers r) \<longrightarrow> from_outcome (to_outcome r) = r)"
proof -
  have "bt_wf m \<Longrightarrow> bt_wf (fold (\<lambda>(n, v) m. bt_insert n v m) hs m)" for hs :: "(bytes \<times> bytes) list" and m
    by (induction hs arbitrary: m) (auto simp: bt_wf_insert)
  then show ?thesis
    using from_to_outcome_sorted [of r] to_from_outcome [of r] by (auto simp: from_outcome_def to_outcome_def)
qed

theorem replay_fidelity_witness:
  "from_outcome (to_outcome \<lparr>res_status = 201, res_headers = [([97], [1]), ([98], [2])], res_body = [7]\<rparr>) =
     \<lparr>res_status = 201, res_headers = [([97], [1]), ([98], [2])], res_body = [7]\<rparr>"
proof -
  have "[97] < ([98] :: bytes)" by code_simp
  then show ?thesis
    using replay_fidelity [of "\<lparr>res_status = 201, res_headers = [([97], [1]), ([98], [2])], res_body = [7]\<rparr>"] by simp
qed

text \<open>C40. A completion that the engine refuses is served all the same: the caller of an overrun run gets its own
  response tagged as created and counted as created, although nothing was stored.\<close>

theorem stale_completion_served:
  assumes "fst (engine_complete ops (gw_engine g) tok (to_outcome response) t) \<noteq> Inr ()" and "res_status response < 500"
  shows "gw_complete_phase ops g (ForwardTicket (Some tok)) (Inr response) t =
    (tag response (ascii ''created''), g\<lparr>gw_metrics := (gw_metrics g)\<lparr>created := created (gw_metrics g) + 1\<rparr>\<rparr>)"
proof -
  have "snd (engine_complete ops (gw_engine g) tok (to_outcome response) t) = gw_engine g"
    using assms(1) by (auto simp: engine_complete_def split: option.splits key_state.splits if_splits)
  with assms(2) show ?thesis by (simp add: gw_complete_phase_def Let_def not_le [symmetric])
qed

section \<open>Instances\<close>

definition sample_gateway :: "wal_store gateway" where
  "sample_gateway = gateway_new
     \<lparr>eng_store = \<lparr>ws_index = [], ws_file = [], ws_pending = [], ws_sync_each = True, ws_chain_root = GENESIS\<rparr>,
      lease_ms = 1000, ttl_ms = 60000, next_fence = 1\<rparr> ruleset_new"

definition sample_request :: http_request where
  "sample_request = \<lparr>req_method = ascii ''POST'', req_target = ascii ''/charge'',
     req_headers = [(ascii ''Idempotency-Key'', [107])], req_body = [1]\<rparr>"

definition sample_ticket :: forward_ticket where
  "sample_ticket = ForwardTicket (Some \<lparr>tok_key = IdempotencyKey [107], tok_fence = Fence 1\<rparr>)"

lemma sample_request_key: "request_header sample_request (ascii ''idempotency-key'') = Some [107]"
  by code_simp

lemma sample_gateway_begin:
  "gw_begin_phase (wal_ops ord) sample_gateway sample_request 0 =
     (Phase_Forward sample_ticket, snd (gw_begin_phase (wal_ops ord) sample_gateway sample_request 0))"
  "ws_inv (eng_store (gw_engine sample_gateway))" "lease_ms (gw_engine sample_gateway) = 1000"
  "ttl_ms (gw_engine sample_gateway) = 60000"
  by (simp_all add: gw_begin_phase_def sample_request_key sample_gateway_def gateway_new_def engine_defs Let_def
      sample_ticket_def wal_ops_def ws_get_def ws_inv_def)

lemma sample_times: "saturating_add (0 :: u64) 1000 = 1000" "saturating_add (5 :: u64) 60000 = 60005"
  by (simp_all add: saturating_add_def)

theorem failed_run_retries_witness:
  "\<exists>tok'. fst (gw_begin_phase (wal_ops (\<lambda>m. m)) (snd (gw_complete_phase (wal_ops (\<lambda>m. m))
       (snd (gw_begin_phase (wal_ops (\<lambda>m. m)) sample_gateway sample_request 0)) sample_ticket (Inl UnexpectedEof) 5))
       sample_request 1000) = Phase_Forward (ForwardTicket (Some tok'))"
  using failed_run_retries [OF sample_gateway_begin(2) sample_gateway_begin(1) [unfolded sample_ticket_def],
      where f = "Inl UnexpectedEof" and now' = 1000 and t = 5 and ord = "\<lambda>m. m"]
  by (simp add: sample_gateway_begin(3,4) sample_times sample_ticket_def)

theorem stale_completion_served_witness:
  "fst (gw_complete_phase (wal_ops (\<lambda>m. m)) sample_gateway sample_ticket
     (Inr \<lparr>res_status = 201, res_headers = [], res_body = [7]\<rparr>) 5) =
   tag \<lparr>res_status = 201, res_headers = [], res_body = [7]\<rparr> (ascii ''created'')"
proof -
  have "fst (engine_complete (wal_ops (\<lambda>m. m)) (gw_engine sample_gateway) \<lparr>tok_key = IdempotencyKey [107], tok_fence = Fence 1\<rparr>
      (to_outcome \<lparr>res_status = 201, res_headers = [], res_body = [7]\<rparr>) 5) \<noteq> Inr ()"
    by (simp add: engine_complete_def sample_gateway_def gateway_new_def wal_ops_def ws_get_def)
  from stale_completion_served [OF this] show ?thesis by (simp add: sample_ticket_def)
qed

theorem canonical_request_inj_witness:
  "canonical_request \<lparr>req_method = [1, 2], req_target = [3], req_headers = [], req_body = []\<rparr> \<noteq>
   canonical_request \<lparr>req_method = [1], req_target = [2, 3], req_headers = [], req_body = []\<rparr>"
  by (subst canonical_request_inj) simp_all

end
