(* ===== verification/Onced_Node.thy ===== *)
theory Onced_Node
  imports Onced_Recovery
begin

text \<open>
  The nodes that start on an empty disk: what \<open>WalStore::open\<close> and \<open>Engine::with_ttl\<close> of
  \<^verbatim>\<open>onced-core\<close> give there, what every node reached from it satisfies, and sample values.
\<close>

section \<open>Concrete values and the node on an empty disk\<close>

definition sample_key :: idempotency_key where
  "sample_key = IdempotencyKey [107]"

definition sample_fp :: request_fingerprint where
  "sample_fp = RequestFingerprint (replicate 32 0)"

definition sample_outcome :: cached_outcome where
  "sample_outcome = \<lparr>co_status = 200, co_headers = [], co_body = [111, 107]\<rparr>"

text \<open>The node that \<open>open\<close> (strict) or \<open>open_buffered\<close> and \<open>with_ttl\<close> give on an empty file.\<close>

definition fresh_node :: "bool \<Rightarrow> u64 \<Rightarrow> u64 \<Rightarrow> wal_store engine" where
  "fresh_node sync lease ttl =
     \<lparr>eng_store = \<lparr>ws_index = [], ws_file = [], ws_pending = [], ws_sync_each = sync, ws_chain_root = GENESIS\<rparr>,
      lease_ms = lease, ttl_ms = ttl, next_fence = 1\<rparr>"

lemma fresh_node_sel [simp]:
  "ttl_ms (fresh_node sync lease ttl) = ttl" "lease_ms (fresh_node sync lease ttl) = lease"
  "next_fence (fresh_node sync lease ttl) = 1" "ws_sync_each (eng_store (fresh_node sync lease ttl)) = sync"
  "ws_get (eng_store (fresh_node sync lease ttl)) k = None"
  by (simp_all add: fresh_node_def ws_get_def)

lemma fresh_node_open:
  "open_with io_ok [] sync = Inr (eng_store (fresh_node sync lease ttl))"
  "engine_with_ttl (wal_ops ord) (eng_store (fresh_node sync lease ttl)) lease ttl = fresh_node sync lease ttl"
  using open_with_log [of "[]" "[]" sync]
  by (simp_all add: fresh_node_def engine_with_ttl_def ws_max_in_progress_fence_def List.map_filter_def)

lemma fresh_node_rep: "wal_rep (eng_store (fresh_node sync lease ttl)) [] []"
  by (simp add: fresh_node_def wal_rep_def log_ok_def)

lemma fresh_node_ok [simp]: "node_ok (fresh_node sync lease ttl)" "ws_inv (eng_store (fresh_node sync lease ttl))"
  using fresh_node_rep [of sync lease ttl] wal_rep_inv
  by (auto simp: node_ok_def wal_synced_def fresh_node_def)

lemma iteration_order_id [simp]: "iteration_order (\<lambda>m. m)"
  by (simp add: iteration_order_def)

lemma sample_utf8 [simp]: "utf8_valid [107]"
  by code_simp

lemma sample_events_ok [simp]:
  "event_ok (EvBegin sample_key sample_fp now)"
  "event_ok (EvComplete \<lparr>tok_key = sample_key, tok_fence = f\<rparr> sample_outcome now)"
  by (simp_all add: encodable_def wf_key_def wf_fp_def wf_str_def wf_outcome_def sample_key_def sample_fp_def
      sample_outcome_def put_simps put_headers_append)

lemma fresh_node_begin:
  "ws_get (eng_store (snd (engine_begin (wal_ops ord) (fresh_node sync lease ttl) k fp now))) k' =
     (if k' = k then Some (InProgress (Fence 1) fp (saturating_add now lease)) else None)"
  using wal.begin_store(2) [of "fresh_node sync lease ttl" ord k fp now k'] by simp

text \<open>Everything a reachable node satisfies.\<close>

lemma reachable_node:
  assumes "iteration_order ord" and "\<forall>ev \<in> set evs. event_ok (node_call ev)"
    and "node_exec ord (fresh_node sync lease ttl) evs = Inr e"
  shows "node_ok e" "ttl_ms e = ttl" "lease_ms e = lease" "ws_sync_each (eng_store e) = sync"
  using node_exec_ok [OF fresh_node_ok(1) assms(2,1), of sync lease ttl] assms(3) by auto

lemma strict_fences_exec:
  assumes "node_ok e" and "ws_sync_each (eng_store e)" and "iteration_order ord"
    and "\<forall>ev \<in> set evs. event_ok (node_call ev)" and "engine_fences (wal_ops ord) e"
    and "unat (next_fence e) + length evs < 2 ^ 64" and "node_exec ord e evs = Inr e'"
  shows "engine_fences (wal_ops ord) e' \<and> unat (next_fence e') \<le> unat (next_fence e) + length evs"
  using assms
proof (induction evs arbitrary: e)
  case Nil
  then show ?case by simp
next
  case (Cons ev evs)
  obtain e1 where e1: "node_step ord e ev = Inr e1" "node_ok e1"
    "ws_sync_each (eng_store e1) = ws_sync_each (eng_store e)"
    using node_step_ok [OF Cons.prems(1) _ Cons.prems(3), of ev] Cons.prems(4) by auto
  have ne: "next_fence e \<noteq> - 1" using Cons.prems(6) by (auto simp: unat_minus_one)
  note f = strict_fences_step [OF Cons.prems(1,2) _ Cons.prems(3,5) ne e1(1)]
  then show ?case using Cons.IH [of e1] Cons.prems e1 by simp
qed

lemma fresh_node_fences [simp]: "engine_fences (wal_ops ord) (fresh_node sync lease ttl)"
  by (simp add: engine_fences_def)

lemma node_exec_append:
  "node_exec ord e (xs @ ys) = (case node_exec ord e xs of Inl err \<Rightarrow> Inl err | Inr e' \<Rightarrow> node_exec ord e' ys)"
  by (induction xs arbitrary: e) (auto split: sum.split)

lemma node_exec_calls: "node_exec ord e (map Call cs) = Inr (engine_exec (wal_ops ord) e cs)"
  by (induction cs arbitrary: e) simp_all

end
