(* ===== verification/Onced_Service.thy ===== *)
theory Onced_Service
  imports Onced_Gateway Onced_Node
begin

text \<open>
  A gateway process over a strict write-ahead log, with a crash possible inside every request: the composition of
  \<^verbatim>\<open>onced-gateway/src/gateway.rs\<close> with the engine and the log of \<^verbatim>\<open>onced-core\<close>. A crash loses metrics and
  tickets and leaves the log as the file system has it; the next process reopens it. The service
  is simulated by its node, so what holds of the node through crashes holds of the answers a client sees.
\<close>

section \<open>Events\<close>

datatype service_event = SvCall gateway_event | SvCrash gateway_event nat

fun service_call :: "service_event \<Rightarrow> gateway_event" where
  "service_call (SvCall ev) = ev"
| "service_call (SvCrash ev n) = ev"

text \<open>A new process: the log is reopened and the gateway built again, as \<^verbatim>\<open>main\<close> does; metrics start at zero.\<close>

definition gateway_restart :: "(log \<Rightarrow> log) \<Rightarrow> wal_store gateway \<Rightarrow> bytes \<Rightarrow> wal_error + wal_store gateway" where
  "gateway_restart ord g img =
     map_sum id (\<lambda>e. with_fingerprint_key (gateway_new e ruleset_new) (gw_fingerprint_key g))
       (node_restart ord (gw_engine g) img)"

text \<open>The call of the engine that a crash interrupts; a crash outside a call is one in a \<open>flush\<close>.\<close>

definition crash_call :: "bytes \<Rightarrow> gateway_event \<Rightarrow> engine_event" where
  "crash_call fk ev = (case gateway_calls fk ev of [] \<Rightarrow> EvFlush | c # cs \<Rightarrow> c)"

fun service_step :: "(log \<Rightarrow> log) \<Rightarrow> wal_store gateway \<Rightarrow> service_event \<Rightarrow> wal_error + wal_store gateway" where
  "service_step ord g (SvCall ev) = Inr (gateway_step (wal_ops ord) g ev)"
| "service_step ord g (SvCrash ev n) =
     gateway_restart ord g (crash_image ord (gw_engine g) (crash_call (gw_fingerprint_key g) ev) n)"

fun service_exec :: "(log \<Rightarrow> log) \<Rightarrow> wal_store gateway \<Rightarrow> service_event list \<Rightarrow> wal_error + wal_store gateway" where
  "service_exec ord g [] = Inr g"
| "service_exec ord g (ev # evs) =
     (case service_step ord g ev of Inl err \<Rightarrow> Inl err | Inr g' \<Rightarrow> service_exec ord g' evs)"

text \<open>The events of the node under the gateway.\<close>

fun node_events :: "bytes \<Rightarrow> service_event \<Rightarrow> node_event list" where
  "node_events fk (SvCall ev) = map Call (gateway_calls fk ev)"
| "node_events fk (SvCrash ev n) = [CrashIn (crash_call fk ev) n]"

definition service_ok :: "bytes \<Rightarrow> service_event \<Rightarrow> bool" where
  "service_ok fk ev \<longleftrightarrow> list_all event_ok (gateway_calls fk (service_call ev))"

lemma service_step_node:
  "map_sum id gw_engine (service_step ord g ev) = node_exec ord (gw_engine g) (node_events (gw_fingerprint_key g) ev)"
proof (cases ev)
  case (SvCall c)
  then show ?thesis by (simp add: node_exec_calls gateway_step_engine(1))
next
  case (SvCrash c n)
  let ?r = "node_restart ord (gw_engine g) (crash_image ord (gw_engine g) (crash_call (gw_fingerprint_key g) c) n)"
  show ?thesis unfolding SvCrash
    by (cases ?r) (simp_all add: gateway_restart_def with_fingerprint_key_def gateway_new_def)
qed

lemma service_step_key: "service_step ord g ev = Inr g' \<Longrightarrow> gw_fingerprint_key g' = gw_fingerprint_key g"
proof (cases ev)
  case (SvCrash c n)
  let ?r = "node_restart ord (gw_engine g) (crash_image ord (gw_engine g) (crash_call (gw_fingerprint_key g) c) n)"
  show "service_step ord g ev = Inr g' \<Longrightarrow> gw_fingerprint_key g' = gw_fingerprint_key g" unfolding SvCrash
    by (cases ?r) (auto simp: gateway_restart_def with_fingerprint_key_def gateway_new_def)
qed (auto simp: gateway_step_engine(2))

text \<open>A service is its node: the log evolves by the calls and crashes of the events.\<close>

lemma service_exec_node:
  "map_sum id gw_engine (service_exec ord g evs) =
     node_exec ord (gw_engine g) (concat (map (node_events (gw_fingerprint_key g)) evs))"
proof (induction evs arbitrary: g)
  case (Cons ev evs)
  show ?case
  proof (cases "service_step ord g ev")
    case (Inl err)
    then show ?thesis using service_step_node [of ord g ev] by (simp add: node_exec_append flip: service_step_node)
  next
    case (Inr g1)
    then show ?thesis using Cons.IH [of g1] service_step_key [OF Inr]
      by (simp add: node_exec_append flip: service_step_node)
  qed
qed simp

lemma service_exec_key: "service_exec ord g evs = Inr g' \<Longrightarrow> gw_fingerprint_key g' = gw_fingerprint_key g"
proof (induction evs arbitrary: g)
  case (Cons ev evs)
  then show ?case using service_step_key [of ord g ev] by (auto split: sum.splits)
qed simp

lemma service_exec_calls:
  "service_exec ord g (map SvCall xs @ evs) = service_exec ord (gateway_exec (wal_ops ord) g xs) evs"
  by (induction xs arbitrary: g) simp_all

lemma service_events_ok:
  assumes "\<forall>ev \<in> set evs. service_ok fk ev"
  shows "\<forall>c \<in> set (concat (map (node_events fk) evs)). event_ok (node_call c)"
proof
  fix c assume "c \<in> set (concat (map (node_events fk) evs))"
  then obtain ev where ev: "ev \<in> set evs" "c \<in> set (node_events fk ev)" by auto
  have "list_all event_ok (gateway_calls fk (service_call ev))" using assms ev(1) by (simp add: service_ok_def)
  then show "event_ok (node_call c)"
    using ev(2) by (cases ev) (auto simp: list_all_iff crash_call_def split: list.splits)
qed

lemma service_events_times:
  assumes "\<forall>ev \<in> set evs. \<not> gw_at_or_after t (service_call ev)"
  shows "\<forall>c \<in> set (concat (map (node_events fk) evs)). \<not> event_at_or_after t (node_call c)"
proof
  fix c assume "c \<in> set (concat (map (node_events fk) evs))"
  then obtain ev where ev: "ev \<in> set evs" "c \<in> set (node_events fk ev)" by auto
  have "\<forall>c \<in> set (gateway_calls fk (service_call ev)). \<not> event_at_or_after t c"
    using calls_at_or_after [of "[service_call ev]" t fk] assms ev(1) by simp
  then show "\<not> event_at_or_after t (node_call c)"
    using ev(2) by (cases ev) (auto simp: crash_call_def split: list.splits)
qed


definition fresh_gateway :: "bytes \<Rightarrow> u64 \<Rightarrow> u64 \<Rightarrow> wal_store gateway" where
  "fresh_gateway fk lease ttl = with_fingerprint_key (gateway_new (fresh_node True lease ttl) ruleset_new) fk"

lemma fresh_gateway_sel [simp]:
  "gw_engine (fresh_gateway fk lease ttl) = fresh_node True lease ttl" "gw_fingerprint_key (fresh_gateway fk lease ttl) = fk"
  by (simp_all add: fresh_gateway_def with_fingerprint_key_def gateway_new_def)

text \<open>What every gateway of the service satisfies: a sound node with a strict log, and its configuration.\<close>

definition service_inv :: "bytes \<Rightarrow> u64 \<Rightarrow> u64 \<Rightarrow> wal_store gateway \<Rightarrow> bool" where
  "service_inv fk lease ttl g \<longleftrightarrow> node_ok (gw_engine g) \<and> ws_sync_each (eng_store (gw_engine g)) \<and>
     lease_ms (gw_engine g) = lease \<and> ttl_ms (gw_engine g) = ttl \<and> gw_fingerprint_key g = fk"

lemma fresh_gateway_inv: "service_inv fk lease ttl (fresh_gateway fk lease ttl)"
  by (simp add: service_inv_def)

lemma service_exec_inv:
  assumes "iteration_order ord" and "service_inv fk lease ttl g" and "\<forall>ev \<in> set evs. service_ok fk ev"
  obtains g' where "service_exec ord g evs = Inr g'" and "service_inv fk lease ttl g'"
proof -
  let ?cs = "concat (map (node_events fk) evs)"
  have n: "map_sum id gw_engine (service_exec ord g evs) = node_exec ord (gw_engine g) ?cs"
    using service_exec_node [of ord g evs] assms(2) by (simp add: service_inv_def)
  obtain e where "node_exec ord (gw_engine g) ?cs = Inr e" "node_ok e" "ttl_ms e = ttl" "lease_ms e = lease" "ws_sync_each (eng_store e)"
    using node_exec_ok [OF _ service_events_ok [OF assms(3)] assms(1), of "gw_engine g"] assms(2) by (auto simp: service_inv_def)
  with n obtain g' where g': "service_exec ord g evs = Inr g'" "gw_engine g' = e"
    by (cases "service_exec ord g evs") auto
  with \<open>node_ok e\<close> \<open>ttl_ms e = ttl\<close> \<open>lease_ms e = lease\<close> \<open>ws_sync_each (eng_store e)\<close>
  have "service_inv fk lease ttl g'" using service_exec_key [OF g'(1)] assms(2) by (simp add: service_inv_def)
  with g'(1) show thesis by (rule that)
qed

text \<open>A gateway of a sound strict node that executes sound events still has one.\<close>

lemma gateway_exec_node:
  assumes "iteration_order ord" and "node_ok (gw_engine g)" and "\<forall>ev \<in> set evs. service_ok (gw_fingerprint_key g) (SvCall ev)"
  shows "node_ok (gw_engine (gateway_exec (wal_ops ord) g evs))"
    "ws_sync_each (eng_store (gw_engine (gateway_exec (wal_ops ord) g evs))) = ws_sync_each (eng_store (gw_engine g))"
    "ttl_ms (gw_engine (gateway_exec (wal_ops ord) g evs)) = ttl_ms (gw_engine g)"
proof -
  let ?cs = "concat (map (node_events (gw_fingerprint_key g)) (map SvCall evs))"
  have "service_exec ord g (map SvCall evs) = Inr (gateway_exec (wal_ops ord) g evs)"
    using service_exec_calls [of ord g evs "[]"] by simp
  then have "node_exec ord (gw_engine g) ?cs = Inr (gw_engine (gateway_exec (wal_ops ord) g evs))"
    using service_exec_node [of ord g "map SvCall evs"] by simp
  moreover have "\<forall>c \<in> set ?cs. event_ok (node_call c)" by (rule service_events_ok) (use assms(3) in auto)
  ultimately show "node_ok (gw_engine (gateway_exec (wal_ops ord) g evs))"
    "ws_sync_each (eng_store (gw_engine (gateway_exec (wal_ops ord) g evs))) = ws_sync_each (eng_store (gw_engine g))"
    "ttl_ms (gw_engine (gateway_exec (wal_ops ord) g evs)) = ttl_ms (gw_engine g)"
    using node_exec_ok [OF assms(2) _ assms(1), of ?cs] by auto
qed

text \<open>A response that was handed back is durable: after any events and crashes before it expires, the service is
  up and answers from the cache.\<close>

lemma service_replays:
  assumes ord: "iteration_order ord" and node: "node_ok (gw_engine g)" "ws_sync_each (eng_store (gw_engine g))"
    and ok: "\<forall>ev \<in> set (SvCall (GwComplete (ForwardTicket (Some tok)) (Inr response) t) # evs). service_ok (gw_fingerprint_key g) ev"
    and run: "ws_get (eng_store (gw_engine g)) (tok_key tok) = Some (InProgress (tok_fence tok) fp l)"
    and status: "res_status response < 500"
    and times: "\<forall>ev \<in> set evs. \<not> gw_at_or_after (saturating_add t (ttl_ms (gw_engine g))) (service_call ev)"
    and r: "request_key r = Some (tok_key tok)" and now: "now < saturating_add t (ttl_ms (gw_engine g))"
  shows "\<exists>g'. service_exec ord (gateway_step (wal_ops ord) g (GwComplete (ForwardTicket (Some tok)) (Inr response) t)) evs = Inr g' \<and>
    fst (gw_begin_phase (wal_ops ord) g' r now) =
      (if fingerprint_of r (gw_fingerprint_key g) = fp
       then Phase_Done (tag (from_outcome (to_outcome response)) (ascii ''replayed''))
       else Phase_Done (tagged_status 422 (ascii ''mismatch'')))"
proof -
  let ?fk = "gw_fingerprint_key g" and ?c = "GwComplete (ForwardTicket (Some tok)) (Inr response) t"
  let ?g1 = "gateway_step (wal_ops ord) g ?c" and ?oc = "to_outcome response"
  have call: "gateway_calls ?fk ?c = [EvComplete tok ?oc t]" using status by (simp flip: not_less)
  have e1: "gw_engine ?g1 = snd (engine_complete (wal_ops ord) (gw_engine g) tok ?oc t)" and fk: "gw_fingerprint_key ?g1 = ?fk"
    using gateway_step_engine [of "wal_ops ord" g ?c] unfolding call by simp_all
  have c: "event_ok (EvComplete tok ?oc t)" using ok call by (simp add: service_ok_def)
  have "fst (engine_complete (wal_ops ord) (gw_engine g) tok ?oc t) = Inr ()" using run by (simp add: wal.complete_ok_iff)
  from strict_complete_durable [OF node c ord this] run
  have d: "durable (gw_engine ?g1) (tok_key tok) (Completed fp ?oc t)" unfolding e1 by auto
  have n1: "node_ok (gw_engine ?g1)" "ttl_ms (gw_engine ?g1) = ttl_ms (gw_engine g)"
    using gateway_exec_node [OF ord node(1), of "[?c]"] ok by auto
  let ?cs = "concat (map (node_events ?fk) evs)"
  have cs: "\<forall>c \<in> set ?cs. event_ok (node_call c)" by (rule service_events_ok) (use ok in simp)
  obtain e' where e': "node_exec ord (gw_engine ?g1) ?cs = Inr e'" "ttl_ms e' = ttl_ms (gw_engine g)"
    using node_exec_ok [OF n1(1) cs ord] n1(2) by auto
  obtain g' where g': "service_exec ord ?g1 evs = Inr g'" "gw_engine g' = e'"
    using service_exec_node [of ord ?g1 evs] e'(1) fk by (cases "service_exec ord ?g1 evs") auto
  have "durable e' (tok_key tok) (Completed fp ?oc t)"
    by (rule durable_exec [OF n1(1) d cs ord _ e'(1)]) (use service_events_times [OF times] n1(2) in simp)
  from durable_answers(1) [OF this] now e'(2)
  have "fst (engine_begin (wal_ops ord) e' (tok_key tok) fp' now) = (if fp' = fp then Begin_Replay ?oc else Begin_Mismatch)" for fp'
    by simp
  moreover have "gw_fingerprint_key g' = ?fk" using service_exec_key [OF g'(1)] fk by simp
  ultimately show ?thesis using g' by (simp add: begin_phase_answer [OF r])
qed

text \<open>One run of a key. If a forwarded request has its response (below 500) handed back within the lease, then through
  any requests and crashes before the outcome expires the service restarts and answers the key from the cache.\<close>

lemma service_run_replays:
  assumes ord: "iteration_order ord" and g: "service_inv fk lease ttl g"
    and ok: "\<forall>ev \<in> set (map SvCall (GwBegin r now # evs1 @ [GwComplete (ForwardTicket (Some tok)) (Inr response) t]) @ evs2).
      service_ok fk ev"
    and fwd: "fst (gw_begin_phase (wal_ops ord) g r now) = Phase_Forward (ForwardTicket (Some tok))"
    and lease: "\<forall>ev \<in> set evs1. \<not> gw_at_or_after (saturating_add now lease) ev"
    and own: "\<forall>f t. GwComplete (ForwardTicket (Some tok)) f t \<notin> set evs1"
    and status: "res_status response < 500"
    and ttl: "\<forall>ev \<in> set evs2. \<not> gw_at_or_after (saturating_add t ttl) (service_call ev)"
    and key: "request_key r' = request_key r" and now': "now' < saturating_add t ttl"
  shows "\<exists>g2. service_exec ord g
      (map SvCall (GwBegin r now # evs1 @ [GwComplete (ForwardTicket (Some tok)) (Inr response) t]) @ evs2) = Inr g2 \<and>
    fst (gw_begin_phase (wal_ops ord) g2 r' now') =
      (if fingerprint_of r' fk = fingerprint_of r fk
       then Phase_Done (tag (from_outcome (to_outcome response)) (ascii ''replayed''))
       else Phase_Done (tagged_status 422 (ascii ''mismatch'')))"
proof -
  let ?o = "wal_ops ord" and ?c = "GwComplete (ForwardTicket (Some tok)) (Inr response) t"
  have gi: "node_ok (gw_engine g)" "ws_sync_each (eng_store (gw_engine g))" "lease_ms (gw_engine g) = lease"
    "ttl_ms (gw_engine g) = ttl" "gw_fingerprint_key g = fk" using g by (simp_all add: service_inv_def)
  have inv: "ws_inv (eng_store (gw_engine g))" using gi(1) by (auto simp: node_ok_def wal_rep_inv)
  note run = wal.begin_phase_run [OF inv fwd]
  let ?g2 = "gateway_exec ?o g (GwBegin r now # evs1)"
  have g2: "?g2 = gateway_exec ?o (snd (gw_begin_phase ?o g r now)) evs1" by simp
  have fk: "gw_fingerprint_key ?g2 = fk" using gateway_exec_engine [of ?o g "GwBegin r now # evs1"] gi(5) by simp
  have n2: "node_ok (gw_engine ?g2)" "ws_sync_each (eng_store (gw_engine ?g2))" "ttl_ms (gw_engine ?g2) = ttl"
    using gateway_exec_node [OF ord gi(1), of "GwBegin r now # evs1"] ok gi(2,4,5) by simp_all
  have l: "\<forall>ev \<in> set evs1. \<not> gw_at_or_after (saturating_add now (lease_ms (gw_engine g))) ev" using lease gi(3) by simp
  have held: "ws_get (eng_store (gw_engine ?g2)) (tok_key tok) =
      Some (InProgress (tok_fence tok) (fingerprint_of r fk) (saturating_add now lease))"
    unfolding g2 using wal.gateway_lease(1) [OF run(2,1) l own] gi(3,5) by simp
  have k': "request_key r' = Some (tok_key tok)" using begin_phase_token(1) [OF fwd] key by simp
  have "\<exists>g'. service_exec ord (gateway_step ?o ?g2 ?c) evs2 = Inr g' \<and>
    fst (gw_begin_phase ?o g' r' now') =
      (if fingerprint_of r' (gw_fingerprint_key ?g2) = fingerprint_of r fk
       then Phase_Done (tag (from_outcome (to_outcome response)) (ascii ''replayed''))
       else Phase_Done (tagged_status 422 (ascii ''mismatch'')))"
    by (rule service_replays [OF ord n2(1,2) _ held status _ k']) (use ok ttl now' n2(3) fk in simp_all)
  then show ?thesis unfolding fk service_exec_calls by simp
qed

text \<open>Every key that is text and short enough for a record makes a sound call.\<close>

lemma begin_event_ok:
  assumes "utf8_valid k" and "length k < 2 ^ 31"
  shows "event_ok (EvBegin (IdempotencyKey k) (fingerprint_of r fk) now)"
  using assms by (simp add: encodable_def wf_key_def wf_str_def wf_fp_def fingerprint_of_def put_simps)

text \<open>So does every request the parser accepts whose header values are short enough.\<close>

lemma parsed_request_ok:
  assumes "parse_request inp = Inr (Some q, rest)" and "\<forall>h \<in> set (req_headers q). length (snd h) < 2 ^ 31"
  shows "service_ok fk (SvCall (GwBegin q now))" "service_ok fk (SvCrash (GwBegin q now) n)"
proof -
  have "event_ok (EvBegin (IdempotencyKey k) (fingerprint_of q fk) now)" if "request_header q (ascii ''idempotency-key'') = Some k" for k
    using request_key_utf8 [OF parse_request_valid(3) [OF assms(1)] that] assms(2) by (intro begin_event_ok) auto
  then show "service_ok fk (SvCall (GwBegin q now))" "service_ok fk (SvCrash (GwBegin q now) n)"
    by (simp_all add: service_ok_def request_key_def del: event_ok.simps(1) split: option.split)
qed

end
