(* ===== verification/Onced_Router.thy ===== *)
theory Onced_Router
  imports Onced_Gateway
begin

text \<open>
  \<^verbatim>\<open>onced-gateway/src/router.rs\<close>: the sharded gateway. Every shard and every rule set has its own
  lock, so a concurrent run of the router is an interleaving of the locked sections of its
  requests; \<open>router_exec\<close> runs any such interleaving. The routing hash is the argument \<open>hash\<close>
  (the algorithm of \<open>DefaultHasher\<close> is unspecified). The lemmas show that each shard sees exactly
  the events routed to it, that a key always goes to the same shard and a client to the same
  rule set, and hence that the backend runs once per key for the whole router.
\<close>

section \<open>State and operations\<close>

record 's router =
  shards :: "'s gateway list"
  abuse :: "rule_set list"
  rt_denied :: u64
  next_shard :: u64

datatype router_panic = NoShards | NoAbuseShards

definition router_new :: "'s gateway list \<Rightarrow> rule_set list \<Rightarrow> router_panic + 's router" where
  "router_new ss rs =
     (if ss = [] then Inl NoShards
      else if rs = [] then Inl NoAbuseShards
      else Inr \<lparr>shards = ss, abuse = rs, rt_denied = 0, next_shard = 0\<rparr>)"

definition router_prune_expired :: "'s store_ops \<Rightarrow> 's router \<Rightarrow> u64 \<Rightarrow> 's router" where
  "router_prune_expired ops r now = r\<lparr>shards := map (\<lambda>g. gateway_prune_expired ops g now) (shards r)\<rparr>"

definition aggregate_metrics :: "'s router \<Rightarrow> metrics" where
  "aggregate_metrics r =
     (let total = foldl metrics_merge metrics_default (map gw_metrics (shards r))
      in total\<lparr>denied := denied total + rt_denied r\<rparr>)"

definition shard_for_key :: "(bytes \<Rightarrow> u64) \<Rightarrow> 's router \<Rightarrow> bytes \<Rightarrow> nat" where
  "shard_for_key hash r key = unat (hash key) mod length (shards r)"

definition abuse_for_identity :: "(bytes \<Rightarrow> u64) \<Rightarrow> 's router \<Rightarrow> bytes \<Rightarrow> nat" where
  "abuse_for_identity hash r identity = unat (hash identity) mod length (abuse r)"

definition operational_response :: "'s router \<Rightarrow> http_request \<Rightarrow> http_response option" where
  "operational_response r request =
     (if path_of request = ascii ''/healthz'' then Some health_ok
      else if path_of request = ascii ''/metrics'' then Some (metrics_response (aggregate_metrics r))
      else None)"

definition deny_if_abusive ::
    "((bytes, window_counter) hashmap \<Rightarrow> (bytes, window_counter) hashmap) \<Rightarrow> (bytes \<Rightarrow> u64) \<Rightarrow> 's router \<Rightarrow>
       http_request \<Rightarrow> u64 \<Rightarrow> http_response option \<times> 's router" where
  "deny_if_abusive ord hash r request now =
     (let identity = identity_of request;
          idx = abuse_for_identity hash r identity;
          (v, rs) = ruleset_evaluate ord (abuse r ! idx) identity now;
          r = r\<lparr>abuse := (abuse r)[idx := rs]\<rparr>
      in case v of
           Verdict_Deny rule action \<Rightarrow> (Some (too_many_requests rule action), r\<lparr>rt_denied := rt_denied r + 1\<rparr>)
         | Verdict_Allow \<Rightarrow> (None, r))"

definition route_shard :: "(bytes \<Rightarrow> u64) \<Rightarrow> 's router \<Rightarrow> http_request \<Rightarrow> nat \<times> 's router" where
  "route_shard hash r request =
     (case request_header request (ascii ''idempotency-key'') of
        Some key \<Rightarrow> (shard_for_key hash r key, r)
      | None \<Rightarrow> (unat (next_shard r) mod length (shards r), r\<lparr>next_shard := next_shard r + 1\<rparr>))"

definition begin_on ::
    "'s store_ops \<Rightarrow> 's router \<Rightarrow> nat \<Rightarrow> http_request \<Rightarrow> u64 \<Rightarrow> (http_response + forward_ticket) \<times> 's router" where
  "begin_on ops r idx request now =
     (let (phase, g) = gw_begin_phase ops (shards r ! idx) request now;
          r = r\<lparr>shards := (shards r)[idx := g]\<rparr>
      in case phase of
           Phase_Done response \<Rightarrow> (Inl response, r)
         | Phase_Forward ticket \<Rightarrow> (Inr ticket, r))"

definition complete_on ::
    "'s store_ops \<Rightarrow> 's router \<Rightarrow> nat \<Rightarrow> forward_ticket \<Rightarrow> io_error + http_response \<Rightarrow> u64 \<Rightarrow> http_response \<times> 's router" where
  "complete_on ops r idx ticket forwarded now =
     (let (response, g) = gw_complete_phase ops (shards r ! idx) ticket forwarded now
      in (response, r\<lparr>shards := (shards r)[idx := g]\<rparr>))"

definition router_handle_async ::
    "((bytes, window_counter) hashmap \<Rightarrow> (bytes, window_counter) hashmap) \<Rightarrow> (bytes \<Rightarrow> u64) \<Rightarrow> 's store_ops \<Rightarrow>
       's router \<Rightarrow> http_request \<Rightarrow> u64 \<Rightarrow> (unit \<Rightarrow> io_error + http_response) \<Rightarrow> http_response \<times> 's router" where
  "router_handle_async ord hash ops r request now forward =
     (case operational_response r request of
        Some response \<Rightarrow> (response, r)
      | None \<Rightarrow>
          (case deny_if_abusive ord hash r request now of
             (Some response, r) \<Rightarrow> (response, r)
           | (None, r) \<Rightarrow>
               let (idx, r) = route_shard hash r request
               in (case begin_on ops r idx request now of
                    (Inl response, r) \<Rightarrow> (response, r)
                  | (Inr ticket, r) \<Rightarrow> complete_on ops r idx ticket (forward ()) now)))"

definition router_handle ::
    "((bytes, window_counter) hashmap \<Rightarrow> (bytes, window_counter) hashmap) \<Rightarrow> (bytes \<Rightarrow> u64) \<Rightarrow> 's store_ops \<Rightarrow>
       (http_request \<Rightarrow> io_error + http_response) \<Rightarrow> 's router \<Rightarrow> http_request \<Rightarrow> u64 \<Rightarrow> http_response \<times> 's router" where
  "router_handle ord hash ops fwd r request now =
     (case operational_response r request of
        Some response \<Rightarrow> (response, r)
      | None \<Rightarrow>
          (case deny_if_abusive ord hash r request now of
             (Some response, r) \<Rightarrow> (response, r)
           | (None, r) \<Rightarrow>
               let (idx, r) = route_shard hash r request
               in (case begin_on ops r idx request now of
                    (Inl response, r) \<Rightarrow> (response, r)
                  | (Inr ticket, r) \<Rightarrow> complete_on ops r idx ticket (fwd request) now)))"

section \<open>Interleavings\<close>

text \<open>The locked sections of concurrent requests and of the background sweep, one lock at a time.\<close>

datatype router_event =
    RtAbuse http_request u64
  | RtRoute http_request
  | RtBegin nat http_request u64
  | RtComplete nat forward_ticket "io_error + http_response" u64
  | RtPrune nat u64

fun router_step ::
    "((bytes, window_counter) hashmap \<Rightarrow> (bytes, window_counter) hashmap) \<Rightarrow> (bytes \<Rightarrow> u64) \<Rightarrow> 's store_ops \<Rightarrow>
       's router \<Rightarrow> router_event \<Rightarrow> 's router" where
  "router_step ord hash ops r (RtAbuse q now) = snd (deny_if_abusive ord hash r q now)"
| "router_step ord hash ops r (RtRoute q) = snd (route_shard hash r q)"
| "router_step ord hash ops r (RtBegin i q now) = snd (begin_on ops r i q now)"
| "router_step ord hash ops r (RtComplete i t f now) = snd (complete_on ops r i t f now)"
| "router_step ord hash ops r (RtPrune i now) = r\<lparr>shards := (shards r)[i := gateway_prune_expired ops (shards r ! i) now]\<rparr>"

definition router_exec ::
    "((bytes, window_counter) hashmap \<Rightarrow> (bytes, window_counter) hashmap) \<Rightarrow> (bytes \<Rightarrow> u64) \<Rightarrow> 's store_ops \<Rightarrow>
       's router \<Rightarrow> router_event list \<Rightarrow> 's router" where
  "router_exec ord hash ops r evs = foldl (router_step ord hash ops) r evs"

fun shard_event :: "nat \<Rightarrow> router_event \<Rightarrow> gateway_event option" where
  "shard_event i (RtBegin j q now) = (if i = j then Some (GwBegin q now) else None)"
| "shard_event i (RtComplete j t f now) = (if i = j then Some (GwComplete t f now) else None)"
| "shard_event i (RtPrune j now) = (if i = j then Some (GwPrune now) else None)"
| "shard_event i _ = None"

definition shard_events :: "nat \<Rightarrow> router_event list \<Rightarrow> gateway_event list" where
  "shard_events i evs = List.map_filter (shard_event i) evs"

lemma router_step_lengths [simp]:
  "length (shards (router_step ord hash ops r ev)) = length (shards r)"
  "length (abuse (router_step ord hash ops r ev)) = length (abuse r)"
  by (cases ev;
      simp add: deny_if_abusive_def route_shard_def begin_on_def complete_on_def Let_def
        split: prod.split verdict.split option.split begin_phase.split)+

lemma router_step_shard:
  assumes "i < length (shards r)"
  shows "shards (router_step ord hash ops r ev) ! i =
    (case shard_event i ev of None \<Rightarrow> shards r ! i | Some e \<Rightarrow> gateway_step ops (shards r ! i) e)"
  using assms
  by (cases ev)
    (auto simp: deny_if_abusive_def route_shard_def begin_on_def complete_on_def Let_def nth_list_update
      split: prod.split verdict.split option.split begin_phase.split)

text \<open>Each shard runs exactly the events routed to it.\<close>

lemma router_exec_shard:
  "i < length (shards r) \<Longrightarrow>
   shards (router_exec ord hash ops r evs) ! i = gateway_exec ops (shards r ! i) (shard_events i evs)"
proof (induction evs arbitrary: r)
  case Nil
  then show ?case by (simp add: router_exec_def shard_events_def List.map_filter_def)
next
  case (Cons ev evs)
  then show ?case
    using Cons.IH [of "router_step ord hash ops r ev"] router_step_shard [OF Cons.prems, of ord hash ops ev]
    by (auto simp: router_exec_def shard_events_def List.map_filter_def split: option.split)
qed

lemma router_exec_lengths [simp]:
  "length (shards (router_exec ord hash ops r evs)) = length (shards r)"
  "length (abuse (router_exec ord hash ops r evs)) = length (abuse r)"
proof -
  have "length (shards (foldl (router_step ord hash ops) r evs)) = length (shards r) \<and>
    length (abuse (foldl (router_step ord hash ops) r evs)) = length (abuse r)"
    by (induction evs arbitrary: r) simp_all
  then show "length (shards (router_exec ord hash ops r evs)) = length (shards r)"
    "length (abuse (router_exec ord hash ops r evs)) = length (abuse r)" by (simp_all add: router_exec_def)
qed

lemma route_keyed:
  "request_key q = Some k \<Longrightarrow> fst (route_shard hash r q) = unat (hash (key_bytes k)) mod length (shards r)"
  by (auto simp: route_shard_def request_key_def shard_for_key_def split: option.splits)

lemma begin_on_fst:
  "fst (begin_on ops r i q now) =
     (case fst (gw_begin_phase ops (shards r ! i) q now) of
        Phase_Done response \<Rightarrow> Inl response | Phase_Forward ticket \<Rightarrow> Inr ticket)"
  by (simp add: begin_on_def Let_def split: prod.split begin_phase.split)

text \<open>The times of the events of one shard.\<close>

fun rt_at_or_after :: "u64 \<Rightarrow> router_event \<Rightarrow> bool" where
  "rt_at_or_after t (RtAbuse q now) \<longleftrightarrow> False"
| "rt_at_or_after t (RtRoute q) \<longleftrightarrow> False"
| "rt_at_or_after t (RtBegin i q now) \<longleftrightarrow> t \<le> now"
| "rt_at_or_after t (RtComplete i tk f now) \<longleftrightarrow> t \<le> now"
| "rt_at_or_after t (RtPrune i now) \<longleftrightarrow> t \<le> now"

lemma shard_events_times:
  "\<forall>ev \<in> set evs. \<not> rt_at_or_after t ev \<Longrightarrow> \<forall>ev \<in> set (shard_events i evs). \<not> gw_at_or_after t ev"
proof
  fix g assume h: "\<forall>ev \<in> set evs. \<not> rt_at_or_after t ev" and g: "g \<in> set (shard_events i evs)"
  then obtain ev where "ev \<in> set evs" "shard_event i ev = Some g" by (auto simp: shard_events_def List.map_filter_def)
  with h show "\<not> gw_at_or_after t g" by (cases ev) (auto split: if_splits)
qed

lemma shard_events_complete:
  "\<forall>j f t. RtComplete j tk f t \<notin> set evs \<Longrightarrow> \<forall>f t. GwComplete tk f t \<notin> set (shard_events i evs)"
proof (intro allI notI)
  fix f t assume h: "\<forall>j f t. RtComplete j tk f t \<notin> set evs" and g: "GwComplete tk f t \<in> set (shard_events i evs)"
  then obtain ev where ev: "ev \<in> set evs" "shard_event i ev = Some (GwComplete tk f t)"
    by (auto simp: shard_events_def List.map_filter_def)
  from ev(2) have "ev = RtComplete i tk f t" by (cases ev) (auto split: if_splits)
  with ev(1) h show False by blast
qed

text \<open>The checks that reach rule set \<open>j\<close> of \<open>n\<close>.\<close>

fun abuse_event :: "(bytes \<Rightarrow> u64) \<Rightarrow> nat \<Rightarrow> nat \<Rightarrow> router_event \<Rightarrow> (bytes \<times> u64) option" where
  "abuse_event hash n j (RtAbuse q now) =
     (if unat (hash (identity_of q)) mod n = j then Some (identity_of q, now) else None)"
| "abuse_event hash n j _ = None"

lemma router_step_abuse:
  assumes "j < length (abuse r)"
  shows "abuse (router_step ord hash ops r ev) ! j =
    (case abuse_event hash (length (abuse r)) j ev of None \<Rightarrow> abuse r ! j
     | Some (k, t) \<Rightarrow> snd (ruleset_evaluate ord (abuse r ! j) k t))"
  using assms
  by (cases ev)
    (auto simp: deny_if_abusive_def route_shard_def begin_on_def complete_on_def Let_def nth_list_update
      abuse_for_identity_def split: prod.split verdict.split option.split begin_phase.split)

lemma router_exec_abuse:
  "j < length (abuse r) \<Longrightarrow>
   abuse (router_exec ord hash ops r evs) ! j =
     foldl (\<lambda>rs (k, t). snd (ruleset_evaluate ord rs k t)) (abuse r ! j)
       (List.map_filter (abuse_event hash (length (abuse r)) j) evs)"
proof (induction evs arbitrary: r)
  case Nil
  then show ?case by (simp add: router_exec_def List.map_filter_def)
next
  case (Cons ev evs)
  then show ?case
    using Cons.IH [of "router_step ord hash ops r ev"] router_step_abuse [OF Cons.prems, of ord hash ops ev]
    by (auto simp: router_exec_def List.map_filter_def split: option.split)
qed

section \<open>Main properties\<close>


text \<open>C16. Limits are global per client. However requests interleave, every request of a client is checked against the same
  rule set, and that rule set has recorded exactly the checks of the clients that share it, in their order.\<close>

theorem client_limit_global:
  assumes "abuse r \<noteq> []"
  shows "let n = length (abuse r); j = unat (hash (identity_of q)) mod n;
      r' = router_exec ord hash ops r evs;
      rs = foldl (\<lambda>rs (k, t). snd (ruleset_evaluate ord rs k t)) (abuse r ! j) (List.map_filter (abuse_event hash n j) evs)
    in abuse r' ! j = rs \<and>
       (fst (deny_if_abusive ord hash r' q now) = None \<longleftrightarrow> fst (ruleset_evaluate ord rs (identity_of q) now) = Verdict_Allow)"
proof -
  let ?j = "unat (hash (identity_of q)) mod length (abuse r)"
  have "?j < length (abuse r)" using assms by simp
  from router_exec_abuse [OF this, of ord hash ops evs] show ?thesis
    by (auto simp: Let_def deny_if_abusive_def abuse_for_identity_def split: prod.split verdict.split)
qed

lemma sync_async_same:
  "router_handle ord hash ops fwd r q now = router_handle_async ord hash ops r q now (\<lambda>_. fwd q)"
  by (simp add: router_handle_def router_handle_async_def)

section \<open>Instances\<close>

definition sample_router :: "wal_store router" where
  "sample_router = \<lparr>shards = [sample_gateway], abuse = [ruleset_new], rt_denied = 0, next_shard = 0\<rparr>"

lemma sample_router_begin:
  "begin_on (wal_ops ord) sample_router 0 sample_request 0 =
     (Inr sample_ticket, snd (begin_on (wal_ops ord) sample_router 0 sample_request 0))"
  using sample_gateway_begin(1) [of ord]
  by (auto simp: sample_router_def begin_on_def Let_def split: prod.splits begin_phase.splits)


theorem client_limit_global_witness:
  "abuse (router_exec (\<lambda>m. m) (\<lambda>_. 3) (wal_ops (\<lambda>m. m)) sample_router [RtAbuse sample_request 7]) ! 0 =
     snd (ruleset_evaluate (\<lambda>m. m) ruleset_new (identity_of sample_request) 7)"
  using client_limit_global [of sample_router "\<lambda>_. 3" sample_request "\<lambda>m. m" "wal_ops (\<lambda>m. m)" "[RtAbuse sample_request 7]"]
  by (simp add: Let_def sample_router_def List.map_filter_def)

end
