(* ===== verification/Onced_Server.thy ===== *)
theory Onced_Server
  imports Onced_Router
begin

text \<open>
  \<^verbatim>\<open>onced-gateway/src/server.rs\<close> and \<^verbatim>\<open>onced-gateway/src/main.rs\<close>: one connection of the blocking
  server, the backend client, and the configuration and start of the gateway binary. The
  network is the argument \<open>net\<close> (what a backend sends back for the bytes written to it), the
  environment \<open>env\<close>, the files \<open>files\<close> and the clock are arguments too. The accept loop and the
  threads are not modelled; their interleavings are those of \<open>router_exec\<close>.
\<close>

section \<open>Server\<close>

text \<open>The clock: the milliseconds since the epoch, if the system time is not before it.\<close>

definition now_ms :: "nat option \<Rightarrow> u64" where
  "now_ms elapsed = (case elapsed of Some ms \<Rightarrow> of_nat ms | None \<Rightarrow> 0)"

definition http_forward ::
    "(bytes \<Rightarrow> bytes \<Rightarrow> io_error + bufreader) \<Rightarrow> bytes \<Rightarrow> http_request \<Rightarrow> io_error + http_response" where
  "http_forward net backend request =
     (case net backend (write_request request) of
        Inl err \<Rightarrow> Inl err
      | Inr reader \<Rightarrow>
          (case parse_response reader of Inl err \<Rightarrow> Inl err | Inr (response, _) \<Rightarrow> Inr response))"

text \<open>What a connection sends back, and the handler's state after it.\<close>

definition handle_connection ::
    "('h \<Rightarrow> http_request \<Rightarrow> u64 \<Rightarrow> http_response \<times> 'h) \<Rightarrow> 'h \<Rightarrow> bufreader \<Rightarrow> u64 \<Rightarrow> (io_error + bytes) \<times> 'h" where
  "handle_connection handler h reader now =
     (case parse_request reader of
        Inl err \<Rightarrow> (Inl err, h)
      | Inr (None, _) \<Rightarrow> (Inr [], h)
      | Inr (Some request, _) \<Rightarrow>
          let (response, h) = handler h request now in (Inr (write_response response), h))"

section \<open>Configuration\<close>

definition GATEWAY_LEASE_MS :: u64 where
  "GATEWAY_LEASE_MS = 30000"

definition env_or :: "(bytes \<Rightarrow> bytes option) \<Rightarrow> bytes \<Rightarrow> bytes \<Rightarrow> bytes" where
  "env_or env key dflt = (case env key of Some v \<Rightarrow> v | None \<Rightarrow> dflt)"

definition env_shards :: "(bytes \<Rightarrow> bytes option) \<Rightarrow> nat option \<Rightarrow> nat" where
  "env_shards env parallelism =
     (case Option.bind (env (ascii ''ONCED_SHARDS'')) (parse_uint USIZE_BOUND) of
        Some n \<Rightarrow> if 0 < n then n else (case parallelism of Some p \<Rightarrow> p | None \<Rightarrow> 1)
      | None \<Rightarrow> (case parallelism of Some p \<Rightarrow> p | None \<Rightarrow> 1))"

definition hex_nibble :: "u8 \<Rightarrow> u8 option" where
  "hex_nibble b =
     (if 48 \<le> b \<and> b \<le> 57 then Some (b - 48)
      else if 97 \<le> b \<and> b \<le> 102 then Some (b - 97 + 10)
      else if 65 \<le> b \<and> b \<le> 70 then Some (b - 65 + 10)
      else None)"

fun hex_pairs :: "bytes \<Rightarrow> bytes option" where
  "hex_pairs (a # b # s) =
     (case hex_nibble a of None \<Rightarrow> None
      | Some hi \<Rightarrow>
          (case hex_nibble b of None \<Rightarrow> None
           | Some lo \<Rightarrow> map_option (\<lambda>out. (push_bit 4 hi OR lo) # out) (hex_pairs s)))"
| "hex_pairs [] = Some []"
| "hex_pairs [a] = None"

definition parse_hex32 :: "bytes \<Rightarrow> bytes option" where
  "parse_hex32 s = (let s = trim s in if length s \<noteq> 64 then None else hex_pairs s)"

definition env_fingerprint_key :: "(bytes \<Rightarrow> bytes option) \<Rightarrow> bytes \<Rightarrow> bytes" where
  "env_fingerprint_key env wal_prefix =
     (case Option.bind (env (ascii ''ONCED_FINGERPRINT_KEY'')) parse_hex32 of
        Some key \<Rightarrow> key
      | None \<Rightarrow> sha256 wal_prefix)"

section \<open>Start\<close>

definition wal_path :: "bytes \<Rightarrow> nat \<Rightarrow> bytes" where
  "wal_path wal_prefix i = wal_prefix @ ascii ''.'' @ print_uint i @ ascii ''.wal''"

fun open_shards ::
    "(io_call \<Rightarrow> bool) \<Rightarrow> (bytes \<Rightarrow> bytes) \<Rightarrow> (log \<Rightarrow> log) \<Rightarrow> bytes \<Rightarrow> bytes \<Rightarrow> nat list \<Rightarrow>
       wal_error + wal_store gateway list" where
  "open_shards io files word key wal_prefix [] = Inr []"
| "open_shards io files word key wal_prefix (i # is) =
     (case ws_open io (files (wal_path wal_prefix i)) of
        Inl err \<Rightarrow> Inl err
      | Inr store \<Rightarrow>
          (case open_shards io files word key wal_prefix is of
             Inl err \<Rightarrow> Inl err
           | Inr ss \<Rightarrow>
               Inr (with_fingerprint_key (gateway_new (engine_new (wal_ops word) store GATEWAY_LEASE_MS) ruleset_new) key
                 # ss)))"

definition main_rules :: "limiter_panic + rule_set" where
  "main_rules = ruleset_rule ruleset_new (ascii ''per-ip-per-second'') 1000 50 Throttle"

datatype main_error = Main_Wal wal_error | Main_Limiter limiter_panic | Main_Router router_panic

definition gateway_main ::
    "(bytes \<Rightarrow> bytes option) \<Rightarrow> nat option \<Rightarrow> (io_call \<Rightarrow> bool) \<Rightarrow> (bytes \<Rightarrow> bytes) \<Rightarrow> (log \<Rightarrow> log) \<Rightarrow>
       main_error + wal_store router" where
  "gateway_main env parallelism io files word =
     (let wal_prefix = env_or env (ascii ''ONCED_WAL'') (ascii ''onced'');
          shard_count = env_shards env parallelism;
          key = env_fingerprint_key env wal_prefix
      in case open_shards io files word key wal_prefix [0..<shard_count] of
           Inl err \<Rightarrow> Inl (Main_Wal err)
         | Inr ss \<Rightarrow>
             (case main_rules of
                Inl err \<Rightarrow> Inl (Main_Limiter err)
              | Inr rs \<Rightarrow>
                  (case router_new ss (replicate shard_count rs) of
                     Inl err \<Rightarrow> Inl (Main_Router err)
                   | Inr r \<Rightarrow> Inr r)))"

section \<open>Properties\<close>

lemma hex_nibble_digit: "n < 16 \<Longrightarrow> hex_nibble (hex_digit n) = Some n"
proof -
  have "\<forall>k \<in> set [0..<16]. hex_nibble (hex_digit (of_nat k)) = Some (of_nat k)" by code_simp
  moreover assume "n < 16"
  then have "unat n \<in> set [0..<16]" by (simp add: word_less_nat_alt)
  ultimately have "hex_nibble (hex_digit (of_nat (unat n))) = Some (of_nat (unat n))" by blast
  then show ?thesis by simp
qed

lemma trim_graphic:
  assumes "\<forall>b \<in> set s. 33 \<le> b \<and> b < 0x80"
  shows "trim s = s"
proof -
  have ok: "\<not> ws_ascii b \<and> b \<noteq> 0xC2 \<and> b \<noteq> 0xE1 \<and> b \<noteq> 0xE2 \<and> b \<noteq> 0xE3 \<and> b \<noteq> 0x80 \<and> b \<noteq> 0x81 \<and> b \<noteq> 0x85 \<and>
      b \<noteq> 0x9A \<and> b \<noteq> 0xA0" if "b \<in> set s" for b
    using assms that by (auto simp: ws_ascii_def word_le_nat_alt word_less_nat_alt)
  then have "trim_start s = s" by (cases s rule: trim_start.cases) (auto simp: ws2_def ws3_def)
  moreover have "trim_rev (rev s) = rev s"
  proof -
    have "\<And>b. b \<in> set (rev s) \<Longrightarrow> \<not> ws_ascii b \<and> b \<noteq> 0x80 \<and> b \<noteq> 0x81 \<and> b \<noteq> 0x85 \<and> b \<noteq> 0x9A \<and> b \<noteq> 0xA0"
      using ok by auto
    then show ?thesis by (cases "rev s" rule: trim_rev.cases) (auto simp: ws2_def ws3_def)
  qed
  ultimately show ?thesis by (simp add: trim_def)
qed

lemma hex_digit_graphic: "n < 16 \<Longrightarrow> 33 \<le> hex_digit n \<and> hex_digit n < 0x80"
proof -
  have "\<forall>k \<in> set [0..<16]. 33 \<le> hex_digit (of_nat k) \<and> hex_digit (of_nat k) < 0x80" by code_simp
  moreover assume "n < 16"
  then have "unat n \<in> set [0..<16]" by (simp add: word_less_nat_alt)
  ultimately have "33 \<le> hex_digit (of_nat (unat n)) \<and> hex_digit (of_nat (unat n)) < 0x80" by blast
  then show ?thesis by simp
qed

lemma nibbles: "drop_bit 4 (b :: u8) < 16" "b AND 0xf < 16" "push_bit 4 (drop_bit 4 b) OR (b AND 0xf) = b"
proof -
  have "unat (drop_bit 4 b) = unat b div 2 ^ 4" by (simp add: drop_bit_eq_div unat_div)
  moreover have "unat b < 256" using unsigned_less [of b, where ?'a = nat] by simp
  ultimately show "drop_bit 4 b < 16" by (simp add: word_less_nat_alt)
  have m: "b AND 0xf = take_bit 4 b" by (simp add: take_bit_eq_mask mask_eq_exp_minus_1)
  have "take_bit 4 (unat b) < 2 ^ 4" by (rule take_bit_nat_less_exp)
  then show "b AND 0xf < 16" unfolding m by (simp add: word_less_nat_alt unsigned_take_bit_eq)
  show "push_bit 4 (drop_bit 4 b) OR (b AND 0xf) = b"
    unfolding m by (rule bit_word_eqI) (auto simp: bit_simps)
qed

lemma hex_pairs_to_hex: "hex_pairs (to_hex bs) = Some bs"
  by (induction bs) (simp_all add: to_hex_def hex_nibble_digit nibbles)

text \<open>A fingerprint key survives its textual form: parsing the hexadecimal rendering of 32 bytes returns them.\<close>

theorem hex_round_trip:
  assumes "length bs = 32"
  shows "parse_hex32 (to_hex bs) = Some bs"
proof -
  have "\<forall>b \<in> set (to_hex bs). 33 \<le> b \<and> b < 0x80" by (auto simp: to_hex_def hex_digit_graphic nibbles)
  then have "trim (to_hex bs) = to_hex bs" by (rule trim_graphic)
  then show ?thesis using assms by (simp add: parse_hex32_def hex_pairs_to_hex)
qed

theorem hex_round_trip_witness: "parse_hex32 (to_hex (replicate 32 0xAB)) = Some (replicate 32 0xAB)"
  by (rule hex_round_trip) simp

text \<open>The prefix of the log files and the fingerprint key that the environment gives.\<close>

definition env_wal_prefix :: "(bytes \<Rightarrow> bytes option) \<Rightarrow> bytes" where
  "env_wal_prefix env = env_or env (ascii ''ONCED_WAL'') (ascii ''onced'')"

definition env_key :: "(bytes \<Rightarrow> bytes option) \<Rightarrow> bytes" where
  "env_key env = env_fingerprint_key env (env_wal_prefix env)"

text \<open>If every log opens, the binary starts with one gateway per log.\<close>

lemma open_shards_all:
  "(\<And>i. i \<in> set is \<Longrightarrow> ws_open io (files (wal_path p i)) = Inr (w i)) \<Longrightarrow>
   open_shards io files ord key p is =
     Inr (map (\<lambda>i. with_fingerprint_key (gateway_new (engine_new (wal_ops ord) (w i) GATEWAY_LEASE_MS) ruleset_new) key) is)"
  by (induction "is") simp_all

lemma gateway_main_opens:
  assumes "0 < env_shards env par"
    and "\<And>i. i < env_shards env par \<Longrightarrow> ws_open io (files (wal_path (env_wal_prefix env) i)) = Inr (w i)"
  obtains r where "gateway_main env par io files ord = Inr r" and "length (abuse r) = env_shards env par"
    and "shards r = map (\<lambda>i. with_fingerprint_key (gateway_new (engine_new (wal_ops ord) (w i) GATEWAY_LEASE_MS) ruleset_new)
      (env_key env)) [0..<env_shards env par]"
proof -
  obtain rs where rs: "main_rules = Inr rs"
    by (simp add: main_rules_def ruleset_rule_def limiter_new_def limiter_with_capacity_def DEFAULT_MAX_KEYS_def)
  have "open_shards io files ord (env_key env) (env_wal_prefix env) [0..<env_shards env par] =
      Inr (map (\<lambda>i. with_fingerprint_key (gateway_new (engine_new (wal_ops ord) (w i) GATEWAY_LEASE_MS) ruleset_new) (env_key env))
        [0..<env_shards env par])"
    by (rule open_shards_all) (use assms(2) in auto)
  then show thesis using that assms(1)
    by (simp add: gateway_main_def Let_def rs router_new_def env_key_def flip: env_wal_prefix_def)
qed

text \<open>The gateway starts: on empty log files and a machine with at least one CPU, start-up succeeds whatever the
  environment says, with as many shards and rule sets as configured, all with the same fingerprint key, in a state
  from which the guarantees of the router hold.\<close>

theorem gateway_starts:
  assumes "\<And>path. files path = []" and "parallelism \<noteq> Some 0"
  shows "\<exists>r. gateway_main env parallelism io_ok files word = Inr r \<and>
    length (shards r) = env_shards env parallelism \<and> length (abuse r) = env_shards env parallelism \<and>
    0 < env_shards env parallelism \<and>
    (\<forall>g \<in> set (shards r). ws_inv (eng_store (gw_engine g)) \<and> lease_ms (gw_engine g) = GATEWAY_LEASE_MS \<and>
       gw_fingerprint_key g = env_key env)"
proof -
  let ?w = "\<lparr>ws_index = [], ws_file = [], ws_pending = [], ws_sync_each = True, ws_chain_root = GENESIS\<rparr>"
  have n: "0 < env_shards env parallelism" using assms(2) by (auto simp: env_shards_def split: option.split)
  have "ws_open io_ok [] = Inr ?w" using open_with_log [of "[]" "[]" True] by (simp add: ws_open_def log_ok_def)
  then obtain r where r: "gateway_main env parallelism io_ok files word = Inr r" "length (abuse r) = env_shards env parallelism"
      "shards r = map (\<lambda>i. with_fingerprint_key (gateway_new (engine_new (wal_ops word) ?w GATEWAY_LEASE_MS) ruleset_new)
        (env_key env)) [0..<env_shards env parallelism]"
    using gateway_main_opens [OF n, of io_ok files "\<lambda>_. ?w" word] assms(1) by metis
  show ?thesis using r n
    by (simp add: with_fingerprint_key_def gateway_new_def engine_new_def engine_with_ttl_def ws_inv_def)
qed

theorem gateway_starts_witness:
  "\<exists>r. gateway_main (\<lambda>_. None) (Some 4) io_ok (\<lambda>_. []) (\<lambda>m. m) = Inr r \<and> length (shards r) = 4"
  using gateway_starts [of "\<lambda>_. []" "Some 4" "\<lambda>_. None" "\<lambda>m. m"] by (auto simp: env_shards_def)

end
