(* ===== verification/Onced_Process.thy ===== *)
theory Onced_Process
  imports Onced_Service Onced_Server
begin

text \<open>
  The gateway binary from its first start through any number of crashes: \<^verbatim>\<open>onced-gateway/src/main.rs\<close> builds the
  router from the log files, threads run the locked sections of requests, and a crash leaves each log file as the
  section its shard was in had it. A run of the process projects to a run of the service on every shard.
\<close>

section \<open>The process\<close>

text \<open>A crash names for each shard the section it was in and how far it got; a section without a call of the
  engine stands for an idle shard.\<close>

datatype process_event = PrStep router_event | PrCrash "(gateway_event \<times> nat) list"

text \<open>A start of the binary on a disk with the given log files.\<close>

definition process_start ::
    "(bytes \<Rightarrow> bytes option) \<Rightarrow> nat option \<Rightarrow> (log \<Rightarrow> log) \<Rightarrow> bytes list \<Rightarrow> main_error + wal_store router" where
  "process_start env par ord imgs =
     gateway_main env par io_ok
       (\<lambda>path. case map_of (zip (map (wal_path (env_wal_prefix env)) [0..<length imgs]) imgs) path of
                 Some img \<Rightarrow> img | None \<Rightarrow> []) ord"

definition shard_image :: "(log \<Rightarrow> log) \<Rightarrow> wal_store gateway \<Rightarrow> gateway_event \<times> nat \<Rightarrow> bytes" where
  "shard_image ord g c = crash_image ord (gw_engine g) (crash_call (gw_fingerprint_key g) (fst c)) (snd c)"

fun process_step ::
    "(bytes \<Rightarrow> bytes option) \<Rightarrow> nat option \<Rightarrow>
     ((bytes, window_counter) hashmap \<Rightarrow> (bytes, window_counter) hashmap) \<Rightarrow> (bytes \<Rightarrow> u64) \<Rightarrow> (log \<Rightarrow> log) \<Rightarrow>
       wal_store router \<Rightarrow> process_event \<Rightarrow> main_error + wal_store router" where
  "process_step env par aord hash ord r (PrStep ev) = Inr (router_step aord hash (wal_ops ord) r ev)"
| "process_step env par aord hash ord r (PrCrash cs) = process_start env par ord (map2 (shard_image ord) (shards r) cs)"

fun process_exec ::
    "(bytes \<Rightarrow> bytes option) \<Rightarrow> nat option \<Rightarrow>
     ((bytes, window_counter) hashmap \<Rightarrow> (bytes, window_counter) hashmap) \<Rightarrow> (bytes \<Rightarrow> u64) \<Rightarrow> (log \<Rightarrow> log) \<Rightarrow>
       wal_store router \<Rightarrow> process_event list \<Rightarrow> main_error + wal_store router" where
  "process_exec env par aord hash ord r [] = Inr r"
| "process_exec env par aord hash ord r (ev # evs) =
     (case process_step env par aord hash ord r ev of
        Inl err \<Rightarrow> Inl err | Inr r' \<Rightarrow> process_exec env par aord hash ord r' evs)"

text \<open>A run from an empty disk.\<close>

definition process_run ::
    "(bytes \<Rightarrow> bytes option) \<Rightarrow> nat option \<Rightarrow>
     ((bytes, window_counter) hashmap \<Rightarrow> (bytes, window_counter) hashmap) \<Rightarrow> (bytes \<Rightarrow> u64) \<Rightarrow> (log \<Rightarrow> log) \<Rightarrow>
       process_event list \<Rightarrow> main_error + wal_store router" where
  "process_run env par aord hash ord evs =
     (case process_start env par ord [] of Inl err \<Rightarrow> Inl err | Inr r \<Rightarrow> process_exec env par aord hash ord r evs)"

section \<open>Projection to a shard\<close>

fun shard_service :: "nat \<Rightarrow> process_event \<Rightarrow> service_event option" where
  "shard_service i (PrStep ev) = map_option SvCall (shard_event i ev)"
| "shard_service i (PrCrash cs) = Some (SvCrash (fst (cs ! i)) (snd (cs ! i)))"

definition shard_services :: "nat \<Rightarrow> process_event list \<Rightarrow> service_event list" where
  "shard_services i evs = List.map_filter (shard_service i) evs"

definition process_all :: "nat \<Rightarrow> (service_event \<Rightarrow> bool) \<Rightarrow> process_event \<Rightarrow> bool" where
  "process_all n P ev \<longleftrightarrow> list_all (\<lambda>i. case shard_service i ev of None \<Rightarrow> True | Some s \<Rightarrow> P s) [0..<n]"

text \<open>Events whose calls a record can hold, with an entry per shard for a crash.\<close>

definition process_ok :: "nat \<Rightarrow> bytes \<Rightarrow> process_event \<Rightarrow> bool" where
  "process_ok n fk ev \<longleftrightarrow> process_all n (service_ok fk) ev \<and> (case ev of PrStep _ \<Rightarrow> True | PrCrash cs \<Rightarrow> length cs = n)"

definition process_before :: "nat \<Rightarrow> u64 \<Rightarrow> process_event \<Rightarrow> bool" where
  "process_before n t ev \<longleftrightarrow> process_all n (\<lambda>s. \<not> gw_at_or_after t (service_call s)) ev"

lemma shard_services_simps [simp]:
  "shard_services i [] = []"
  "shard_services i (ev # evs) = (case shard_service i ev of None \<Rightarrow> [] | Some s \<Rightarrow> [s]) @ shard_services i evs"
  "shard_services i (evs @ evs') = shard_services i evs @ shard_services i evs'"
  by (simp_all add: shard_services_def List.map_filter_def split: option.split)

lemma shard_services_steps: "shard_services i (map PrStep evs) = map SvCall (shard_events i evs)"
  by (induction evs) (simp_all add: shard_events_def List.map_filter_def split: option.split)

lemma shard_services_all:
  assumes "i < n" and "\<forall>ev \<in> set evs. process_all n P ev"
  shows "\<forall>s \<in> set (shard_services i evs). P s"
proof
  fix s assume "s \<in> set (shard_services i evs)"
  then obtain ev where ev: "ev \<in> set evs" "shard_service i ev = Some s" by (auto simp: shard_services_def List.map_filter_def)
  have "case shard_service i ev of None \<Rightarrow> True | Some s \<Rightarrow> P s" using assms ev(1) by (simp add: process_all_def list_all_iff)
  then show "P s" using ev(2) by simp
qed

lemma wal_path_inj: "wal_path p i = wal_path p j \<longleftrightarrow> i = j"
  using print_uint_digits by (auto simp: wal_path_def) metis

lemma disk_lookup:
  "length imgs = n \<Longrightarrow> i < n \<Longrightarrow> map_of (zip (map (wal_path p) [0..<n]) imgs) (wal_path p i) = Some (imgs ! i)"
  by (rule map_of_is_SomeI) (auto simp: distinct_map inj_on_def wal_path_inj in_set_zip intro!: exI [of _ i])

section \<open>Starting\<close>

lemma process_start_opens:
  assumes "0 < env_shards env par" and "length imgs = env_shards env par"
    and "\<And>i. i < env_shards env par \<Longrightarrow> ws_open io_ok (imgs ! i) = Inr (w i)"
  obtains r where "process_start env par ord imgs = Inr r"
    and "shards r = map (\<lambda>i. with_fingerprint_key (gateway_new (engine_new (wal_ops ord) (w i) GATEWAY_LEASE_MS) ruleset_new)
      (env_key env)) [0..<env_shards env par]"
proof -
  let ?files = "\<lambda>path. case map_of (zip (map (wal_path (env_wal_prefix env)) [0..<length imgs]) imgs) path of
    Some img \<Rightarrow> img | None \<Rightarrow> []"
  have "ws_open io_ok (?files (wal_path (env_wal_prefix env) i)) = Inr (w i)" if "i < env_shards env par" for i
    using assms(2,3) that by (simp add: disk_lookup)
  with gateway_main_opens [OF assms(1), of io_ok ?files w ord] that show thesis unfolding process_start_def by blast
qed

definition process_inv :: "(bytes \<Rightarrow> bytes option) \<Rightarrow> nat option \<Rightarrow> wal_store router \<Rightarrow> bool" where
  "process_inv env par r \<longleftrightarrow> length (shards r) = env_shards env par \<and> 0 < env_shards env par \<and>
     (\<forall>g \<in> set (shards r). service_inv (env_key env) GATEWAY_LEASE_MS DEFAULT_TTL_MS g)"

lemma process_start_empty:
  assumes "par \<noteq> Some 0"
  obtains r where "process_start env par ord [] = Inr r"
    and "shards r = replicate (env_shards env par) (fresh_gateway (env_key env) GATEWAY_LEASE_MS DEFAULT_TTL_MS)"
    and "process_inv env par r"
proof -
  have n: "0 < env_shards env par" using assms by (auto simp: env_shards_def split: option.split)
  obtain r where r: "process_start env par ord [] = Inr r"
      "shards r = map (\<lambda>i. with_fingerprint_key (gateway_new (engine_new (wal_ops ord)
        (eng_store (fresh_node True GATEWAY_LEASE_MS DEFAULT_TTL_MS)) GATEWAY_LEASE_MS) ruleset_new) (env_key env)) [0..<env_shards env par]"
    using gateway_main_opens [OF n, of io_ok "\<lambda>_. []" "\<lambda>_. eng_store (fresh_node True GATEWAY_LEASE_MS DEFAULT_TTL_MS)" ord]
    by (auto simp: process_start_def ws_open_def fresh_node_open(1) [of True GATEWAY_LEASE_MS DEFAULT_TTL_MS])
  then have s: "shards r = replicate (env_shards env par) (fresh_gateway (env_key env) GATEWAY_LEASE_MS DEFAULT_TTL_MS)"
    by (simp add: engine_new_def fresh_node_open fresh_gateway_def map_replicate_const)
  then have "process_inv env par r" using n by (simp add: process_inv_def fresh_gateway_inv)
  with r(1) s show thesis by (rule that)
qed

section \<open>Steps\<close>

text \<open>A restart gives every shard the gateway that its service restarts with.\<close>

lemma process_crash_shards:
  assumes "process_inv env par r" and "length cs = env_shards env par"
    and "\<And>i. i < env_shards env par \<Longrightarrow> service_step ord (shards r ! i) (SvCrash (fst (cs ! i)) (snd (cs ! i))) = Inr (g i)"
  obtains r' where "process_start env par ord (map2 (shard_image ord) (shards r) cs) = Inr r'"
    and "shards r' = map g [0..<env_shards env par]"
proof -
  let ?n = "env_shards env par" and ?imgs = "map2 (shard_image ord) (shards r) cs"
  have n: "0 < ?n" and len: "length (shards r) = ?n" "length ?imgs = ?n" using assms(1,2) by (simp_all add: process_inv_def)
  define w where "w i = projr (ws_open io_ok (?imgs ! i))" for i
  have w: "ws_open io_ok (?imgs ! i) = Inr (w i)"
      "g i = with_fingerprint_key (gateway_new (engine_new (wal_ops ord) (w i) GATEWAY_LEASE_MS) ruleset_new) (env_key env)"
    if i: "i < ?n" for i
  proof -
    have s: "service_inv (env_key env) GATEWAY_LEASE_MS DEFAULT_TTL_MS (shards r ! i)" using assms(1) i by (simp add: process_inv_def)
    have img: "?imgs ! i = crash_image ord (gw_engine (shards r ! i)) (crash_call (env_key env) (fst (cs ! i))) (snd (cs ! i))"
      using i len assms(2) s by (simp add: shard_image_def service_inv_def)
    have "gateway_restart ord (shards r ! i) (?imgs ! i) = Inr (g i)" using assms(3) [OF i] s by (simp add: img service_inv_def)
    then show "ws_open io_ok (?imgs ! i) = Inr (w i)"
      "g i = with_fingerprint_key (gateway_new (engine_new (wal_ops ord) (w i) GATEWAY_LEASE_MS) ruleset_new) (env_key env)"
      using s by (auto simp: gateway_restart_def node_restart_def w_def ws_open_def engine_new_def service_inv_def split: sum.splits)
  qed
  obtain r' where r': "process_start env par ord ?imgs = Inr r'"
      "shards r' = map (\<lambda>i. with_fingerprint_key (gateway_new (engine_new (wal_ops ord) (w i) GATEWAY_LEASE_MS) ruleset_new) (env_key env)) [0..<?n]"
    by (rule process_start_opens [OF n len(2) w(1)])
  then show thesis using that w(2) by (simp cong: map_cong)
qed

lemma process_step_shards:
  assumes "iteration_order ord" and "process_inv env par r" and "process_ok (env_shards env par) (env_key env) ev"
  obtains r' where "process_step env par aord hash ord r ev = Inr r'" and "process_inv env par r'"
    and "\<And>i. i < env_shards env par \<Longrightarrow> service_exec ord (shards r ! i) (shard_services i [ev]) = Inr (shards r' ! i)"
proof -
  let ?n = "env_shards env par" and ?inv = "service_inv (env_key env) GATEWAY_LEASE_MS DEFAULT_TTL_MS"
  have len: "length (shards r) = ?n" "0 < ?n" using assms(2) by (simp_all add: process_inv_def)
  define g where "g i = projr (service_exec ord (shards r ! i) (shard_services i [ev]))" for i
  have g: "service_exec ord (shards r ! i) (shard_services i [ev]) = Inr (g i)" "?inv (g i)" if i: "i < ?n" for i
  proof -
    have "?inv (shards r ! i)" using assms(2) i by (simp add: process_inv_def)
    moreover have "\<forall>s \<in> set (shard_services i [ev]). service_ok (env_key env) s"
      by (rule shard_services_all [OF i]) (use assms(3) in \<open>simp add: process_ok_def\<close>)
    ultimately obtain g' where "service_exec ord (shards r ! i) (shard_services i [ev]) = Inr g'" "?inv g'"
      by (rule service_exec_inv [OF assms(1)])
    then show "service_exec ord (shards r ! i) (shard_services i [ev]) = Inr (g i)" "?inv (g i)" by (simp_all add: g_def)
  qed
  obtain r' where r': "process_step env par aord hash ord r ev = Inr r'" "shards r' = map g [0..<?n]"
  proof (cases ev)
    case (PrStep e)
    have "shards (router_step aord hash (wal_ops ord) r e) = map g [0..<?n]"
    proof (rule nth_equalityI)
      show "shards (router_step aord hash (wal_ops ord) r e) ! i = map g [0..<?n] ! i"
        if "i < length (shards (router_step aord hash (wal_ops ord) r e))" for i
        using that g(1) [of i] len router_step_shard [of i r aord hash "wal_ops ord" e] by (auto simp: PrStep split: option.splits)
    qed (simp add: len)
    then show thesis using that PrStep by simp
  next
    case (PrCrash cs)
    have "service_step ord (shards r ! i) (SvCrash (fst (cs ! i)) (snd (cs ! i))) = Inr (g i)" if "i < ?n" for i
      using g(1) [OF that] by (auto simp: PrCrash split: sum.splits)
    with assms(2,3) obtain r' where "process_start env par ord (map2 (shard_image ord) (shards r) cs) = Inr r'" "shards r' = map g [0..<?n]"
      using process_crash_shards [of env par r cs ord g] by (auto simp: process_ok_def PrCrash)
    then show thesis using that PrCrash by simp
  qed
  then show thesis using that g len(2) by (fastforce simp: process_inv_def)
qed

text \<open>The process runs through any events and crashes, and each shard is a run of the service.\<close>

lemma service_exec_append:
  "service_exec ord g xs = Inr g' \<Longrightarrow> service_exec ord g (xs @ ys) = service_exec ord g' ys"
  by (induction xs arbitrary: g) (auto split: sum.splits)

lemma process_exec_shards:
  assumes "iteration_order ord" and "process_inv env par r" and "\<forall>ev \<in> set evs. process_ok (env_shards env par) (env_key env) ev"
  shows "\<exists>r'. process_exec env par aord hash ord r evs = Inr r' \<and> process_inv env par r' \<and>
    (\<forall>i < env_shards env par. service_exec ord (shards r ! i) (shard_services i evs) = Inr (shards r' ! i))"
  using assms(2,3)
proof (induction evs arbitrary: r)
  case (Cons ev evs)
  obtain r1 where r1: "process_step env par aord hash ord r ev = Inr r1" "process_inv env par r1"
    "\<And>i. i < env_shards env par \<Longrightarrow> service_exec ord (shards r ! i) (shard_services i [ev]) = Inr (shards r1 ! i)"
    using process_step_shards [OF assms(1) Cons.prems(1), of ev aord hash] Cons.prems(2) by auto
  obtain r' where r': "process_exec env par aord hash ord r1 evs = Inr r'" "process_inv env par r'"
    "\<forall>i < env_shards env par. service_exec ord (shards r1 ! i) (shard_services i evs) = Inr (shards r' ! i)"
    using Cons.IH [OF r1(2)] Cons.prems(2) by auto
  have "service_exec ord (shards r ! i) (shard_services i (ev # evs)) = Inr (shards r' ! i)" if "i < env_shards env par" for i
    using service_exec_append [OF r1(3) [OF that], of "shard_services i evs"] r'(3) that by simp
  with r1(1) r'(1,2) show ?case by simp
qed simp

section \<open>Properties\<close>

text \<open>C1. End to end. Let the gateway binary, started on an empty disk and run through any requests and any crashes and
  restarts of the process, forward a keyed request at \<open>now\<close>, and let its response (below 500) come back within the
  lease while other requests interleave on all shards. Then, through any further requests, prunings and crashes at any byte
  before the outcome expires, every restart succeeds and every request with that key is routed to the same
  shard and answered without the backend: with the cached response if it is the same request, with 422 if not.\<close>

theorem process_exactly_once:
  assumes "iteration_order ord" and "par \<noteq> Some 0"
    and "\<forall>ev \<in> set (evs0 @ map PrStep (RtBegin i q now # evs1 @ [RtComplete i (ForwardTicket (Some tok)) (Inr response) t]) @ evs2).
      process_ok (env_shards env par) (env_key env) ev"
    and "process_run env par aord hash ord evs0 = Inr r"
    and "i = fst (route_shard hash r q)"
    and "begin_on (wal_ops ord) r i q now = (Inr (ForwardTicket (Some tok)), r1)"
    and "\<forall>ev \<in> set evs1. \<not> rt_at_or_after (saturating_add now GATEWAY_LEASE_MS) ev"
    and "\<forall>j f t. RtComplete j (ForwardTicket (Some tok)) f t \<notin> set evs1"
    and "res_status response < 500"
    and "\<forall>ev \<in> set evs2. process_before (env_shards env par) (saturating_add t DEFAULT_TTL_MS) ev"
    and "request_key q' = request_key q" and "now' < saturating_add t DEFAULT_TTL_MS"
  shows "\<exists>r2. process_exec env par aord hash ord r1
      (map PrStep (evs1 @ [RtComplete i (ForwardTicket (Some tok)) (Inr response) t]) @ evs2) = Inr r2 \<and>
    fst (route_shard hash r2 q') = i \<and>
    fst (begin_on (wal_ops ord) r2 i q' now') =
      Inl (if fingerprint_of q' (env_key env) = fingerprint_of q (env_key env)
           then tag (from_outcome (to_outcome response)) (ascii ''replayed'')
           else tagged_status 422 (ascii ''mismatch''))"
proof -
  let ?o = "wal_ops ord" and ?n = "env_shards env par"
  let ?evs = "map PrStep (RtBegin i q now # evs1 @ [RtComplete i (ForwardTicket (Some tok)) (Inr response) t]) @ evs2"
  obtain r0 where r0: "process_start env par ord [] = Inr r0" "process_inv env par r0" by (rule process_start_empty [OF assms(2)])
  have inv: "process_inv env par r"
    using process_exec_shards [OF assms(1) r0(2), of evs0 aord hash] assms(3,4) r0(1) by (auto simp: process_run_def)
  then have len: "length (shards r) = ?n" "0 < ?n" by (simp_all add: process_inv_def)
  have fwd: "fst (gw_begin_phase ?o (shards r ! i) q now) = Phase_Forward (ForwardTicket (Some tok))"
    using begin_on_fst [of ?o r i q now] assms(6) by (simp split: begin_phase.splits)
  note key = begin_phase_token(1) [OF fwd]
  have i: "i = unat (hash (key_bytes (tok_key tok))) mod ?n" using route_keyed [OF key, of hash r] assms(5) len by simp
  then have il: "i < ?n" using len by simp
  have ok: "\<forall>ev \<in> set ?evs. process_ok ?n (env_key env) ev" using assms(3) by auto
  obtain r2 where r2: "process_exec env par aord hash ord r ?evs = Inr r2" "process_inv env par r2"
      "service_exec ord (shards r ! i) (shard_services i ?evs) = Inr (shards r2 ! i)"
    using process_exec_shards [OF assms(1) inv ok, of aord hash] il by blast
  have proj: "shard_services i ?evs = map SvCall (GwBegin q now # shard_events i evs1 @
      [GwComplete (ForwardTicket (Some tok)) (Inr response) t]) @ shard_services i evs2"
    by (simp add: shard_services_steps)
  have sok: "\<forall>s \<in> set (shard_services i ?evs). service_ok (env_key env) s"
    by (rule shard_services_all [OF il]) (use ok in \<open>simp add: process_ok_def\<close>)
  have before: "\<forall>s \<in> set (shard_services i evs2). \<not> gw_at_or_after (saturating_add t DEFAULT_TTL_MS) (service_call s)"
    by (rule shard_services_all [OF il]) (use assms(10) in \<open>simp add: process_before_def\<close>)
  have "service_inv (env_key env) GATEWAY_LEASE_MS DEFAULT_TTL_MS (shards r ! i)" using inv il by (simp add: process_inv_def)
  from service_run_replays [OF assms(1) this sok [unfolded proj] fwd shard_events_times [OF assms(7)]
      shard_events_complete [OF assms(8)] assms(9) before assms(11,12)] r2(3)
  have ans: "fst (begin_on ?o r2 i q' now') = Inl (if fingerprint_of q' (env_key env) = fingerprint_of q (env_key env)
           then tag (from_outcome (to_outcome response)) (ascii ''replayed'') else tagged_status 422 (ascii ''mismatch''))"
    unfolding proj by (auto simp: begin_on_fst)
  have "fst (route_shard hash r2 q') = i" using route_keyed [of q' "tok_key tok" hash r2] key assms(11) i r2(2) by (simp add: process_inv_def)
  moreover have "process_exec env par aord hash ord r1 (map PrStep (evs1 @ [RtComplete i (ForwardTicket (Some tok)) (Inr response) t]) @ evs2) = Inr r2"
    using r2(1) assms(6) by simp
  ultimately show ?thesis using ans by blast
qed

section \<open>Instances\<close>

lemma sample_service_ok:
  "service_ok fk (SvCall (GwBegin sample_request now))" "service_ok fk (SvCrash (GwBegin sample_request now) n)"
  "service_ok fk (SvCall (GwComplete sample_ticket (Inr \<lparr>res_status = 201, res_headers = [], res_body = [7]\<rparr>) t))"
  by (simp_all add: service_ok_def request_key_def sample_request_key begin_event_ok sample_ticket_def to_outcome_def
      encodable_def wf_key_def wf_str_def wf_fp_def wf_outcome_def put_simps put_headers_append del: event_ok.simps(1))

lemma fresh_gateway_begin:
  "fst (gw_begin_phase (wal_ops ord) (fresh_gateway fk lease ttl) sample_request 0) = Phase_Forward sample_ticket"
  by (simp add: gw_begin_phase_def sample_request_key fresh_gateway_def gateway_new_def with_fingerprint_key_def fresh_node_def
      engine_defs Let_def sample_ticket_def wal_ops_def ws_get_def)

text \<open>One shard; the process crashes in the first retry.\<close>

theorem process_exactly_once_witness:
  "let env = (\<lambda>_. None); ex = process_exec env None (\<lambda>m. m) (\<lambda>_. 3) (\<lambda>m. m);
       response = \<lparr>res_status = 201, res_headers = [], res_body = [7]\<rparr>
   in \<exists>r r1 r2. process_run env None (\<lambda>m. m) (\<lambda>_. 3) (\<lambda>m. m) [] = Inr r \<and>
      begin_on (wal_ops (\<lambda>m. m)) r 0 sample_request 0 = (Inr sample_ticket, r1) \<and>
      ex r1 [PrStep (RtComplete 0 sample_ticket (Inr response) 5), PrCrash [(GwBegin sample_request 6, 2)]] = Inr r2 \<and>
      fst (begin_on (wal_ops (\<lambda>m. m)) r2 0 sample_request 7) = Inl (tag (from_outcome (to_outcome response)) (ascii ''replayed''))"
proof -
  let ?env = "\<lambda>_ :: bytes. None :: bytes option" and ?o = "wal_ops (\<lambda>m. m)"
  let ?res = "\<lparr>res_status = 201, res_headers = [], res_body = [7]\<rparr>"
  have n: "env_shards ?env None = 1" by (simp add: env_shards_def)
  obtain r where r: "process_start ?env None (\<lambda>m. m) [] = Inr r"
      "shards r = [fresh_gateway (env_key ?env) GATEWAY_LEASE_MS DEFAULT_TTL_MS]"
    using process_start_empty [of None ?env "\<lambda>m. m"] n by auto
  have run: "process_run ?env None (\<lambda>m. m) (\<lambda>_. 3) (\<lambda>m. m) [] = Inr r" unfolding process_run_def r(1) by simp
  have i: "0 = fst (route_shard (\<lambda>_. 3) r sample_request)"
    by (simp add: route_shard_def sample_request_key shard_for_key_def r(2))
  obtain r1 where r1: "begin_on ?o r 0 sample_request 0 = (Inr sample_ticket, r1)"
    using begin_on_fst [of ?o r 0 sample_request 0] fresh_gateway_begin r(2) by (cases "begin_on ?o r 0 sample_request 0") simp
  have times: "saturating_add (5 :: u64) DEFAULT_TTL_MS = 86400005" by (simp add: saturating_add_def DEFAULT_TTL_MS_def)
  have ok: "\<forall>ev \<in> set ([] @ map PrStep (RtBegin 0 sample_request 0 # [] @ [RtComplete 0 sample_ticket (Inr ?res) 5]) @
      [PrCrash [(GwBegin sample_request 6, 2)]]). process_ok (env_shards ?env None) (env_key ?env) ev"
    using sample_service_ok by (simp add: n process_ok_def process_all_def)
  from process_exactly_once [OF iteration_order_id _ ok [unfolded sample_ticket_def] run i r1 [unfolded sample_ticket_def], of sample_request 7]
  obtain r2 where "process_exec ?env None (\<lambda>m. m) (\<lambda>_. 3) (\<lambda>m. m) r1
      [PrStep (RtComplete 0 sample_ticket (Inr ?res) 5), PrCrash [(GwBegin sample_request 6, 2)]] = Inr r2"
    "fst (begin_on ?o r2 0 sample_request 7) = Inl (tag (from_outcome (to_outcome ?res)) (ascii ''replayed''))"
    by (auto simp: n times process_before_def process_all_def sample_ticket_def)
  with run r1 show ?thesis unfolding Let_def by blast
qed

end
