(* ===== verification/Onced_Uring.thy ===== *)
theory Onced_Uring
  imports Onced_Server
begin

text \<open>
  \<^verbatim>\<open>onced-uring/src/main.rs\<close>: the io_uring server around the router. A socket is the list of the results of
  its reads, an empty list being the end of the stream. The runtime, the listener and the threads are
  not modelled; the model is what a connection reads, answers and forwards.
\<close>

definition URING_LEASE_MS :: u64 where
  "URING_LEASE_MS = 30000"

definition MAX_REQUEST :: nat where
  "MAX_REQUEST = 256 * 1024"

definition uring_threads :: "(bytes \<Rightarrow> bytes option) \<Rightarrow> nat option \<Rightarrow> nat" where
  "uring_threads env parallelism =
     (case Option.bind (env (ascii ''ONCED_THREADS'')) (parse_uint USIZE_BOUND) of
        Some n \<Rightarrow> if 0 < n then n else (case parallelism of Some p \<Rightarrow> p | None \<Rightarrow> 1)
      | None \<Rightarrow> (case parallelism of Some p \<Rightarrow> p | None \<Rightarrow> 1))"

definition uring_router :: "nat \<Rightarrow> router_panic + memory_store router" where
  "uring_router threads =
     router_new (replicate threads (gateway_new (engine_new memory_ops ms_new URING_LEASE_MS) ruleset_new))
       (replicate threads ruleset_new)"

text \<open>The allocation panic of the parser is not an \<open>Err\<close> and ends the task.\<close>

fun uring_read_request :: "(io_error + bytes) list \<Rightarrow> bytes \<Rightarrow> io_error + http_request option" where
  "uring_read_request [] acc = Inr None"
| "uring_read_request (Inl err # reads) acc = Inl err"
| "uring_read_request (Inr chunk # reads) acc =
     (if chunk = [] then Inr None
      else
        let acc = acc @ chunk
        in case parse_request \<lparr>rd_bytes = acc, rd_fails = False\<rparr> of
             Inr (Some request, _) \<Rightarrow> Inr (Some request)
           | Inr (None, _) \<Rightarrow> Inr None
           | Inl CapacityOverflow \<Rightarrow> Inl CapacityOverflow
           | Inl _ \<Rightarrow> if length acc < MAX_REQUEST then uring_read_request reads acc else Inr None)"

fun uring_read_all :: "(io_error + bytes) list \<Rightarrow> bytes \<Rightarrow> io_error + bytes" where
  "uring_read_all [] acc = Inr acc"
| "uring_read_all (Inl err # reads) acc = Inl err"
| "uring_read_all (Inr chunk # reads) acc = (if chunk = [] then Inr acc else uring_read_all reads (acc @ chunk))"

text \<open>The backend: its reads after the request was sent, or the error of connecting or sending.\<close>

definition uring_forward :: "(bytes \<Rightarrow> io_error + (io_error + bytes) list) \<Rightarrow> http_request \<Rightarrow> io_error + http_response" where
  "uring_forward backend request =
     (case backend (write_request request) of
        Inl err \<Rightarrow> Inl err
      | Inr reads \<Rightarrow>
          (case uring_read_all reads [] of
             Inl err \<Rightarrow> Inl err
           | Inr acc \<Rightarrow>
               (case parse_response \<lparr>rd_bytes = acc, rd_fails = False\<rparr> of
                  Inl err \<Rightarrow> Inl err
                | Inr (response, _) \<Rightarrow> Inr response)))"

definition serve_connection ::
    "((bytes, window_counter) hashmap \<Rightarrow> (bytes, window_counter) hashmap) \<Rightarrow> (bytes \<Rightarrow> u64) \<Rightarrow>
       (bytes \<Rightarrow> io_error + (io_error + bytes) list) \<Rightarrow> memory_store router \<Rightarrow> (io_error + bytes) list \<Rightarrow> u64 \<Rightarrow>
       (io_error + bytes) \<times> memory_store router" where
  "serve_connection ord hash backend r reads now =
     (case uring_read_request reads [] of
        Inl err \<Rightarrow> (Inl err, r)
      | Inr None \<Rightarrow> (Inr [], r)
      | Inr (Some request) \<Rightarrow>
          let (response, r) = router_handle_async ord hash memory_ops r request now (\<lambda>_. uring_forward backend request)
          in (Inr (write_response response), r))"

section \<open>Properties\<close>

lemma parse_headers_cut:
  "list_all wf_header hs \<Longrightarrow>
   parse_headers msg \<lparr>rd_bytes = concat (map header_line hs), rd_fails = False\<rparr> acc =
     Inr (acc @ hs, \<lparr>rd_bytes = [], rd_fails = False\<rparr>)"
  by (induction hs arbitrary: acc) (simp_all add: parse_headers_eof wf_header_line)

abbreviation request_line :: "http_request \<Rightarrow> bytes" where
  "request_line r \<equiv> req_method r @ 32 # req_target r @ 32 # ascii ''HTTP/1.1''"

lemma request_line_ok:
  assumes "wf_request r"
  shows "utf8_valid (request_line r)" "10 \<notin> set (request_line r)"
    "request_line r = [] \<or> \<not> is_crlf (last (request_line r))"
    "split_char 32 (request_line r) = [req_method r, req_target r, ascii ''HTTP/1.1'']"
proof -
  have wf: "utf8_valid (req_method r)" "utf8_valid (req_target r)" "32 \<notin> set (req_method r)" "10 \<notin> set (req_method r)"
    "32 \<notin> set (req_target r)" "10 \<notin> set (req_target r)"
    using assms by (auto simp: wf_request_def)
  have "utf8_valid (req_method r @ [32] @ req_target r @ [32] @ ascii ''HTTP/1.1'')"
    using wf by (intro utf8_valid_append) (simp_all add: line_literals)
  then show "utf8_valid (request_line r)" "10 \<notin> set (request_line r)"
    "request_line r = [] \<or> \<not> is_crlf (last (request_line r))"
    using wf line_literals by auto
  show "split_char 32 (request_line r) = [req_method r, req_target r, ascii ''HTTP/1.1'']"
    using wf(3,5) line_literals(5) by (simp add: split_char_word split_char_last)
qed

text \<open>C35. A request whose first read ends after some of its header lines is taken as complete: when those
  headers have no \<open>Content-Length\<close>, the server handles a request with only them and no body, and
  never looks at the reads that bring the rest, an \<open>Idempotency-Key\<close> among them.\<close>

theorem uring_split_request:
  assumes "wf_request r" and "req_headers r = hs @ later" and "content_length hs = None"
  shows "uring_read_request (Inr (request_line r @ CRLF @ concat (map header_line hs)) # reads) [] =
    Inr (Some (r\<lparr>req_headers := hs, req_body := []\<rparr>))"
proof -
  have ne: "req_method r \<noteq> []" "req_target r \<noteq> []" and hs: "list_all wf_header hs"
    using assms(1,2) by (auto simp: wf_request_def)
  note line = request_line_ok [OF assms(1)]
  have "parse_request \<lparr>rd_bytes = request_line r @ CRLF @ concat (map header_line hs), rd_fails = False\<rparr> =
      Inr (Some (r\<lparr>req_headers := hs, req_body := []\<rparr>), \<lparr>rd_bytes = [], rd_fails = False\<rparr>)"
    unfolding parse_request_def first_line(1) [OF line(1-3)]
    using first_line(2) [OF line(1-3)] line(4) ne parse_headers_cut [OF hs] assms(3)
    by (simp add: nth_or_empty_def read_body_def)
  then show ?thesis by simp
qed

theorem uring_split_request_witness:
  "uring_read_request (Inr ([71] @ 32 # [47] @ 32 # ascii ''HTTP/1.1'' @ CRLF) # [Inr (header_line ([65], [66]) @ CRLF)]) [] =
   Inr (Some \<lparr>req_method = [71], req_target = [47], req_headers = [], req_body = []\<rparr>)"
proof -
  let ?r = "\<lparr>req_method = [71], req_target = [47], req_headers = [([65], [66])], req_body = []\<rparr>"
  have "wf_request ?r" by (simp add: wf_request_def sample_header)
  moreover have "content_length [] = None" by code_simp
  ultimately show ?thesis
    using uring_split_request [of ?r "[]" "[([65], [66])]" "[Inr (header_line ([65], [66]) @ CRLF)]"] by simp
qed

lemma read_request_bounded:
  "reads \<noteq> [] \<Longrightarrow> MAX_REQUEST \<le> length acc + length reads \<Longrightarrow>
   uring_read_request (reads @ later) acc = uring_read_request reads acc"
proof (induction reads acc rule: uring_read_request.induct)
  case (3 chunk reads acc)
  show ?case
  proof (cases "chunk = [] \<or> MAX_REQUEST \<le> length (acc @ chunk)")
    case False
    then have "reads \<noteq> []" "MAX_REQUEST \<le> length (acc @ chunk) + length reads"
      using "3.prems"(2) by (cases reads; cases chunk; auto)+
    with False "3.IH" show ?thesis by (auto simp: Let_def split: sum.split io_error.split option.split)
  qed (auto simp: Let_def split: sum.split io_error.split option.split)
qed simp_all

text \<open>C36. A connection cannot keep the server reading. Whatever a client sends and however it splits it, \<open>read_request\<close>
  returns after at most \<open>MAX_REQUEST\<close> reads: what later reads would bring makes no difference.\<close>

theorem uring_read_terminates:
  assumes "MAX_REQUEST \<le> length reads"
  shows "uring_read_request (reads @ later) [] = uring_read_request reads []"
proof -
  have "reads \<noteq> []" using assms by (auto simp: MAX_REQUEST_def)
  with assms show ?thesis by (simp add: read_request_bounded)
qed

theorem uring_read_terminates_witness:
  "uring_read_request (replicate MAX_REQUEST (Inr [0xff]) @ [Inr [1]]) [] = uring_read_request (replicate MAX_REQUEST (Inr [0xff])) []"
  by (rule uring_read_terminates) simp

end
