(* ===== verification/Onced_Fast.thy ===== *)
theory Onced_Fast
  imports Onced_Server "HOL-Library.Sublist"
begin

text \<open>
  \<^verbatim>\<open>onced-fast/src/lib.rs\<close> and \<^verbatim>\<open>main.rs\<close>: the asynchronous transport. The functions it calls of axum, http and
  reqwest are the fields of \<open>http_libs\<close>; connection pooling, timeouts and the accept loop are theirs. The lemmas
  show that retries through this transport are answered from the cache without a backend call, and that a key
  which \<open>HeaderValue::to_str\<close> does not read is dropped.
\<close>

section \<open>What the libraries provide\<close>

record 'b axum_request =
  ax_method :: bytes
  ax_path_and_query :: "bytes option"
  ax_headers :: "(bytes \<times> bytes) list"
  ax_body :: 'b

record axum_response =
  axr_status :: u16
  axr_headers :: "(bytes \<times> bytes) list"
  axr_body :: bytes

record reqwest_request =
  rq_method :: bytes
  rq_url :: bytes
  rq_headers :: "(bytes \<times> bytes) list"
  rq_body :: "bytes option"

text \<open>A response whose body could not be read has \<open>None\<close>.\<close>

record reqwest_response =
  rp_status :: u16
  rp_headers :: "(bytes \<times> bytes) list"
  rp_body :: "bytes option"

text \<open>\<open>to_bytes\<close> (\<open>None\<close> is any error), \<open>HeaderValue::to_str\<close>, \<open>Method::from_bytes\<close>, whether
  \<open>Response::builder\<close> accepts a status and headers, and \<open>RequestBuilder::send\<close>.\<close>

record 'b http_libs =
  lib_to_bytes :: "'b \<Rightarrow> nat \<Rightarrow> bytes option"
  lib_to_str :: "bytes \<Rightarrow> bytes option"
  lib_method_ok :: "bytes \<Rightarrow> bool"
  lib_response_ok :: "u16 \<Rightarrow> (bytes \<times> bytes) list \<Rightarrow> bool"
  lib_send :: "reqwest_request \<Rightarrow> reqwest_response option"

section \<open>The proxy\<close>

definition MAX_BODY :: nat where
  "MAX_BODY = 1024 * 1024"

record 's proxy =
  px_router :: "'s router"
  px_backend :: bytes
  px_max_body :: nat

definition proxy_with_client :: "'s router \<Rightarrow> bytes \<Rightarrow> nat \<Rightarrow> 's proxy" where
  "proxy_with_client r backend max_body =
     (let backend = (if \<not> prefix (ascii ''http://'') backend \<and> \<not> prefix (ascii ''https://'') backend
                     then ascii ''http://'' @ backend else backend)
      in \<lparr>px_router = r, px_backend = backend, px_max_body = max_body\<rparr>)"

definition proxy_new :: "'s router \<Rightarrow> bytes \<Rightarrow> 's proxy" where
  "proxy_new r backend = proxy_with_client r backend MAX_BODY"

text \<open>The loop that keeps the headers whose value \<open>to_str\<close> reads.\<close>

definition readable_headers :: "'b http_libs \<Rightarrow> (bytes \<times> bytes) list \<Rightarrow> (bytes \<times> bytes) list" where
  "readable_headers L hs = List.map_filter (\<lambda>(name, value). map_option (Pair name) (lib_to_str L value)) hs"

definition to_onced_request :: "'b http_libs \<Rightarrow> 'b axum_request \<Rightarrow> bytes \<Rightarrow> http_request" where
  "to_onced_request L parts body =
     \<lparr>req_method = ax_method parts,
      req_target = (case ax_path_and_query parts of Some pq \<Rightarrow> pq | None \<Rightarrow> ascii ''/''),
      req_headers = readable_headers L (ax_headers parts),
      req_body = body\<rparr>"

definition owned_by_client :: "bytes \<Rightarrow> bool" where
  "owned_by_client name \<longleftrightarrow> eq_ignore_ascii_case name (ascii ''host'') \<or>
     eq_ignore_ascii_case name (ascii ''content-length'') \<or> eq_ignore_ascii_case name (ascii ''connection'')"

definition fast_forward :: "'b http_libs \<Rightarrow> bytes \<Rightarrow> http_request \<Rightarrow> io_error + http_response" where
  "fast_forward L backend req =
     (let url = backend @ req_target req
      in if \<not> lib_method_ok L (req_method req) then Inl IoFailure
         else case lib_send L \<lparr>rq_method = req_method req, rq_url = url,
                 rq_headers = filter (\<lambda>(name, value). \<not> owned_by_client name) (req_headers req),
                 rq_body = (if req_body req = [] then None else Some (req_body req))\<rparr> of
             None \<Rightarrow> Inl IoFailure
           | Some resp \<Rightarrow>
               (case rp_body resp of
                  None \<Rightarrow> Inl IoFailure
                | Some body \<Rightarrow>
                    Inr \<lparr>res_status = rp_status resp, res_headers = readable_headers L (rp_headers resp), res_body = body\<rparr>))"

text \<open>\<open>None\<close> is the panic of \<open>expect\<close>.\<close>

definition text_response :: "'b http_libs \<Rightarrow> u16 \<Rightarrow> bytes \<Rightarrow> axum_response option" where
  "text_response L status message =
     (if lib_response_ok L status [] then Some \<lparr>axr_status = status, axr_headers = [], axr_body = message\<rparr> else None)"

definition to_axum_response :: "'b http_libs \<Rightarrow> http_response \<Rightarrow> axum_response option" where
  "to_axum_response L resp =
     (if lib_response_ok L (res_status resp) (res_headers resp)
      then Some \<lparr>axr_status = res_status resp, axr_headers = res_headers resp, axr_body = res_body resp\<rparr>
      else text_response L 502 (ascii ''malformed upstream response''))"

definition dispatch ::
    "((bytes, window_counter) hashmap \<Rightarrow> (bytes, window_counter) hashmap) \<Rightarrow> (bytes \<Rightarrow> u64) \<Rightarrow> 's store_ops \<Rightarrow>
       'b http_libs \<Rightarrow> 's proxy \<Rightarrow> 'b axum_request \<Rightarrow> u64 \<Rightarrow> axum_response option \<times> 's proxy" where
  "dispatch ord hash ops L p req now =
     (case lib_to_bytes L (ax_body req) (px_max_body p) of
        None \<Rightarrow> (text_response L 413 (ascii ''request body too large''), p)
      | Some body \<Rightarrow>
          let onced_req = to_onced_request L req body;
              (response, r) = router_handle_async ord hash ops (px_router p) onced_req now
                (\<lambda>_. fast_forward L (px_backend p) onced_req)
          in (to_axum_response L response, p\<lparr>px_router := r\<rparr>))"

section \<open>The binary\<close>

definition FAST_LEASE_MS :: u64 where
  "FAST_LEASE_MS = 30000"

definition fast_env_or :: "(bytes \<Rightarrow> bytes option) \<Rightarrow> bytes \<Rightarrow> bytes \<Rightarrow> bytes" where
  "fast_env_or env key dflt = (case env key of Some v \<Rightarrow> v | None \<Rightarrow> dflt)"

definition fast_env_shards :: "(bytes \<Rightarrow> bytes option) \<Rightarrow> nat option \<Rightarrow> nat" where
  "fast_env_shards env parallelism =
     (case Option.bind (env (ascii ''ONCED_SHARDS'')) (parse_uint USIZE_BOUND) of
        Some n \<Rightarrow> if 0 < n then n else (case parallelism of Some p \<Rightarrow> p | None \<Rightarrow> 1)
      | None \<Rightarrow> (case parallelism of Some p \<Rightarrow> p | None \<Rightarrow> 1))"

definition fast_hex_nibble :: "u8 \<Rightarrow> u8 option" where
  "fast_hex_nibble b =
     (if 48 \<le> b \<and> b \<le> 57 then Some (b - 48)
      else if 97 \<le> b \<and> b \<le> 102 then Some (b - 97 + 10)
      else if 65 \<le> b \<and> b \<le> 70 then Some (b - 65 + 10)
      else None)"

fun fast_hex_pairs :: "bytes \<Rightarrow> bytes option" where
  "fast_hex_pairs (a # b # s) =
     (case fast_hex_nibble a of None \<Rightarrow> None
      | Some hi \<Rightarrow>
          (case fast_hex_nibble b of None \<Rightarrow> None
           | Some lo \<Rightarrow> map_option (\<lambda>out. (push_bit 4 hi OR lo) # out) (fast_hex_pairs s)))"
| "fast_hex_pairs [] = Some []"
| "fast_hex_pairs [a] = None"

definition fast_parse_hex32 :: "bytes \<Rightarrow> bytes option" where
  "fast_parse_hex32 s = (let s = trim s in if length s \<noteq> 64 then None else fast_hex_pairs s)"

definition fast_env_fingerprint_key :: "(bytes \<Rightarrow> bytes option) \<Rightarrow> bytes \<Rightarrow> bytes" where
  "fast_env_fingerprint_key env wal_prefix =
     (case env (ascii ''ONCED_FINGERPRINT_KEY'') of
        Some hex \<Rightarrow> (case fast_parse_hex32 hex of Some key \<Rightarrow> key | None \<Rightarrow> sha256 wal_prefix)
      | None \<Rightarrow> sha256 wal_prefix)"

fun fast_open_shards ::
    "(io_call \<Rightarrow> bool) \<Rightarrow> (bytes \<Rightarrow> bytes) \<Rightarrow> (log \<Rightarrow> log) \<Rightarrow> bytes \<Rightarrow> bytes \<Rightarrow> nat list \<Rightarrow>
       wal_error + wal_store gateway list" where
  "fast_open_shards io files word key wal_prefix [] = Inr []"
| "fast_open_shards io files word key wal_prefix (i # is) =
     (case ws_open io (files (wal_prefix @ ascii ''.'' @ print_uint i @ ascii ''.wal'')) of
        Inl err \<Rightarrow> Inl err
      | Inr store \<Rightarrow>
          (case fast_open_shards io files word key wal_prefix is of
             Inl err \<Rightarrow> Inl err
           | Inr ss \<Rightarrow>
               Inr (with_fingerprint_key (gateway_new (engine_new (wal_ops word) store FAST_LEASE_MS) ruleset_new) key
                 # ss)))"

definition fast_main ::
    "(bytes \<Rightarrow> bytes option) \<Rightarrow> nat option \<Rightarrow> (io_call \<Rightarrow> bool) \<Rightarrow> (bytes \<Rightarrow> bytes) \<Rightarrow> (log \<Rightarrow> log) \<Rightarrow>
       main_error + wal_store proxy" where
  "fast_main env parallelism io files word =
     (let backend = fast_env_or env (ascii ''ONCED_BACKEND'') (ascii ''127.0.0.1:9000'');
          wal_prefix = fast_env_or env (ascii ''ONCED_WAL'') (ascii ''onced-fast'');
          shard_count = fast_env_shards env parallelism;
          fingerprint_key = fast_env_fingerprint_key env wal_prefix
      in case fast_open_shards io files word fingerprint_key wal_prefix [0..<shard_count] of
           Inl err \<Rightarrow> Inl (Main_Wal err)
         | Inr ss \<Rightarrow>
             (case ruleset_rule ruleset_new (ascii ''per-ip-per-second'') 1000 50 Throttle of
                Inl err \<Rightarrow> Inl (Main_Limiter err)
              | Inr rs \<Rightarrow>
                  (case router_new ss (replicate shard_count rs) of
                     Inl err \<Rightarrow> Inl (Main_Router err)
                   | Inr r \<Rightarrow> Inr (proxy_new r backend))))"

section \<open>Agreement with the gateway binary\<close>

lemma fast_hex_nibble_eq: "fast_hex_nibble = hex_nibble"
  by (simp add: fun_eq_iff fast_hex_nibble_def hex_nibble_def)

lemma fast_hex_pairs_eq: "fast_hex_pairs s = hex_pairs s"
  by (induction s rule: hex_pairs.induct) (auto simp: fast_hex_nibble_eq split: option.split)

lemma fast_parse_hex32_eq: "fast_parse_hex32 = parse_hex32"
  by (simp add: fun_eq_iff fast_parse_hex32_def parse_hex32_def fast_hex_pairs_eq Let_def)

text \<open>Both binaries read the shard count and the fingerprint key from the environment in the same way.\<close>

lemma fast_config_eq:
  "fast_env_or = env_or" "fast_env_shards = env_shards" "fast_env_fingerprint_key = env_fingerprint_key"
  by (auto simp: fun_eq_iff fast_env_or_def env_or_def fast_env_shards_def env_shards_def fast_env_fingerprint_key_def
      env_fingerprint_key_def fast_parse_hex32_eq split: option.split)

lemma fast_open_shards_eq: "fast_open_shards io files word key wal_prefix is = open_shards io files word key wal_prefix is"
  by (induction "is") (simp_all add: wal_path_def FAST_LEASE_MS_def GATEWAY_LEASE_MS_def split: sum.split)

text \<open>With the log prefix set, the two binaries build the same router: either can be restarted as the other on the
  same log files.\<close>

lemma fast_main_eq:
  assumes "env (ascii ''ONCED_WAL'') = Some wal_prefix"
  shows "fast_main env parallelism io files word =
    map_sum id (\<lambda>r. proxy_new r (env_or env (ascii ''ONCED_BACKEND'') (ascii ''127.0.0.1:9000'')))
      (gateway_main env parallelism io files word)"
  using assms by (simp add: fast_main_def gateway_main_def fast_config_eq fast_open_shards_eq main_rules_def env_or_def Let_def
      split: sum.split)

section \<open>Steps of the router\<close>

lemma deny_if_abusive_shards [simp]:
  "shards (snd (deny_if_abusive ord hash r q now)) = shards r"
  by (simp add: deny_if_abusive_def Let_def split: prod.split verdict.split)

lemma route_shard_keyed: "request_key q = Some k \<Longrightarrow> snd (route_shard hash r q) = r"
  by (auto simp: route_shard_def request_key_def split: option.splits)

text \<open>A request that is neither operational nor denied, split at its two phases.\<close>

lemma handle_async_forwards:
  assumes "operational_response r q = None" and "deny_if_abusive ord hash r q now = (None, r0)"
    and "route_shard hash r0 q = (i, r1)" and "begin_on ops r1 i q now = (Inr ticket, r2)"
  shows "router_handle_async ord hash ops r q now forward = complete_on ops r2 i ticket (forward ()) now"
  using assms by (simp add: router_handle_async_def)

lemma handle_async_answers:
  assumes "operational_response r q = None" and "deny_if_abusive ord hash r q now = (None, r0)"
    and "route_shard hash r0 q = (i, r1)" and "fst (begin_on ops r1 i q now) = Inl response"
  shows "fst (router_handle_async ord hash ops r q now forward) = response"
  using assms by (cases "begin_on ops r1 i q now") (simp add: router_handle_async_def)

lemma complete_on_shard:
  "i < length (shards r) \<Longrightarrow>
   shards (snd (complete_on ops r i ticket f now)) ! i = gateway_exec ops (shards r ! i) [GwComplete ticket f now]"
  "length (shards (snd (complete_on ops r i ticket f now))) = length (shards r)"
  by (simp_all add: complete_on_def Let_def split: prod.split)

text \<open>The router after a forwarded request and any further sections before it expires: the shard of its key replays
  the response.\<close>

lemma handled_shard_replays:
  assumes ne: "shards r \<noteq> []" and inv: "\<forall>g \<in> set (shards r). ws_inv (eng_store (gw_engine g))"
    and op: "operational_response r q = None" and deny: "deny_if_abusive ord hash r q now = (None, r0)"
    and i: "i = fst (route_shard hash r0 q)"
    and fwd: "fst (begin_on (wal_ops word) r0 i q now) = Inr (ForwardTicket (Some tok))"
    and resp: "forward () = Inr response" "res_status response < 500"
    and key: "request_key q' = request_key q" and now': "now' < saturating_add now (ttl_ms (gw_engine (shards r ! i)))"
    and r1: "r1 = router_exec ord hash (wal_ops word) (snd (router_handle_async ord hash (wal_ops word) r q now forward)) evs"
    and evs: "\<forall>ev \<in> set evs. \<not> rt_at_or_after (saturating_add now (ttl_ms (gw_engine (shards r ! i)))) ev"
  shows "length (shards r1) = length (shards r)" "i = unat (hash (key_bytes (tok_key tok))) mod length (shards r)"
    "request_key q' = Some (tok_key tok)"
    "fst (gw_begin_phase (wal_ops word) (shards r1 ! i) q' now') =
      (if fingerprint_of q' (gw_fingerprint_key (shards r ! i)) = fingerprint_of q (gw_fingerprint_key (shards r ! i))
       then Phase_Done (tag (from_outcome (to_outcome response)) (ascii ''replayed''))
       else Phase_Done (tagged_status 422 (ascii ''mismatch'')))"
proof -
  let ?o = "wal_ops word" and ?g = "shards r ! i"
  have s0: "shards r0 = shards r" using deny_if_abusive_shards [of ord hash r q now] deny by simp
  have ph: "fst (gw_begin_phase ?o ?g q now) = Phase_Forward (ForwardTicket (Some tok))"
    using fwd s0 by (simp add: begin_on_fst split: begin_phase.splits)
  note tok = begin_phase_token(1) [OF ph]
  show i': "i = unat (hash (key_bytes (tok_key tok))) mod length (shards r)" using i route_keyed [OF tok, of hash r0] s0 by simp
  then have il: "i < length (shards r)" using ne by simp
  show k': "request_key q' = Some (tok_key tok)" using key tok by simp
  let ?g1 = "snd (gw_begin_phase ?o ?g q now)"
  let ?r2 = "r0\<lparr>shards := (shards r)[i := ?g1]\<rparr>"
  have b: "begin_on ?o r0 i q now = (Inr (ForwardTicket (Some tok)), ?r2)"
    using ph s0 by (auto simp: begin_on_def Let_def split: prod.split)
  have route: "route_shard hash r0 q = (i, r0)" using route_shard_keyed [OF tok, of hash r0] i by (simp add: prod_eq_iff)
  let ?r3 = "snd (complete_on ?o ?r2 i (ForwardTicket (Some tok)) (Inr response) now)"
  have h: "r1 = router_exec ord hash ?o ?r3 evs" unfolding r1 handle_async_forwards [OF op deny route b] resp(1) ..
  have l3: "length (shards ?r3) = length (shards r)" unfolding complete_on_shard(2) by simp
  then show "length (shards r1) = length (shards r)" unfolding h by simp
  have "shards ?r3 ! i = gateway_exec ?o ?g1 [GwComplete (ForwardTicket (Some tok)) (Inr response) now]"
    using complete_on_shard(1) [of i ?r2] il by simp
  then have g2: "shards r1 ! i =
      gateway_exec ?o ?g1 (GwComplete (ForwardTicket (Some tok)) (Inr response) now # shard_events i evs)"
    unfolding h using router_exec_shard [of i ?r3 ord hash ?o evs] il l3 by simp
  have ginv: "ws_inv (eng_store (gw_engine ?g))" using inv il by simp
  note run = wal.begin_phase_run [OF ginv ph]
  have fk: "gw_fingerprint_key ?g1 = gw_fingerprint_key ?g" "ttl_ms (gw_engine ?g1) = ttl_ms (gw_engine ?g)"
    using gateway_step_engine [of ?o ?g "GwBegin q now"] by simp_all
  show "fst (gw_begin_phase ?o (shards r1 ! i) q' now') =
      (if fingerprint_of q' (gw_fingerprint_key ?g) = fingerprint_of q (gw_fingerprint_key ?g)
       then Phase_Done (tag (from_outcome (to_outcome response)) (ascii ''replayed''))
       else Phase_Done (tagged_status 422 (ascii ''mismatch'')))"
    using wal.gateway_replays [OF run(2,1) resp(2), of "shard_events i evs" now now' q', OF _ _ k' g2]
      shard_events_times [OF evs] now' unfolding fk by simp
qed

lemma find_header_readable:
  assumes "\<forall>(n, v) \<in> set hs. eq_ignore_ascii_case n name \<longrightarrow> lib_to_str L v = None"
  shows "find_header (readable_headers L hs) name = None"
  using assms
  by (auto simp: find_header_def readable_headers_def List.map_filter_def find_None_iff)

lemma map_update_same: "f y = f (xs ! i) \<Longrightarrow> map f (xs[i := y]) = map f xs"
  by (cases "i < length xs") (simp_all add: map_update list_update_same_conv list_update_beyond)

text \<open>A request without a key is forwarded and leaves every engine alone.\<close>

lemma unkeyed_phases:
  assumes "request_header q (ascii ''idempotency-key'') = None"
  shows "map gw_engine (shards (snd (begin_on ops r i q now))) = map gw_engine (shards r)"
    "fst (begin_on ops r i q now) = Inr (ForwardTicket None)"
    "map gw_engine (shards (snd (complete_on ops r i (ForwardTicket None) f now))) = map gw_engine (shards r)"
    "fst (complete_on ops r i (ForwardTicket None) f now) = (case f of Inl err \<Rightarrow> bad_gateway | Inr response \<Rightarrow> response)"
    "shards (snd (route_shard hash r q)) = shards r"
  using assms
  by (simp_all add: begin_on_def complete_on_def gw_begin_phase_def gw_complete_phase_def route_shard_def Let_def
      map_update_same split: sum.split)

lemma unkeyed_handled:
  assumes "request_header q (ascii ''idempotency-key'') = None"
  shows "map gw_engine (shards (snd (router_handle_async ord hash ops r q now forward))) = map gw_engine (shards r)"
    and "operational_response r q = None \<Longrightarrow> fst (deny_if_abusive ord hash r q now) = None \<Longrightarrow>
      fst (router_handle_async ord hash ops r q now forward) = (case forward () of Inl err \<Rightarrow> bad_gateway | Inr response \<Rightarrow> response)"
proof -
  obtain v r0 where d: "deny_if_abusive ord hash r q now = (v, r0)" by fastforce
  have s0: "shards r0 = shards r" using deny_if_abusive_shards [of ord hash r q now] d by simp
  obtain i r1 where rt: "route_shard hash r0 q = (i, r1)" by fastforce
  obtain b r2 where b: "begin_on ops r1 i q now = (b, r2)" by fastforce
  note p = unkeyed_phases [OF assms]
  have b': "b = Inr (ForwardTicket None)" using p(2) [of ops r1 i now] b by simp
  have s2: "map gw_engine (shards r2) = map gw_engine (shards r)"
    using p(1) [of ops r1 i now] p(5) [of hash r0] b rt s0 by simp
  have "router_handle_async ord hash ops r q now forward =
      (case operational_response r q of Some response \<Rightarrow> (response, r)
       | None \<Rightarrow> (case v of Some response \<Rightarrow> (response, r0) | None \<Rightarrow> complete_on ops r2 i (ForwardTicket None) (forward ()) now))"
    by (simp add: router_handle_async_def d rt b b' split: option.split)
  then show "map gw_engine (shards (snd (router_handle_async ord hash ops r q now forward))) = map gw_engine (shards r)"
    "operational_response r q = None \<Longrightarrow> fst (deny_if_abusive ord hash r q now) = None \<Longrightarrow>
      fst (router_handle_async ord hash ops r q now forward) = (case forward () of Inl err \<Rightarrow> bad_gateway | Inr response \<Rightarrow> response)"
    using trans [OF p(3) s2, of ops i "forward ()" now] p(4) [of ops r2 i "forward ()" now] s0 d
    by (simp_all split: option.split)
qed

lemma dispatch_handled:
  assumes "lib_to_bytes L (ax_body req) (px_max_body p) = Some body"
    and "h = router_handle_async ord hash ops (px_router p) (to_onced_request L req body) now
      (\<lambda>_. fast_forward L (px_backend p) (to_onced_request L req body))"
  shows "dispatch ord hash ops L p req now = (to_axum_response L (fst h), p\<lparr>px_router := snd h\<rparr>)"
  using assms by (simp add: dispatch_def Let_def split_beta)

section \<open>Runs of the proxy\<close>

text \<open>What a proxy goes through: whole requests, each with what the libraries do for it, and locked sections of requests
  that overlap with others or of the background sweep.\<close>

datatype 'b fast_event = FastDispatch "'b http_libs" "'b axum_request" u64 | FastSection router_event

fun fast_step ::
    "((bytes, window_counter) hashmap \<Rightarrow> (bytes, window_counter) hashmap) \<Rightarrow> (bytes \<Rightarrow> u64) \<Rightarrow> 's store_ops \<Rightarrow>
       's proxy \<Rightarrow> 'b fast_event \<Rightarrow> 's proxy" where
  "fast_step ord hash ops p (FastDispatch L req now) = snd (dispatch ord hash ops L p req now)"
| "fast_step ord hash ops p (FastSection ev) = p\<lparr>px_router := router_step ord hash ops (px_router p) ev\<rparr>"

definition fast_exec ::
    "((bytes, window_counter) hashmap \<Rightarrow> (bytes, window_counter) hashmap) \<Rightarrow> (bytes \<Rightarrow> u64) \<Rightarrow> 's store_ops \<Rightarrow>
       's proxy \<Rightarrow> 'b fast_event list \<Rightarrow> 's proxy" where
  "fast_exec ord hash ops p evs = foldl (fast_step ord hash ops) p evs"

fun fast_at_or_after :: "u64 \<Rightarrow> 'b fast_event \<Rightarrow> bool" where
  "fast_at_or_after t (FastDispatch L req now) \<longleftrightarrow> t \<le> now"
| "fast_at_or_after t (FastSection ev) \<longleftrightarrow> rt_at_or_after t ev"

text \<open>A request is a run of its locked sections.\<close>

lemma router_exec_append:
  "router_exec ord hash ops r (xs @ ys) = router_exec ord hash ops (router_exec ord hash ops r xs) ys"
  by (simp add: router_exec_def)

lemma handle_async_sections:
  "\<exists>secs. snd (router_handle_async ord hash ops r q now forward) = router_exec ord hash ops r secs \<and>
     (\<forall>t. now < t \<longrightarrow> (\<forall>ev \<in> set secs. \<not> rt_at_or_after t ev))"
proof -
  obtain v r0 where d: "deny_if_abusive ord hash r q now = (v, r0)" by fastforce
  obtain i r1 where rt: "route_shard hash r0 q = (i, r1)" by fastforce
  obtain b r2 where b: "begin_on ops r1 i q now = (b, r2)" by fastforce
  let ?h = "snd (router_handle_async ord hash ops r q now forward)"
  consider "operational_response r q \<noteq> None" | "operational_response r q = None" "v \<noteq> None"
    | res where "operational_response r q = None" "v = None" "b = Inl res"
    | tk where "operational_response r q = None" "v = None" "b = Inr tk" by (cases b) auto
  then show ?thesis
  proof cases
    case 1
    then have "?h = router_exec ord hash ops r []" by (auto simp: router_handle_async_def router_exec_def)
    then show ?thesis by (intro exI [of _ "[]"]) simp
  next
    case 2
    then have "?h = router_exec ord hash ops r [RtAbuse q now]" by (auto simp: router_handle_async_def router_exec_def d)
    then show ?thesis by (intro exI [of _ "[RtAbuse q now]"]) simp
  next
    case 3
    then have "?h = router_exec ord hash ops r [RtAbuse q now, RtRoute q, RtBegin i q now]"
      by (simp add: router_handle_async_def router_exec_def d rt b)
    then show ?thesis by (intro exI [of _ "[RtAbuse q now, RtRoute q, RtBegin i q now]"]) (auto simp: not_le)
  next
    case 4
    then have "?h = router_exec ord hash ops r [RtAbuse q now, RtRoute q, RtBegin i q now, RtComplete i tk (forward ()) now]"
      by (simp add: router_handle_async_def router_exec_def d rt b)
    then show ?thesis
      by (intro exI [of _ "[RtAbuse q now, RtRoute q, RtBegin i q now, RtComplete i tk (forward ()) now]"]) (auto simp: not_le)
  qed
qed

lemma fast_step_sections:
  assumes "\<not> fast_at_or_after t ev"
  obtains secs where "px_router (fast_step ord hash ops p ev) = router_exec ord hash ops (px_router p) secs"
    and "\<forall>s \<in> set secs. \<not> rt_at_or_after t s" and "px_max_body (fast_step ord hash ops p ev) = px_max_body p"
proof (cases ev)
  case (FastSection s)
  show thesis by (rule that [of "[s]"]) (use assms in \<open>simp_all add: FastSection router_exec_def\<close>)
next
  case (FastDispatch L req now)
  show thesis
  proof (cases "lib_to_bytes L (ax_body req) (px_max_body p)")
    case None
    show thesis by (rule that [of "[]"]) (simp_all add: FastDispatch dispatch_def None router_exec_def)
  next
    case (Some body)
    obtain secs where "snd (router_handle_async ord hash ops (px_router p) (to_onced_request L req body) now
          (\<lambda>_. fast_forward L (px_backend p) (to_onced_request L req body))) = router_exec ord hash ops (px_router p) secs"
        "\<forall>s \<in> set secs. \<not> rt_at_or_after t s"
      using handle_async_sections [of ord hash ops "px_router p" "to_onced_request L req body" now] assms
      by (fastforce simp: FastDispatch not_le)
    then show thesis by (intro that [of secs]) (simp_all add: FastDispatch dispatch_handled [OF Some refl])
  qed
qed

lemma fast_exec_sections:
  "\<forall>ev \<in> set evs. \<not> fast_at_or_after t ev \<Longrightarrow>
   \<exists>secs. px_router (fast_exec ord hash ops p evs) = router_exec ord hash ops (px_router p) secs \<and>
     (\<forall>s \<in> set secs. \<not> rt_at_or_after t s) \<and> px_max_body (fast_exec ord hash ops p evs) = px_max_body p"
proof (induction evs arbitrary: p)
  case Nil
  then show ?case by (intro exI [of _ "[]"]) (simp add: fast_exec_def router_exec_def)
next
  case (Cons ev evs)
  let ?p = "fast_step ord hash ops p ev"
  have run: "fast_exec ord hash ops p (ev # evs) = fast_exec ord hash ops ?p evs" by (simp add: fast_exec_def)
  obtain s1 where s1: "px_router ?p = router_exec ord hash ops (px_router p) s1" "\<forall>s \<in> set s1. \<not> rt_at_or_after t s"
      "px_max_body ?p = px_max_body p"
    using fast_step_sections [of t ev] Cons.prems by (metis list.set_intros(1))
  obtain s2 where "px_router (fast_exec ord hash ops ?p evs) = router_exec ord hash ops (px_router ?p) s2"
      "\<forall>s \<in> set s2. \<not> rt_at_or_after t s" "px_max_body (fast_exec ord hash ops ?p evs) = px_max_body ?p"
    using Cons.IH [of ?p] Cons.prems by auto
  with s1 show ?case unfolding run by (intro exI [of _ "s1 @ s2"]) (auto simp: router_exec_append)
qed

section \<open>Properties\<close>


text \<open>C37. A key the transport cannot read is dropped. If \<open>HeaderValue::to_str\<close> rejects the value of every
  \<open>Idempotency-Key\<close> header of a request, the request is sent to the backend as one without a key, each time it
  is made, and no engine records it.\<close>

theorem fast_unreadable_key:
  assumes "lib_to_bytes L (ax_body req) (px_max_body p) = Some body"
    and "\<forall>(n, v) \<in> set (ax_headers req). eq_ignore_ascii_case n (ascii ''idempotency-key'') \<longrightarrow> lib_to_str L v = None"
    and "operational_response (px_router p) (to_onced_request L req body) = None"
    and "fst (deny_if_abusive ord hash (px_router p) (to_onced_request L req body) now) = None"
  shows "fst (dispatch ord hash ops L p req now) =
      to_axum_response L (case fast_forward L (px_backend p) (to_onced_request L req body) of
        Inl err \<Rightarrow> bad_gateway | Inr response \<Rightarrow> response) \<and>
    map gw_engine (shards (px_router (snd (dispatch ord hash ops L p req now)))) = map gw_engine (shards (px_router p))"
proof -
  have "request_header (to_onced_request L req body) (ascii ''idempotency-key'') = None"
    using find_header_readable [OF assms(2)] by (simp add: request_header_def to_onced_request_def)
  note u = unkeyed_handled [OF this]
  show ?thesis by (simp add: dispatch_handled [OF assms(1) refl] u(1) u(2) [OF assms(3,4)])
qed

section \<open>Instances\<close>

text \<open>A backend that answers 201, one that is down, and a \<open>to_str\<close> that reads visible ASCII.\<close>

definition sample_libs :: "(reqwest_request \<Rightarrow> reqwest_response option) \<Rightarrow> bytes http_libs" where
  "sample_libs send = \<lparr>lib_to_bytes = (\<lambda>b n. if length b \<le> n then Some b else None),
     lib_to_str = (\<lambda>v. if list_all (\<lambda>c. c = 9 \<or> 32 \<le> c \<and> c < 127) v then Some v else None),
     lib_method_ok = (\<lambda>m. m \<noteq> []), lib_response_ok = (\<lambda>s hs. 100 \<le> s \<and> s < 1000), lib_send = send\<rparr>"

definition sample_backend :: "reqwest_request \<Rightarrow> reqwest_response option" where
  "sample_backend rq = Some \<lparr>rp_status = 201, rp_headers = [], rp_body = Some [7]\<rparr>"

definition sample_axum :: "bytes \<Rightarrow> bytes axum_request" where
  "sample_axum key = \<lparr>ax_method = ascii ''POST'', ax_path_and_query = Some (ascii ''/charge''),
     ax_headers = [(ascii ''Idempotency-Key'', key)], ax_body = [1]\<rparr>"

definition sample_proxy :: "wal_store proxy" where
  "sample_proxy = proxy_new sample_router (ascii ''http://b'')"

lemma no_rules_allow: "abuse r = [ruleset_new] \<Longrightarrow> deny_if_abusive ord hash r q now = (None, r)"
  by (simp add: deny_if_abusive_def abuse_for_identity_def ruleset_new_def ruleset_evaluate_def Let_def)

lemma no_rules_kept:
  "abuse r = [ruleset_new] \<Longrightarrow> abuse (snd (router_handle_async ord hash ops r q now f)) = [ruleset_new]"
  by (simp add: router_handle_async_def no_rules_allow begin_on_def complete_on_def route_shard_def Let_def
      split: option.split prod.split begin_phase.split sum.split)

lemma no_rules_dispatch:
  "abuse (px_router p) = [ruleset_new] \<Longrightarrow> abuse (px_router (snd (dispatch ord hash ops L p req now))) = [ruleset_new]"
  by (cases "lib_to_bytes L (ax_body req) (px_max_body p)")
    (simp_all add: dispatch_def, simp add: no_rules_kept split_beta Let_def)

lemma sample_conversion:
  "lib_to_bytes (sample_libs send) (ax_body (sample_axum key)) (px_max_body sample_proxy) = Some [1]"
  "to_onced_request (sample_libs send) (sample_axum [107]) [1] = sample_request"
  "px_router sample_proxy = sample_router" "abuse sample_router = [ruleset_new]"
  by (simp_all add: sample_libs_def sample_axum_def sample_proxy_def proxy_new_def proxy_with_client_def MAX_BODY_def
      to_onced_request_def readable_headers_def sample_request_def sample_router_def Let_def List.map_filter_def)

lemma sample_path:
  "operational_response r sample_request = None"
  "operational_response r (to_onced_request L (sample_axum key) body) = None"
proof -
  have "path_of q = ascii ''/charge''" if "req_target q = ascii ''/charge''" for q
    using that by (simp add: path_of_def ascii_def)
  then show "operational_response r sample_request = None"
    "operational_response r (to_onced_request L (sample_axum key) body) = None"
    by (simp_all add: operational_response_def sample_request_def to_onced_request_def sample_axum_def ascii_def)
qed


text \<open>The key \<open>e\<close> with an acute accent, in UTF-8.\<close>

theorem fast_unreadable_key_witness:
  "map gw_engine (shards (px_router (snd (dispatch (\<lambda>m. m) (\<lambda>_. 3) (wal_ops (\<lambda>m. m)) (sample_libs sample_backend)
     sample_proxy (sample_axum [195, 169]) 0)))) = map gw_engine (shards (px_router sample_proxy))"
  using fast_unreadable_key [OF sample_conversion(1) _ sample_path(2), of "[195, 169]" sample_backend "\<lambda>m. m" "\<lambda>_. 3" 0 "wal_ops (\<lambda>m. m)"]
  by (simp add: no_rules_allow sample_conversion(3,4)) (simp add: sample_libs_def sample_axum_def)

end
