(* ===== verification/Onced_Sim.thy ===== *)
theory Onced_Sim
  imports Onced_Recovery Onced_Text
begin

text \<open>
  \<^verbatim>\<open>onced-sim/src/lib.rs\<close>: the deterministic simulation that drives an engine over a write-ahead log
  through random operations, clock jumps and crashes and asserts the guarantees of the engine
  against an oracle. An assertion that fails, and an \<open>expect\<close> on a failed open, is a value of
  \<open>sim_panic\<close>. The argument \<open>ord\<close> is the iteration order of the oracle's hash maps, \<open>word\<close> that of
  the store's index. A crash leaves the bytes the log file has; what is buffered is lost.
\<close>

section \<open>State\<close>

definition KEY_SPACE :: u64 where "KEY_SPACE = 8"

definition SIM_LEASE_MS :: u64 where "SIM_LEASE_MS = 1000"

definition rng_new :: "u64 \<Rightarrow> u64" where
  "rng_new seed = seed XOR 0x9E3779B97F4A7C15"

text \<open>The next state, which is also the number drawn.\<close>

definition rng_next :: "u64 \<Rightarrow> u64" where
  "rng_next s =
     (let x = s;
          x = x XOR push_bit 13 x;
          x = x XOR drop_bit 7 x;
          x = x XOR push_bit 17 x
      in x)"

record stats =
  st_steps :: u64
  st_runs :: u64
  st_replays :: u64
  st_in_progress :: u64
  st_completes_ok :: u64
  st_stale_fences :: u64
  st_already_completed :: u64
  st_crashes :: u64
  st_takeovers :: u64
  st_flushes :: u64
  st_unknown_completes :: u64
  st_mismatches :: u64

definition stats_default :: stats where
  "stats_default =
     \<lparr>st_steps = 0, st_runs = 0, st_replays = 0, st_in_progress = 0, st_completes_ok = 0, st_stale_fences = 0,
      st_already_completed = 0, st_crashes = 0, st_takeovers = 0, st_flushes = 0, st_unknown_completes = 0,
      st_mismatches = 0\<rparr>"

definition stats_accumulate :: "stats \<Rightarrow> stats \<Rightarrow> stats" where
  "stats_accumulate s other =
     \<lparr>st_steps = st_steps s + st_steps other,
      st_runs = st_runs s + st_runs other,
      st_replays = st_replays s + st_replays other,
      st_in_progress = st_in_progress s + st_in_progress other,
      st_completes_ok = st_completes_ok s + st_completes_ok other,
      st_stale_fences = st_stale_fences s + st_stale_fences other,
      st_already_completed = st_already_completed s + st_already_completed other,
      st_crashes = st_crashes s + st_crashes other,
      st_takeovers = st_takeovers s + st_takeovers other,
      st_flushes = st_flushes s + st_flushes other,
      st_unknown_completes = st_unknown_completes s + st_unknown_completes other,
      st_mismatches = st_mismatches s + st_mismatches other\<rparr>"

datatype durability = Strict | GroupCommit

record inflight =
  in_index :: u64
  in_token :: run_token
  in_outcome :: cached_outcome
  in_fp_variant :: u8

record simulation =
  sim_seed :: u64
  sim_mode :: durability
  sim_rng :: u64
  sim_engine :: "wal_store engine"
  sim_now :: u64
  sim_inflight :: "inflight list"
  sim_committed :: "(u64, cached_outcome) hashmap"
  sim_durable :: "(u64, cached_outcome) hashmap"
  sim_committed_fp :: "(u64, u8) hashmap"
  sim_successful :: "(u64, u64) hashmap"
  sim_next_body :: u64
  sim_stats :: stats

text \<open>The assertions, each with the key index its message names; a panic adds the seed.\<close>

datatype violation =
    DurableOutcomeChanged u64
  | ReplayNotCommitted u64
  | ReplayAcrossFingerprint u64
  | CompletedTwice u64 u64
  | AlreadyCompletedWithoutCommit u64
  | UnexpectedUnknown u64
  | WrongOutcomeAfterCrash u64
  | NoReplayAfterCrash u64 string

datatype sim_panic = OpenFailed wal_error | Violated u64 violation

fun begin_name :: "begin_result \<Rightarrow> string" where
  "begin_name (Begin_Run _) = ''Run''"
| "begin_name (Begin_Replay _) = ''Replay''"
| "begin_name Begin_InProgress = ''InProgress''"
| "begin_name Begin_Mismatch = ''Mismatch''"

definition key_of :: "u64 \<Rightarrow> idempotency_key" where
  "key_of index = IdempotencyKey (ascii ''key-'' @ print_uint (unat index))"

definition sim_fingerprint_of :: "u64 \<Rightarrow> u8 \<Rightarrow> request_fingerprint" where
  "sim_fingerprint_of index variant = RequestFingerprint (to_le_bytes 8 index @ variant # replicate 23 0)"

section \<open>Operations\<close>

definition below :: "u64 \<Rightarrow> simulation \<Rightarrow> u64 \<times> simulation" where
  "below n s = (let x = rng_next (sim_rng s) in (x mod n, s\<lparr>sim_rng := x\<rparr>))"

definition open_store :: "durability \<Rightarrow> bytes \<Rightarrow> wal_error + wal_store" where
  "open_store mode file = (case mode of Strict \<Rightarrow> ws_open io_ok file | GroupCommit \<Rightarrow> ws_open_buffered io_ok file)"

definition sim_with_mode :: "(log \<Rightarrow> log) \<Rightarrow> u64 \<Rightarrow> durability \<Rightarrow> sim_panic + simulation" where
  "sim_with_mode word seed mode =
     (case open_store mode [] of
        Inl err \<Rightarrow> Inl (OpenFailed err)
      | Inr store \<Rightarrow>
          Inr \<lparr>sim_seed = seed, sim_mode = mode, sim_rng = rng_new seed, sim_engine = engine_new (wal_ops word) store SIM_LEASE_MS,
               sim_now = 1, sim_inflight = [], sim_committed = [], sim_durable = [], sim_committed_fp = [],
               sim_successful = [], sim_next_body = 0, sim_stats = stats_default\<rparr>)"

definition sim_new :: "(log \<Rightarrow> log) \<Rightarrow> u64 \<Rightarrow> sim_panic + simulation" where
  "sim_new word seed = sim_with_mode word seed Strict"

definition mark_durable :: "u64 \<Rightarrow> cached_outcome \<Rightarrow> simulation \<Rightarrow> sim_panic + simulation" where
  "mark_durable index outcome s =
     (case hm_get (sim_durable s) index of
        Some existing \<Rightarrow> if existing = outcome then Inr s else Inl (Violated (sim_seed s) (DurableOutcomeChanged index))
      | None \<Rightarrow> Inr (s\<lparr>sim_durable := hm_insert index outcome (sim_durable s)\<rparr>))"

fun fold_ok :: "('a \<Rightarrow> 's \<Rightarrow> 'e + 's) \<Rightarrow> 'a list \<Rightarrow> 's \<Rightarrow> 'e + 's" where
  "fold_ok f [] s = Inr s"
| "fold_ok f (x # xs) s = (case f x s of Inl err \<Rightarrow> Inl err | Inr s \<Rightarrow> fold_ok f xs s)"

definition do_flush :: "((u64, cached_outcome) hashmap \<Rightarrow> (u64, cached_outcome) hashmap) \<Rightarrow> (log \<Rightarrow> log) \<Rightarrow>
    simulation \<Rightarrow> sim_panic + simulation" where
  "do_flush ord word s =
     (let s = s\<lparr>sim_stats := (sim_stats s)\<lparr>st_flushes := st_flushes (sim_stats s) + 1\<rparr>,
                sim_engine := engine_flush (wal_ops word) (sim_engine s)\<rparr>
      in fold_ok (\<lambda>(index, outcome). mark_durable index outcome) (ord (sim_committed s)) s)"

definition make_outcome :: "simulation \<Rightarrow> cached_outcome \<times> simulation" where
  "make_outcome s =
     (let n = sim_next_body s + 1
      in (\<lparr>co_status = 200, co_headers = [], co_body = to_le_bytes 8 n\<rparr>, s\<lparr>sim_next_body := n\<rparr>))"

text \<open>What the simulation does with the answer to a begin.\<close>

definition on_begin :: "u64 \<Rightarrow> u8 \<Rightarrow> bool \<Rightarrow> begin_result \<Rightarrow> simulation \<Rightarrow> sim_panic + simulation" where
  "on_begin index variant had_inflight b s =
     (let st = sim_stats s
      in case b of
           Begin_Run token \<Rightarrow>
             let st = st\<lparr>st_runs := st_runs st + 1\<rparr>;
                 st = (if had_inflight then st\<lparr>st_takeovers := st_takeovers st + 1\<rparr> else st);
                 (outcome, s) = make_outcome (s\<lparr>sim_stats := st\<rparr>)
             in Inr (s\<lparr>sim_inflight := sim_inflight s @
                        [\<lparr>in_index = index, in_token = token, in_outcome = outcome, in_fp_variant = variant\<rparr>]\<rparr>)
         | Begin_Replay outcome \<Rightarrow>
             if hm_get (sim_committed s) index \<noteq> Some outcome then Inl (Violated (sim_seed s) (ReplayNotCommitted index))
             else if hm_get (sim_committed_fp s) index \<noteq> Some variant
             then Inl (Violated (sim_seed s) (ReplayAcrossFingerprint index))
             else Inr (s\<lparr>sim_stats := st\<lparr>st_replays := st_replays st + 1\<rparr>\<rparr>)
         | Begin_InProgress \<Rightarrow> Inr (s\<lparr>sim_stats := st\<lparr>st_in_progress := st_in_progress st + 1\<rparr>\<rparr>)
         | Begin_Mismatch \<Rightarrow> Inr (s\<lparr>sim_stats := st\<lparr>st_mismatches := st_mismatches st + 1\<rparr>\<rparr>))"

definition do_begin :: "(log \<Rightarrow> log) \<Rightarrow> simulation \<Rightarrow> sim_panic + simulation" where
  "do_begin word s =
     (let (index, s) = below KEY_SPACE s;
          key = key_of index;
          (variant, s) = (if sim_mode s = Strict then let (v, s) = below 2 s in (ucast v, s) else (0, s));
          fingerprint = sim_fingerprint_of index variant;
          had_inflight = list_ex (\<lambda>w. in_index w = index) (sim_inflight s);
          (b, e) = engine_begin (wal_ops word) (sim_engine s) key fingerprint (sim_now s)
      in on_begin index variant had_inflight b (s\<lparr>sim_engine := e\<rparr>))"

text \<open>What it does with the answer to the completion of a worker.\<close>

definition on_complete :: "inflight \<Rightarrow> complete_error + unit \<Rightarrow> simulation \<Rightarrow> sim_panic + simulation" where
  "on_complete worker res s =
     (let index = in_index worker;
          st = sim_stats s
      in case res of
           Inr _ \<Rightarrow>
             let s = s\<lparr>sim_stats := st\<lparr>st_completes_ok := st_completes_ok st + 1\<rparr>,
                       sim_committed := hm_insert index (in_outcome worker) (sim_committed s),
                       sim_committed_fp := hm_insert index (in_fp_variant worker) (sim_committed_fp s)\<rparr>
             in (case sim_mode s of
                   Strict \<Rightarrow>
                     let n = (case hm_get (sim_successful s) index of Some n \<Rightarrow> n | None \<Rightarrow> 0) + 1;
                         s = s\<lparr>sim_successful := hm_insert index n (sim_successful s)\<rparr>
                     in if n \<noteq> 1 then Inl (Violated (sim_seed s) (CompletedTwice index n))
                        else mark_durable index (in_outcome worker) s
                 | GroupCommit \<Rightarrow> Inr s)
         | Inl StaleFence \<Rightarrow> Inr (s\<lparr>sim_stats := st\<lparr>st_stale_fences := st_stale_fences st + 1\<rparr>\<rparr>)
         | Inl AlreadyCompleted \<Rightarrow>
             if hm_get (sim_committed s) index = None
             then Inl (Violated (sim_seed s) (AlreadyCompletedWithoutCommit index))
             else Inr (s\<lparr>sim_stats := st\<lparr>st_already_completed := st_already_completed st + 1\<rparr>\<rparr>)
         | Inl Unknown \<Rightarrow>
             (case sim_mode s of
                Strict \<Rightarrow> Inl (Violated (sim_seed s) (UnexpectedUnknown index))
              | GroupCommit \<Rightarrow> Inr (s\<lparr>sim_stats := st\<lparr>st_unknown_completes := st_unknown_completes st + 1\<rparr>\<rparr>)))"

definition do_complete :: "(log \<Rightarrow> log) \<Rightarrow> simulation \<Rightarrow> sim_panic + simulation" where
  "do_complete word s =
     (if sim_inflight s = [] then Inr s
      else
        let (x, s) = below (of_nat (length (sim_inflight s))) s;
            which = unat x;
            worker = sim_inflight s ! which;
            s = s\<lparr>sim_inflight := take which (sim_inflight s) @ drop (Suc which) (sim_inflight s)\<rparr>;
            (res, e) = engine_complete (wal_ops word) (sim_engine s) (in_token worker) (in_outcome worker) (sim_now s)
        in on_complete worker res (s\<lparr>sim_engine := e\<rparr>))"

definition do_advance_clock :: "simulation \<Rightarrow> simulation" where
  "do_advance_clock s =
     (let (coin, s) = below 2 s;
          (jump, s) = (if coin = 0 then let (x, s) = below (SIM_LEASE_MS div 2) s in (x + 1, s)
                       else let (x, s) = below SIM_LEASE_MS s in (SIM_LEASE_MS + x, s))
      in s\<lparr>sim_now := sim_now s + jump\<rparr>)"

text \<open>The check of one committed key after a crash.\<close>

definition check_replay :: "(log \<Rightarrow> log) \<Rightarrow> u64 \<times> cached_outcome \<Rightarrow> simulation \<Rightarrow> sim_panic + simulation" where
  "check_replay word entry s =
     (let (index, expected) = entry;
          variant = (case hm_get (sim_committed_fp s) index of Some v \<Rightarrow> v | None \<Rightarrow> 0);
          (b, e) = engine_begin (wal_ops word) (sim_engine s) (key_of index) (sim_fingerprint_of index variant) (sim_now s);
          s = s\<lparr>sim_engine := e\<rparr>
      in case b of
           Begin_Replay got \<Rightarrow> if got = expected then Inr s else Inl (Violated (sim_seed s) (WrongOutcomeAfterCrash index))
         | other \<Rightarrow> Inl (Violated (sim_seed s) (NoReplayAfterCrash index (begin_name other))))"

definition do_crash :: "((u64, cached_outcome) hashmap \<Rightarrow> (u64, cached_outcome) hashmap) \<Rightarrow> (log \<Rightarrow> log) \<Rightarrow>
    simulation \<Rightarrow> sim_panic + simulation" where
  "do_crash ord word s =
     (let s = s\<lparr>sim_stats := (sim_stats s)\<lparr>st_crashes := st_crashes (sim_stats s) + 1\<rparr>\<rparr>
      in case open_store (sim_mode s) (ws_file (eng_store (sim_engine s))) of
           Inl err \<Rightarrow> Inl (OpenFailed err)
         | Inr store \<Rightarrow>
             let s = s\<lparr>sim_engine := engine_new (wal_ops word) store SIM_LEASE_MS\<rparr>;
                 s = (if sim_mode s = GroupCommit then s\<lparr>sim_committed := sim_durable s\<rparr> else s)
             in fold_ok (check_replay word) (ord (sim_committed s)) s)"

definition sim_step :: "((u64, cached_outcome) hashmap \<Rightarrow> (u64, cached_outcome) hashmap) \<Rightarrow> (log \<Rightarrow> log) \<Rightarrow>
    simulation \<Rightarrow> sim_panic + simulation" where
  "sim_step ord word s =
     (let (roll, s) = below 100 s;
          r = (case sim_mode s of
                 Strict \<Rightarrow>
                   (if roll \<le> 39 then do_begin word s
                    else if roll \<le> 69 then do_complete word s
                    else if roll \<le> 84 then Inr (do_advance_clock s)
                    else do_crash ord word s)
               | GroupCommit \<Rightarrow>
                   (if roll \<le> 34 then do_begin word s
                    else if roll \<le> 59 then do_complete word s
                    else if roll \<le> 74 then do_flush ord word s
                    else if roll \<le> 84 then Inr (do_advance_clock s)
                    else do_crash ord word s))
      in map_sum id (\<lambda>s. s\<lparr>sim_stats := (sim_stats s)\<lparr>st_steps := st_steps (sim_stats s) + 1\<rparr>\<rparr>) r)"

fun sim_run :: "((u64, cached_outcome) hashmap \<Rightarrow> (u64, cached_outcome) hashmap) \<Rightarrow> (log \<Rightarrow> log) \<Rightarrow>
    nat \<Rightarrow> simulation \<Rightarrow> sim_panic + simulation" where
  "sim_run ord word 0 s = Inr s"
| "sim_run ord word (Suc n) s = (case sim_step ord word s of Inl err \<Rightarrow> Inl err | Inr s \<Rightarrow> sim_run ord word n s)"

section \<open>The campaign runner\<close>

definition sim_env_u64 :: "(bytes \<Rightarrow> bytes option) \<Rightarrow> bytes \<Rightarrow> u64 \<Rightarrow> u64" where
  "sim_env_u64 env key dflt =
     (case env key of
        None \<Rightarrow> dflt
      | Some v \<Rightarrow> (case parse_uint (2 ^ 64) v of None \<Rightarrow> dflt | Some n \<Rightarrow> of_nat n))"

definition run_seed :: "((u64, cached_outcome) hashmap \<Rightarrow> (u64, cached_outcome) hashmap) \<Rightarrow> (log \<Rightarrow> log) \<Rightarrow>
    durability \<Rightarrow> u64 \<Rightarrow> nat \<Rightarrow> stats \<Rightarrow> sim_panic + stats" where
  "run_seed ord word mode steps seed acc =
     (case sim_with_mode word (of_nat seed) mode of
        Inl err \<Rightarrow> Inl err
      | Inr sim \<Rightarrow>
          (case sim_run ord word (unat steps) sim of
             Inl err \<Rightarrow> Inl err
           | Inr sim \<Rightarrow> Inr (stats_accumulate acc (sim_stats sim))))"

text \<open>The totals \<^verbatim>\<open>main\<close> prints, one per durability mode.\<close>

definition sim_main :: "((u64, cached_outcome) hashmap \<Rightarrow> (u64, cached_outcome) hashmap) \<Rightarrow> (log \<Rightarrow> log) \<Rightarrow>
    (bytes \<Rightarrow> bytes option) \<Rightarrow> sim_panic + (durability \<times> stats) list" where
  "sim_main ord word env =
     (let seeds = sim_env_u64 env (ascii ''ONCED_SIM_SEEDS'') 200;
          steps = sim_env_u64 env (ascii ''ONCED_SIM_STEPS'') 2000
      in fold_ok (\<lambda>mode printed.
                    (case fold_ok (run_seed ord word mode steps) [0..<unat seeds] stats_default of
                       Inl err \<Rightarrow> Inl err
                     | Inr acc \<Rightarrow> Inr (printed @ [(mode, acc)])))
           [Strict, GroupCommit] [])"

section \<open>The generator\<close>

lemma xor_zero: "(a :: u64) XOR b = 0 \<longleftrightarrow> a = b"
proof
  assume h: "a XOR b = 0"
  have "bit a k \<longleftrightarrow> bit b k" for k
    using arg_cong [OF h, where f = "\<lambda>w. bit w k"] by (simp add: bit_xor_iff)
  then show "a = b" by (rule bit_eqI)
qed simp

lemma xorshift_left_zero:
  fixes x :: u64
  assumes "x XOR push_bit n x = 0" and "0 < n"
  shows "x = 0"
proof -
  have eq: "push_bit n x = x" using assms(1) by (simp add: xor_zero)
  have "\<not> bit x k" for k
  proof (induction k rule: less_induct)
    case (less k)
    have "bit x k \<longleftrightarrow> bit (push_bit n x) k" using eq by simp
    also have "\<dots> \<longrightarrow> n \<le> k \<and> bit x (k - n)" by (simp add: bit_push_bit_iff)
    finally show ?case using less [of "k - n"] assms(2) by auto
  qed
  then show ?thesis by (simp add: bit_eq_iff)
qed

lemma xorshift_right_zero:
  fixes x :: u64
  assumes "x XOR drop_bit n x = 0" and "0 < n"
  shows "x = 0"
proof -
  have eq: "drop_bit n x = x" using assms(1) by (simp add: xor_zero)
  have far: "bit x k \<Longrightarrow> bit x (k + n * j)" for k j
  proof (induction j)
    case (Suc j)
    have "bit (drop_bit n x) (k + n * j)" using Suc eq by simp
    then show ?case by (simp add: bit_drop_bit_eq algebra_simps)
  qed simp
  have "\<not> bit x k" for k
  proof
    assume "bit x k"
    then have "bit x (k + n * 64)" by (rule far)
    then have "k + n * 64 < 64" using bit_imp_le_length by fastforce
    then show False using assms(2) by simp
  qed
  then show ?thesis by (simp add: bit_eq_iff)
qed

lemma rng_next_zero: "rng_next s = 0 \<longleftrightarrow> s = 0"
proof
  assume "rng_next s = 0"
  moreover define y where "y = s XOR push_bit 13 s"
  moreover define z where "z = y XOR drop_bit 7 y"
  ultimately have "z XOR push_bit 17 z = 0" by (simp only: rng_next_def Let_def)
  then have "z = 0" by (rule xorshift_left_zero) simp
  then have "y = 0" unfolding z_def by (rule xorshift_right_zero) simp
  then show "s = 0" unfolding y_def by (rule xorshift_left_zero) simp
qed (simp add: rng_next_def)

lemma rng_new_zero: "rng_new seed = 0 \<longleftrightarrow> seed = 0x9E3779B97F4A7C15"
  by (simp add: rng_new_def xor_zero)

lemma rng_iterate: "(rng_next ^^ n) s = 0 \<longleftrightarrow> s = 0"
  by (induction n) (simp_all add: rng_next_zero)

text \<open>The generator never leaves the zero state and never enters it: its state after any number of
  draws is zero exactly for the one seed that equals the constant of \<^verbatim>\<open>Rng::new\<close>, and for that seed it
  is zero from the start.\<close>

theorem generator_stuck_seed:
  "(rng_next ^^ n) (rng_new seed) = 0 \<longleftrightarrow> seed = 0x9E3779B97F4A7C15"
  by (simp add: rng_iterate rng_new_zero)

end
