(* ===== verification/Onced_Sim_Campaign.thy ===== *)
theory Onced_Sim_Campaign
  imports Onced_Sim
begin

text \<open>
  The simulation of \<^verbatim>\<open>onced-sim/src/lib.rs\<close> passes, in strict and in group-commit mode. One invariant serves
  both: \<open>key_ok\<close> relates what the log file holds of a key, what the engine has in memory and what the
  oracle recorded; \<open>sim_bound\<close> bounds clock and workers by the number of steps. Each operation preserves them
  and none of its assertions fails.
\<close>

section \<open>The store under the simulation\<close>

text \<open>What of a log store the simulation relies on: \<open>d\<close> is the map that the file holds, which is all of
  it in strict mode.\<close>

definition store_view :: "wal_store \<Rightarrow> (idempotency_key \<Rightarrow> key_state option) \<Rightarrow> bool" where
  "store_view w d \<longleftrightarrow>
     (\<exists>dl pl. wal_rep w dl pl \<and> d = hm_get (log_index dl []) \<and> (ws_sync_each w \<longrightarrow> pl = []))"

lemma store_view_sync: "store_view w d \<Longrightarrow> ws_sync_each w \<Longrightarrow> d = ws_get w"
  by (auto simp: store_view_def fun_eq_iff wal_rep_get)

lemma store_view_put:
  assumes "store_view w d" and "encodable k v"
  shows "store_view (ws_put w k v) (if ws_sync_each w then d(k \<mapsto> v) else d)"
    "ws_get (ws_put w k v) = (ws_get w)(k \<mapsto> v)"
proof -
  obtain dl pl where rep: "wal_rep w dl pl" "d = hm_get (log_index dl [])" "ws_sync_each w \<longrightarrow> pl = []"
    using assms(1) by (auto simp: store_view_def)
  note put = ws_put_rep [OF rep(1) assms(2)]
  show "store_view (ws_put w k v) (if ws_sync_each w then d(k \<mapsto> v) else d)"
  proof (cases "ws_sync_each w")
    case True
    then have "wal_rep (ws_put w k v) (dl @ [(k, v)]) []" using put rep(3) by simp
    moreover have "d(k \<mapsto> v) = hm_get (log_index (dl @ [(k, v)]) [])"
      by (simp add: rep(2) fun_eq_iff map_simps)
    ultimately show ?thesis using True unfolding store_view_def by auto
  next
    case False
    then show ?thesis using put rep(2) unfolding store_view_def by auto
  qed
  have "ws_get (ws_put w k v) k' = hm_get (log_index (dl @ pl @ [(k, v)]) []) k'" for k'
    using put by (auto simp: wal_rep_get split: if_splits)
  then show "ws_get (ws_put w k v) = (ws_get w)(k \<mapsto> v)"
    by (auto simp: fun_eq_iff wal_rep_get [OF rep(1)] map_simps)
qed

lemma store_view_flush:
  assumes "store_view w d"
  shows "store_view (ws_flush w) (ws_get w)" "ws_get (ws_flush w) = ws_get w"
proof -
  obtain dl pl where rep: "wal_rep w dl pl" using assms by (auto simp: store_view_def)
  note flush = ws_flush_rep [OF rep]
  show "store_view (ws_flush w) (ws_get w)"
    unfolding store_view_def by (rule exI [of _ "dl @ pl"], rule exI [of _ "[]"])
      (simp add: flush fun_eq_iff wal_rep_get [OF rep])
  show "ws_get (ws_flush w) = ws_get w"
    by (simp add: fun_eq_iff wal_rep_get [OF rep] wal_rep_get [OF flush])
qed

lemma store_view_open:
  assumes "store_view w d"
  obtains w' where "open_with io_ok (ws_file w) sync = Inr w'" "store_view w' d" "ws_get w' = d" "ws_sync_each w' = sync"
proof -
  obtain dl pl where rep: "wal_rep w dl pl" "d = hm_get (log_index dl [])" using assms by (auto simp: store_view_def)
  have ok: "log_ok dl" "ws_file w = encode_log GENESIS dl" using rep(1) by (simp_all add: wal_rep_def)
  define w' where "w' = \<lparr>ws_index = log_index dl [], ws_file = encode_log GENESIS dl, ws_pending = [],
      ws_sync_each = sync, ws_chain_root = log_root GENESIS dl\<rparr>"
  have "open_with io_ok (ws_file w) sync = Inr w'"
    using open_with_log [OF ok(1), of "[]" sync] by (simp add: ok(2) w'_def)
  moreover have rep': "wal_rep w' dl []" using ok by (simp add: wal_rep_def w'_def)
  then have "store_view w' d" "ws_get w' = d" "ws_sync_each w' = sync"
    by (auto simp: store_view_def rep(2) fun_eq_iff wal_rep_get w'_def)
  ultimately show ?thesis by (rule that)
qed

lemma open_store_mode: "open_store mode file = open_with io_ok file (mode = Strict)"
  by (cases mode) (simp_all add: open_store_def ws_open_def ws_open_buffered_def)

lemma key_of_inject [simp]: "key_of i = key_of j \<longleftrightarrow> i = j"
proof
  assume "key_of i = key_of j"
  then have "print_uint (unat i) = print_uint (unat j)" by (simp add: key_of_def)
  then have "unat i = unat j" using print_uint_digits by metis
  then show "i = j" by (rule word_unat_eq_iff [THEN iffD2])
qed simp

lemma sim_fingerprint_inject [simp]: "sim_fingerprint_of i v = sim_fingerprint_of i v' \<longleftrightarrow> v = v'"
  by (simp add: sim_fingerprint_of_def)

lemma wf_sim_fingerprint [simp]: "wf_fp (sim_fingerprint_of i v)"
  by (simp add: sim_fingerprint_of_def wf_fp_def)

lemma utf8_key: "utf8_valid (ascii ''key-'')"
  by code_simp

definition sim_outcome :: "u64 \<Rightarrow> cached_outcome" where
  "sim_outcome n = \<lparr>co_status = 200, co_headers = [], co_body = to_le_bytes 8 n\<rparr>"

lemma sim_outcome_sel [simp]:
  "co_headers (sim_outcome n) = []" "length (co_body (sim_outcome n)) = 8"
  by (simp_all add: sim_outcome_def)

lemma sim_key_bytes:
  assumes "i < KEY_SPACE"
  shows "length (key_bytes (key_of i)) = 5" "wf_key (key_of i)"
proof -
  have "unat i < 8" using assms by (simp add: KEY_SPACE_def word_less_nat_alt)
  then have "length (print_uint (unat i)) = 1" by (subst print_uint.simps) simp
  then show "length (key_bytes (key_of i)) = 5" by (simp add: key_of_def ascii_def)
  show "wf_key (key_of i)" unfolding wf_key_def wf_str_def key_of_def idempotency_key.sel
    by (rule utf8_valid_append [OF utf8_key print_uint_utf8])
qed

lemma sim_encodable:
  assumes "i < KEY_SPACE"
  shows "encodable (key_of i) (InProgress f (sim_fingerprint_of i v) l)"
    "encodable (key_of i) (Completed (sim_fingerprint_of i v) (sim_outcome n) t)"
  using sim_key_bytes [OF assms] wf_sim_fingerprint [of i v]
  by (simp_all add: encodable_def put_simps put_headers_append wf_fp_def wf_outcome_def)

lemma not_expired:
  assumes "1 \<le> t" and "unat now \<le> 86400000"
  shows "now < saturating_add t DEFAULT_TTL_MS"
proof -
  have "1 \<le> unat t" using assms(1) by (simp add: word_le_nat_alt)
  moreover have "unat DEFAULT_TTL_MS = 86400000" by (simp add: DEFAULT_TTL_MS_def)
  ultimately show ?thesis using assms(2) by (simp add: word_less_nat_alt unat_saturating_add)
qed

section \<open>The invariant\<close>

fun outcome_in :: "key_state option \<Rightarrow> cached_outcome option" where
  "outcome_in (Some (Completed fp oc t)) = Some oc"
| "outcome_in _ = None"

fun fingerprint_in :: "key_state \<Rightarrow> request_fingerprint" where
  "fingerprint_in (Completed fp oc t) = fp"
| "fingerprint_in (InProgress f fp l) = fp"

text \<open>What the oracle knows of key \<open>i\<close>, whose state is \<open>d\<close> in the file and \<open>st\<close> in memory; \<open>vs\<close> are the
  variants of its workers.\<close>

definition key_ok :: "durability \<Rightarrow> u64 \<Rightarrow> key_state option \<Rightarrow> key_state option \<Rightarrow> cached_outcome option \<Rightarrow>
    cached_outcome option \<Rightarrow> u64 option \<Rightarrow> u8 option \<Rightarrow> u8 set \<Rightarrow> bool" where
  "key_ok mode i d st com dur suc cfp vs \<longleftrightarrow>
     com = outcome_in st \<and> dur = outcome_in d \<and> (dur \<noteq> None \<longrightarrow> st = d) \<and>
     (\<forall>fp oc t. st = Some (Completed fp oc t) \<longrightarrow> 1 \<le> t \<and> map_option (sim_fingerprint_of i) cfp = Some fp) \<and>
     (\<forall>f fp l. st = Some (InProgress f fp l) \<longrightarrow> (\<forall>v \<in> vs. sim_fingerprint_of i v = fp)) \<and>
     (case mode of
        Strict \<Rightarrow> (com = None \<longrightarrow> suc = None) \<and> (st = None \<longrightarrow> vs = {})
      | GroupCommit \<Rightarrow> vs \<subseteq> {0} \<and> (\<forall>x. st = Some x \<or> d = Some x \<longrightarrow> fingerprint_in x = sim_fingerprint_of i 0))"

definition workers_of :: "u64 \<Rightarrow> inflight list \<Rightarrow> u8 set" where
  "workers_of i ws = in_fp_variant ` {w \<in> set ws. in_index w = i}"

definition sim_key_ok :: "(idempotency_key \<Rightarrow> key_state option) \<Rightarrow> simulation \<Rightarrow> u64 \<Rightarrow> bool" where
  "sim_key_ok d s i \<longleftrightarrow>
     key_ok (sim_mode s) i (d (key_of i)) (ws_get (eng_store (sim_engine s)) (key_of i)) (hm_get (sim_committed s) i)
       (hm_get (sim_durable s) i) (hm_get (sim_successful s) i) (hm_get (sim_committed_fp s) i)
       (workers_of i (sim_inflight s))"

definition worker_ok :: "inflight \<Rightarrow> bool" where
  "worker_ok w \<longleftrightarrow> in_index w < KEY_SPACE \<and> tok_key (in_token w) = key_of (in_index w) \<and>
     (\<exists>n. in_outcome w = sim_outcome n)"

definition sim_view :: "(idempotency_key \<Rightarrow> key_state option) \<Rightarrow> simulation \<Rightarrow> bool" where
  "sim_view d s \<longleftrightarrow> store_view (eng_store (sim_engine s)) d \<and> ws_sync_each (eng_store (sim_engine s)) = (sim_mode s = Strict) \<and>
     ttl_ms (sim_engine s) = DEFAULT_TTL_MS \<and> 1 \<le> sim_now s \<and> hm_wf (sim_committed s) \<and> hm_wf (sim_durable s) \<and>
     (\<forall>i. sim_key_ok d s i) \<and> (\<forall>w \<in> set (sim_inflight s). worker_ok w)"

definition sim_inv :: "simulation \<Rightarrow> bool" where
  "sim_inv s \<longleftrightarrow> (\<exists>d. sim_view d s)"

lemma sim_frame [simp]:
  "sim_view d (s\<lparr>sim_stats := st\<rparr>) = sim_view d s" "sim_view d (s\<lparr>sim_rng := x\<rparr>) = sim_view d s"
  "sim_view d (s\<lparr>sim_next_body := n\<rparr>) = sim_view d s"
  "sim_inv (s\<lparr>sim_stats := st\<rparr>) = sim_inv s" "sim_inv (s\<lparr>sim_rng := x\<rparr>) = sim_inv s"
  "sim_inv (s\<lparr>sim_next_body := n\<rparr>) = sim_inv s"
  by (simp_all add: sim_view_def sim_key_ok_def sim_inv_def)

lemma workers_of_append [simp]:
  "workers_of i (ws @ [w]) = (if in_index w = i then insert (in_fp_variant w) (workers_of i ws) else workers_of i ws)"
  by (auto simp: workers_of_def)

lemma workers_of_mono: "set ws' \<subseteq> set ws \<Longrightarrow> workers_of i ws' \<subseteq> workers_of i ws"
  by (auto simp: workers_of_def)

lemma key_ok_mono: "key_ok mode i d st com dur suc cfp vs \<Longrightarrow> vs' \<subseteq> vs \<Longrightarrow> key_ok mode i d st com dur suc cfp vs'"
  by (cases mode) (auto simp: key_ok_def)

lemma key_ok_prog:
  assumes "key_ok mode i d (Some (InProgress f fp l)) com dur suc cfp vs"
  shows "com = None" "dur = None" "mode = Strict \<longrightarrow> suc = None" "\<forall>v \<in> vs. sim_fingerprint_of i v = fp"
proof -
  note k = assms [unfolded key_ok_def]
  show com: "com = None" using k by simp
  show "dur = None"
  proof (rule ccontr)
    assume "dur \<noteq> None"
    then have "d = Some (InProgress f fp l)" using k by simp
    then show False using k \<open>dur \<noteq> None\<close> by simp
  qed
  show "mode = Strict \<longrightarrow> suc = None" using k com by auto
  show "\<forall>v \<in> vs. sim_fingerprint_of i v = fp" using k by blast
qed

text \<open>A write of the engine for key \<open>i\<close>: the invariant of the other keys is untouched, that of \<open>i\<close> is to be shown.\<close>

lemma sim_write:
  assumes view: "sim_view d s" and enc: "encodable (key_of i) st"
    and e: "eng_store e = ws_put (eng_store (sim_engine s)) (key_of i) st" "ttl_ms e = ttl_ms (sim_engine s)"
    and s': "sim_engine s' = e" "sim_mode s' = sim_mode s" "sim_now s' = sim_now s"
      "hm_wf (sim_committed s')" "hm_wf (sim_durable s')" "\<forall>w \<in> set (sim_inflight s'). worker_ok w"
    and other: "\<And>j. j \<noteq> i \<Longrightarrow> hm_get (sim_committed s') j = hm_get (sim_committed s) j \<and>
      hm_get (sim_durable s') j = hm_get (sim_durable s) j \<and> hm_get (sim_successful s') j = hm_get (sim_successful s) j \<and>
      hm_get (sim_committed_fp s') j = hm_get (sim_committed_fp s) j \<and>
      workers_of j (sim_inflight s') \<subseteq> workers_of j (sim_inflight s)"
    and this_key: "key_ok (sim_mode s) i (if sim_mode s = Strict then Some st else d (key_of i)) (Some st)
      (hm_get (sim_committed s') i) (hm_get (sim_durable s') i) (hm_get (sim_successful s') i)
      (hm_get (sim_committed_fp s') i) (workers_of i (sim_inflight s'))"
  shows "sim_inv s'"
proof -
  let ?w = "eng_store (sim_engine s)"
  let ?d = "if sim_mode s = Strict then d(key_of i \<mapsto> st) else d"
  have v: "store_view ?w d" "ws_sync_each ?w = (sim_mode s = Strict)" using view by (simp_all add: sim_view_def)
  have put: "store_view (eng_store e) ?d" "ws_get (eng_store e) = (ws_get ?w)(key_of i \<mapsto> st)"
    "ws_sync_each (eng_store e) = (sim_mode s = Strict)"
    using store_view_put [OF v(1) enc] v(2) unfolding e(1) by simp_all
  have "sim_key_ok ?d s' j" for j
  proof (cases "j = i")
    case True
    then show ?thesis using this_key by (simp add: sim_key_ok_def s' put(2) split: if_splits)
  next
    case False
    have "key_ok (sim_mode s) j (d (key_of j)) (ws_get ?w (key_of j)) (hm_get (sim_committed s) j) (hm_get (sim_durable s) j)
        (hm_get (sim_successful s) j) (hm_get (sim_committed_fp s) j) (workers_of j (sim_inflight s))"
      using view by (simp add: sim_view_def sim_key_ok_def)
    from key_ok_mono [OF this, of "workers_of j (sim_inflight s')"]
    have "key_ok (sim_mode s) j (d (key_of j)) (ws_get ?w (key_of j)) (hm_get (sim_committed s') j)
        (hm_get (sim_durable s') j) (hm_get (sim_successful s') j) (hm_get (sim_committed_fp s') j)
        (workers_of j (sim_inflight s'))"
      using other [OF False] by simp
    moreover have "?d (key_of j) = d (key_of j)" using False by simp
    ultimately show ?thesis using False by (simp only: sim_key_ok_def s' put(2) fun_upd_apply key_of_inject if_False)
  qed
  then have "sim_view ?d s'" using view s' put e(2) by (simp add: sim_view_def)
  then show ?thesis unfolding sim_inv_def by blast
qed

section \<open>Begin\<close>

lemma sim_start:
  assumes view: "sim_view d s" and i: "i < KEY_SPACE" and v: "sim_mode s = GroupCommit \<longrightarrow> v = 0"
    and start: "engine_start (wal_ops word) (sim_engine s) (key_of i) (sim_fingerprint_of i v) (sim_now s) = (b, e)"
    and free: "hm_get (sim_committed s) i = None" "workers_of i (sim_inflight s) \<subseteq> {v}"
  obtains tok where "b = Begin_Run tok" "\<And>n. sim_inv (s\<lparr>sim_engine := e, sim_inflight := sim_inflight s @
      [\<lparr>in_index = i, in_token = tok, in_outcome = sim_outcome n, in_fp_variant = v\<rparr>]\<rparr>)"
proof -
  let ?f = "Fence (next_fence (sim_engine s))"
  let ?st = "InProgress ?f (sim_fingerprint_of i v) (saturating_add (sim_now s) (lease_ms (sim_engine s)))"
  have b: "b = Begin_Run \<lparr>tok_key = key_of i, tok_fence = ?f\<rparr>"
    and e: "eng_store e = ws_put (eng_store (sim_engine s)) (key_of i) ?st" "ttl_ms e = ttl_ms (sim_engine s)"
    using start by (auto simp: engine_start_def mint_fence_def)
  have key: "sim_key_ok d s i" using view by (simp add: sim_view_def)
  show ?thesis
  proof (rule that [OF b])
    fix n
    let ?s' = "s\<lparr>sim_engine := e, sim_inflight := sim_inflight s @
      [\<lparr>in_index = i, in_token = \<lparr>tok_key = key_of i, tok_fence = ?f\<rparr>, in_outcome = sim_outcome n, in_fp_variant = v\<rparr>]\<rparr>"
    have "key_ok (sim_mode s) i (if sim_mode s = Strict then Some ?st else d (key_of i)) (Some ?st)
        (hm_get (sim_committed ?s') i) (hm_get (sim_durable ?s') i) (hm_get (sim_successful ?s') i)
        (hm_get (sim_committed_fp ?s') i) (workers_of i (sim_inflight ?s'))"
      using key free v by (cases "sim_mode s") (auto simp: sim_key_ok_def key_ok_def)
    then show "sim_inv ?s'"
      by (intro sim_write [OF view sim_encodable(1) [OF i] e, where s' = ?s'])
        (use view i in \<open>auto simp: sim_view_def worker_ok_def\<close>)
  qed
qed

lemma sim_begin:
  assumes view: "sim_view d s" and clock: "unat (sim_now s) \<le> 86400000" and i: "i < KEY_SPACE"
    and v: "sim_mode s = GroupCommit \<longrightarrow> v = 0"
    and "begin": "engine_begin (wal_ops word) (sim_engine s) (key_of i) (sim_fingerprint_of i v) (sim_now s) = (b, e)"
  obtains (run) tok where "b = Begin_Run tok" "\<And>n. sim_inv (s\<lparr>sim_engine := e, sim_inflight := sim_inflight s @
      [\<lparr>in_index = i, in_token = tok, in_outcome = sim_outcome n, in_fp_variant = v\<rparr>]\<rparr>)"
  | (replay) oc where "b = Begin_Replay oc" "e = sim_engine s" "hm_get (sim_committed s) i = Some oc"
      "hm_get (sim_committed_fp s) i = Some v"
  | (refused) "b = Begin_InProgress \<or> b = Begin_Mismatch" "e = sim_engine s"
proof -
  let ?get = "ws_get (eng_store (sim_engine s)) (key_of i)"
  have key: "sim_key_ok d s i" and ttl: "ttl_ms (sim_engine s) = DEFAULT_TTL_MS" using view by (simp_all add: sim_view_def)
  consider (none) "?get = None" | (prog) f fp l where "?get = Some (InProgress f fp l)"
    | (comp) fp oc t where "?get = Some (Completed fp oc t)" by (metis key_state.exhaust option.exhaust)
  then show ?thesis
  proof cases
    case none
    then have start: "engine_start (wal_ops word) (sim_engine s) (key_of i) (sim_fingerprint_of i v) (sim_now s) = (b, e)"
      using "begin" by (simp add: engine_begin_def)
    have "hm_get (sim_committed s) i = None" "workers_of i (sim_inflight s) \<subseteq> {v}"
      using key none v by (cases "sim_mode s"; auto simp: sim_key_ok_def key_ok_def)+
    from sim_start [OF view i v start this] run show ?thesis by blast
  next
    case prog
    show ?thesis
    proof (cases "fp = sim_fingerprint_of i v \<and> l \<le> sim_now s")
      case True
      then have start: "engine_start (wal_ops word) (sim_engine s) (key_of i) (sim_fingerprint_of i v) (sim_now s) = (b, e)"
        using "begin" prog by (simp add: engine_begin_def)
      have "hm_get (sim_committed s) i = None" "workers_of i (sim_inflight s) \<subseteq> {v}"
        using key prog True by (auto simp: sim_key_ok_def key_ok_def)
      from sim_start [OF view i v start this] run show ?thesis by blast
    next
      case False
      then show ?thesis using refused "begin" prog by (auto simp: engine_begin_def split: if_splits)
    qed
  next
    case comp
    then have c: "1 \<le> t" "hm_get (sim_committed s) i = Some oc"
      "map_option (sim_fingerprint_of i) (hm_get (sim_committed_fp s) i) = Some fp"
      using key by (auto simp: sim_key_ok_def key_ok_def)
    then have t: "\<not> saturating_add t (ttl_ms (sim_engine s)) \<le> sim_now s"
      using not_expired clock by (simp add: ttl not_le)
    show ?thesis
    proof (cases "fp = sim_fingerprint_of i v")
      case True
      then show ?thesis using replay [of oc] "begin" comp t c by (auto simp: engine_begin_def)
    next
      case False
      then show ?thesis using refused "begin" comp t by (auto simp: engine_begin_def)
    qed
  qed
qed

definition sim_bound :: "nat \<Rightarrow> simulation \<Rightarrow> bool" where
  "sim_bound n s \<longleftrightarrow> unat (sim_now s) \<le> 1 + 1999 * n \<and> length (sim_inflight s) \<le> n"

lemma sim_bound_frame [simp]:
  "sim_bound n (s\<lparr>sim_stats := st\<rparr>) = sim_bound n s" "sim_bound n (s\<lparr>sim_rng := x\<rparr>) = sim_bound n s"
  by (simp_all add: sim_bound_def)

lemma do_begin_ok:
  assumes inv: "sim_inv s" and bound: "sim_bound n s" and n: "n \<le> 43200"
  shows "\<exists>s'. do_begin word s = Inr s' \<and> sim_inv s' \<and> sim_bound (Suc n) s'"
proof -
  define i where "i = rng_next (sim_rng s) mod KEY_SPACE"
  define r where "r = (if sim_mode s = Strict then rng_next (rng_next (sim_rng s)) else rng_next (sim_rng s))"
  define v where "v = (if sim_mode s = Strict then ucast (r mod 2) else 0 :: u8)"
  define s1 where "s1 = s\<lparr>sim_rng := r\<rparr>"
  have i: "i < KEY_SPACE" by (simp add: i_def KEY_SPACE_def word_mod_less_divisor)
  have inv1: "sim_inv s1" and bound1: "sim_bound n s1" using inv bound by (simp_all add: s1_def)
  then obtain d where view: "sim_view d s1" by (auto simp: sim_inv_def)
  have v: "sim_mode s1 = GroupCommit \<longrightarrow> v = 0" by (simp add: v_def s1_def)
  have clock: "unat (sim_now s1) \<le> 86400000" using bound1 n by (simp add: sim_bound_def)
  obtain b e where be: "engine_begin (wal_ops word) (sim_engine s1) (key_of i) (sim_fingerprint_of i v) (sim_now s1) = (b, e)"
    by fastforce
  have unfold_begin: "do_begin word s =
      on_begin i v (list_ex (\<lambda>w. in_index w = i) (sim_inflight s1)) b (s1\<lparr>sim_engine := e\<rparr>)"
    using be by (cases "sim_mode s = Strict") (simp_all add: do_begin_def below_def Let_def i_def r_def v_def s1_def)
  from view clock i v be show ?thesis
  proof (cases rule: sim_begin)
    case (run tok)
    have "do_begin word s = Inr (s1\<lparr>sim_engine := e, sim_inflight := sim_inflight s1 @
        [\<lparr>in_index = i, in_token = tok, in_outcome = sim_outcome (sim_next_body s1 + 1), in_fp_variant = v\<rparr>]\<rparr>
        \<lparr>sim_next_body := sim_next_body s1 + 1\<rparr>
        \<lparr>sim_stats := (if list_ex (\<lambda>w. in_index w = i) (sim_inflight s1)
           then (sim_stats s1)\<lparr>st_runs := st_runs (sim_stats s1) + 1, st_takeovers := st_takeovers (sim_stats s1) + 1\<rparr>
           else (sim_stats s1)\<lparr>st_runs := st_runs (sim_stats s1) + 1\<rparr>)\<rparr>)"
      by (simp add: unfold_begin on_begin_def run(1) Let_def make_outcome_def sim_outcome_def)
    then show ?thesis using bound1 run(2) [of "sim_next_body s1 + 1"] by (simp add: sim_bound_def)
  next
    case (replay oc)
    then have "\<exists>st. do_begin word s = Inr (s1\<lparr>sim_stats := st\<rparr>)" by (auto simp: unfold_begin on_begin_def Let_def)
    then show ?thesis using inv1 bound1 by (auto simp: sim_bound_def)
  next
    case refused
    then have "\<exists>st. do_begin word s = Inr (s1\<lparr>sim_stats := st\<rparr>)" by (auto simp: unfold_begin on_begin_def Let_def)
    then show ?thesis using inv1 bound1 by (auto simp: sim_bound_def)
  qed
qed

section \<open>Complete and clock\<close>

lemma sim_shrink:
  assumes "sim_view d s" and "set ws \<subseteq> set (sim_inflight s)"
  shows "sim_view d (s\<lparr>sim_inflight := ws\<rparr>)"
proof -
  have "sim_key_ok d (s\<lparr>sim_inflight := ws\<rparr>) i" if "sim_key_ok d s i" for i
    using key_ok_mono [OF that [unfolded sim_key_ok_def] workers_of_mono [OF assms(2)]] by (simp add: sim_key_ok_def)
  with assms show ?thesis by (auto simp: sim_view_def)
qed

lemma worker_in: "w \<in> set ws \<Longrightarrow> in_fp_variant w \<in> workers_of (in_index w) ws"
  by (auto simp: workers_of_def)

lemma key_ok_commit:
  assumes key: "key_ok mode i d (Some (InProgress f fp l)) com dur suc cfp vs"
    and fp: "fp = sim_fingerprint_of i v" and now: "1 \<le> now" and vs: "vs' \<subseteq> vs"
  shows "key_ok mode i (if mode = Strict then Some (Completed fp oc now) else d) (Some (Completed fp oc now)) (Some oc)
    (if mode = Strict then Some oc else dur) (if mode = Strict then Some 1 else suc) (Some v) vs'"
proof (cases mode)
  case Strict
  then show ?thesis using fp now by (simp add: key_ok_def)
next
  case GroupCommit
  have dur: "dur = None" by (rule key_ok_prog(2) [OF key])
  have all: "\<forall>x. Some (InProgress f fp l) = Some x \<or> d = Some x \<longrightarrow> fingerprint_in x = sim_fingerprint_of i 0"
    and g: "outcome_in d = None" "vs \<subseteq> {0}"
    using key dur unfolding key_ok_def GroupCommit durability.case by simp_all
  have "fp = sim_fingerprint_of i 0" "\<forall>x. d = Some x \<longrightarrow> fingerprint_in x = sim_fingerprint_of i 0"
    using all [THEN spec, of "InProgress f fp l"] all by simp_all
  then show ?thesis unfolding key_ok_def using GroupCommit dur g fp now vs by auto
qed

lemma sim_commit:
  assumes view: "sim_view d s" and w: "w \<in> set (sim_inflight s)"
    and get: "ws_get (eng_store (sim_engine s)) (key_of (in_index w)) = Some (InProgress f fp l)"
    and sub: "set ws \<subseteq> set (sim_inflight s)"
    and e: "eng_store e = ws_put (eng_store (sim_engine s)) (key_of (in_index w)) (Completed fp (in_outcome w) (sim_now s))"
      "ttl_ms e = ttl_ms (sim_engine s)"
  shows "\<exists>s'. on_complete w (Inr ()) (s\<lparr>sim_inflight := ws, sim_engine := e\<rparr>) = Inr s' \<and> sim_inv s' \<and>
    sim_now s' = sim_now s \<and> sim_inflight s' = ws"
proof -
  let ?i = "in_index w" and ?st = "Completed fp (in_outcome w) (sim_now s)"
  have key: "sim_key_ok d s ?i" and wok: "worker_ok w" and wf: "hm_wf (sim_committed s)" "hm_wf (sim_durable s)"
    and now: "1 \<le> sim_now s" using view w by (auto simp: sim_view_def)
  have vs: "in_fp_variant w \<in> workers_of ?i (sim_inflight s)" using w by (rule worker_in)
  note prog = key_ok_prog [OF key [unfolded sim_key_ok_def get]]
  note fresh = prog(1-3)
  have fp: "fp = sim_fingerprint_of ?i (in_fp_variant w)" using prog(4) vs by auto
  define s' where "s' = s\<lparr>sim_inflight := ws, sim_engine := e,
      sim_committed := hm_insert ?i (in_outcome w) (sim_committed s),
      sim_committed_fp := hm_insert ?i (in_fp_variant w) (sim_committed_fp s),
      sim_successful := (if sim_mode s = Strict then hm_insert ?i 1 (sim_successful s) else sim_successful s),
      sim_durable := (if sim_mode s = Strict then hm_insert ?i (in_outcome w) (sim_durable s) else sim_durable s)\<rparr>"
  have run: "on_complete w (Inr ()) (s\<lparr>sim_inflight := ws, sim_engine := e\<rparr>) =
      Inr (s'\<lparr>sim_stats := (sim_stats s)\<lparr>st_completes_ok := st_completes_ok (sim_stats s) + 1\<rparr>\<rparr>)"
    using fresh by (cases "sim_mode s") (simp_all add: on_complete_def Let_def mark_durable_def s'_def)
  have ws: "workers_of j ws \<subseteq> workers_of j (sim_inflight s)" for j by (rule workers_of_mono [OF sub])
  have "key_ok (sim_mode s) ?i (if sim_mode s = Strict then Some ?st else d (key_of ?i)) (Some ?st)
      (hm_get (sim_committed s') ?i) (hm_get (sim_durable s') ?i) (hm_get (sim_successful s') ?i)
      (hm_get (sim_committed_fp s') ?i) (workers_of ?i (sim_inflight s'))"
    using key_ok_commit [OF key [unfolded sim_key_ok_def get] fp now ws, of "in_outcome w"]
    by (cases "sim_mode s") (simp_all add: s'_def map_simps)
  moreover have "encodable (key_of ?i) ?st" using wok by (auto simp: worker_ok_def fp sim_encodable)
  ultimately have "sim_inv s'"
    by (intro sim_write [OF view _ e, where s' = s'])
      (use wf ws view sub in \<open>auto simp: s'_def map_simps sim_view_def\<close>)
  with run show ?thesis by (simp add: s'_def)
qed

lemma sim_complete:
  assumes view: "sim_view d s" and w: "w \<in> set (sim_inflight s)" and sub: "set ws \<subseteq> set (sim_inflight s)"
    and complete: "engine_complete (wal_ops word) (sim_engine s) (in_token w) (in_outcome w) (sim_now s) = (res, e)"
  shows "\<exists>s'. on_complete w res (s\<lparr>sim_inflight := ws, sim_engine := e\<rparr>) = Inr s' \<and> sim_inv s' \<and>
    sim_now s' = sim_now s \<and> sim_inflight s' = ws"
proof -
  have key: "sim_key_ok d s (in_index w)" and tok: "tok_key (in_token w) = key_of (in_index w)"
    using view w by (auto simp: sim_view_def worker_ok_def)
  have shrink: "sim_inv (s\<lparr>sim_inflight := ws\<rparr>)" using sim_shrink [OF view sub] by (auto simp: sim_inv_def)
  let ?get = "ws_get (eng_store (sim_engine s)) (key_of (in_index w))"
  consider (none) "?get = None" | (stale) f fp l where "?get = Some (InProgress f fp l)" "f \<noteq> tok_fence (in_token w)"
    | (commit) f fp l where "?get = Some (InProgress f fp l)" "f = tok_fence (in_token w)"
    | (comp) fp oc t where "?get = Some (Completed fp oc t)" by (metis key_state.exhaust option.exhaust)
  then show ?thesis
  proof cases
    case none
    then have "sim_mode s = GroupCommit"
      using key worker_in [OF w] by (cases "sim_mode s") (auto simp: sim_key_ok_def key_ok_def)
    then show ?thesis using none complete shrink by (auto simp: engine_complete_def tok on_complete_def Let_def)
  next
    case stale
    then show ?thesis using complete shrink by (auto simp: engine_complete_def tok on_complete_def Let_def)
  next
    case commit
    then have "res = Inr ()" "eng_store e = ws_put (eng_store (sim_engine s)) (key_of (in_index w))
        (Completed fp (in_outcome w) (sim_now s))" "ttl_ms e = ttl_ms (sim_engine s)"
      using complete by (auto simp: engine_complete_def tok)
    then show ?thesis using sim_commit [OF view w commit(1) sub] by simp
  next
    case comp
    then have "hm_get (sim_committed s) (in_index w) = Some oc" using key by (auto simp: sim_key_ok_def key_ok_def)
    then show ?thesis using comp complete shrink by (auto simp: engine_complete_def tok on_complete_def Let_def)
  qed
qed

lemma do_complete_ok:
  assumes inv: "sim_inv s" and bound: "sim_bound n s" and n: "n \<le> 43200"
  shows "\<exists>s'. do_complete word s = Inr s' \<and> sim_inv s' \<and> sim_bound (Suc n) s'"
proof (cases "sim_inflight s = []")
  case True
  then show ?thesis using inv bound by (auto simp: do_complete_def sim_bound_def)
next
  case False
  define s1 where "s1 = s\<lparr>sim_rng := rng_next (sim_rng s)\<rparr>"
  define k where "k = unat (rng_next (sim_rng s) mod (of_nat (length (sim_inflight s)) :: u64))"
  define ws where "ws = take k (sim_inflight s) @ drop (Suc k) (sim_inflight s)"
  define w where "w = sim_inflight s ! k"
  obtain d where view: "sim_view d s1" using inv by (auto simp: sim_inv_def s1_def)
  have fl: "sim_inflight s1 = sim_inflight s" by (simp add: s1_def)
  have len: "unat (of_nat (length (sim_inflight s)) :: u64) = length (sim_inflight s)"
    unfolding unat_of_nat by (rule mod_less) (use bound n in \<open>simp add: sim_bound_def\<close>)
  have k: "k < length (sim_inflight s)"
    unfolding k_def unat_mod len by (rule mod_less_divisor) (use False in simp)
  have w: "w \<in> set (sim_inflight s1)" using k by (simp add: w_def fl)
  have sub: "set ws \<subseteq> set (sim_inflight s1)" using set_take_subset set_drop_subset by (fastforce simp: ws_def fl)
  have lws: "length ws \<le> length (sim_inflight s)" using k by (simp add: ws_def)
  obtain res e where c: "engine_complete (wal_ops word) (sim_engine s1) (in_token w) (in_outcome w) (sim_now s1) = (res, e)"
    by fastforce
  then have "do_complete word s = on_complete w res (s1\<lparr>sim_inflight := ws, sim_engine := e\<rparr>)"
    using False by (simp add: do_complete_def below_def Let_def s1_def k_def ws_def w_def)
  then show ?thesis
    using sim_complete [OF view w sub c] bound lws by (auto simp: sim_bound_def s1_def)
qed

lemma do_advance_clock_ok:
  assumes inv: "sim_inv s" and bound: "sim_bound n s" and n: "n \<le> 43200"
  shows "sim_inv (do_advance_clock s) \<and> sim_bound (Suc n) (do_advance_clock s)"
proof -
  define r where "r = rng_next (rng_next (sim_rng s))"
  define jump where "jump = (if rng_next (sim_rng s) mod 2 = 0 then r mod (SIM_LEASE_MS div 2) + 1
      else SIM_LEASE_MS + r mod SIM_LEASE_MS)"
  have eq: "do_advance_clock s = s\<lparr>sim_rng := r, sim_now := sim_now s + jump\<rparr>"
    by (simp add: do_advance_clock_def below_def Let_def r_def jump_def)
  have small: "unat (r mod 500) < 500" "unat (r mod 1000) < 1000" by (simp_all add: unat_mod)
  have "unat jump \<le> 1999"
  proof (cases "rng_next (sim_rng s) mod 2 = 0")
    case True
    then show ?thesis using small(1) by (simp add: jump_def SIM_LEASE_MS_def unat_word_ariths)
  next
    case False
    then show ?thesis using small(2) by (simp add: jump_def SIM_LEASE_MS_def unat_word_ariths)
  qed
  then have now: "unat (sim_now s + jump) = unat (sim_now s) + unat jump" "unat (sim_now s) + unat jump \<le> 1 + 1999 * Suc n"
    using bound n by (simp_all add: sim_bound_def unat_word_ariths)
  have "1 \<le> sim_now s + jump" using inv now(1) by (auto simp: sim_inv_def sim_view_def word_le_nat_alt)
  then have "sim_inv (do_advance_clock s)" using inv by (auto simp: eq sim_inv_def sim_view_def sim_key_ok_def)
  moreover have "sim_bound (Suc n) (do_advance_clock s)" using bound now by (simp add: eq sim_bound_def)
  ultimately show ?thesis by simp
qed

section \<open>Crash\<close>

lemma outcome_in_Some: "outcome_in x = Some oc \<longleftrightarrow> (\<exists>fp t. x = Some (Completed fp oc t))"
  by (cases x rule: outcome_in.cases) auto

lemma key_ok_comp:
  assumes "key_ok mode i d (Some (Completed fp oc t)) com dur suc cfp vs"
  shows "1 \<le> t" "\<exists>v. cfp = Some v \<and> fp = sim_fingerprint_of i v"
proof -
  have "1 \<le> t \<and> map_option (sim_fingerprint_of i) cfp = Some fp" using assms unfolding key_ok_def by blast
  then show "1 \<le> t" "\<exists>v. cfp = Some v \<and> fp = sim_fingerprint_of i v" by auto
qed

lemma check_replay_ok:
  assumes view: "sim_view d s" and clock: "unat (sim_now s) \<le> 86400000" and c: "hm_get (sim_committed s) i = Some oc"
  shows "check_replay word (i, oc) s = Inr s"
proof -
  have key: "sim_key_ok d s i" and ttl: "ttl_ms (sim_engine s) = DEFAULT_TTL_MS" using view by (simp_all add: sim_view_def)
  have "hm_get (sim_committed s) i = outcome_in (ws_get (eng_store (sim_engine s)) (key_of i))"
    using key unfolding sim_key_ok_def key_ok_def by (elim conjE)
  then have "outcome_in (ws_get (eng_store (sim_engine s)) (key_of i)) = Some oc" using c by simp
  then obtain fp t where get: "ws_get (eng_store (sim_engine s)) (key_of i) = Some (Completed fp oc t)"
    by (auto simp: outcome_in_Some)
  then obtain v where v: "hm_get (sim_committed_fp s) i = Some v" "fp = sim_fingerprint_of i v" "1 \<le> t"
    using key_ok_comp [OF key [unfolded sim_key_ok_def get]] by blast
  have "\<not> saturating_add t DEFAULT_TTL_MS \<le> sim_now s" using not_expired [OF v(3) clock] by (simp add: not_le)
  then show ?thesis by (simp add: check_replay_def Let_def engine_begin_def ttl get v(1) v(2) [symmetric])
qed

lemma check_replays_ok:
  assumes "sim_view d s" and "unat (sim_now s) \<le> 86400000" and "\<forall>(i, oc) \<in> set xs. hm_get (sim_committed s) i = Some oc"
  shows "fold_ok (check_replay word) xs s = Inr s"
  using assms(3) by (induction xs) (auto simp: check_replay_ok [OF assms(1,2)])

lemma order_set: "iteration_order ord \<Longrightarrow> set (ord m) = set m"
  by (metis iteration_order_def mset_eq_setD)

text \<open>Losing the buffer, and forcing it out.\<close>

lemma key_ok_lose:
  assumes "key_ok GroupCommit i d st com dur suc cfp vs"
  shows "key_ok GroupCommit i d d dur dur suc cfp vs"
proof -
  note k0 = assms [unfolded key_ok_def durability.case]
  have k: "dur = outcome_in d" using k0 by (elim conjE)
  have same: "dur \<noteq> None \<longrightarrow> st = d" using k0 by (elim conjE)
  have vs: "vs \<subseteq> {0}" using k0 by (elim conjE)
  have fps: "\<forall>x. st = Some x \<or> d = Some x \<longrightarrow> fingerprint_in x = sim_fingerprint_of i 0" using k0 by (elim conjE)
  have comp: "1 \<le> t \<and> map_option (sim_fingerprint_of i) cfp = Some fp" if "d = Some (Completed fp oc t)" for fp oc t
  proof -
    have "st = Some (Completed fp oc t)" using k same that by simp
    then show ?thesis using assms unfolding key_ok_def by blast
  qed
  have prog: "\<forall>v \<in> vs. sim_fingerprint_of i v = fp" if "d = Some (InProgress f fp l)" for f fp l
  proof
    fix v assume "v \<in> vs"
    then have "v = 0" using vs by blast
    moreover have "fingerprint_in (InProgress f fp l) = sim_fingerprint_of i 0" using fps that by blast
    ultimately show "sim_fingerprint_of i v = fp" by simp
  qed
  show ?thesis unfolding key_ok_def durability.case
    by (intro conjI allI impI) (rule k, rule k, rule refl, erule comp [THEN conjunct1], erule comp [THEN conjunct2],
        erule prog, rule vs, use fps in blast)
qed

lemma key_ok_force:
  assumes "key_ok GroupCommit i d st com dur suc cfp vs"
  shows "key_ok GroupCommit i st st com com suc cfp vs"
proof -
  note k0 = assms [unfolded key_ok_def durability.case]
  have com: "com = outcome_in st" using k0 by (elim conjE)
  have comp: "\<forall>fp oc t. st = Some (Completed fp oc t) \<longrightarrow> 1 \<le> t \<and> map_option (sim_fingerprint_of i) cfp = Some fp"
    using k0 by (elim conjE)
  have prog: "\<forall>f fp l. st = Some (InProgress f fp l) \<longrightarrow> (\<forall>v \<in> vs. sim_fingerprint_of i v = fp)"
    using k0 by (elim conjE)
  have vs: "vs \<subseteq> {0}" using k0 by (elim conjE)
  have fps: "\<forall>x. st = Some x \<or> d = Some x \<longrightarrow> fingerprint_in x = sim_fingerprint_of i 0" using k0 by (elim conjE)
  show ?thesis unfolding key_ok_def durability.case
    by (intro conjI) (fact com, fact com, simp, fact comp, fact prog, fact vs, use fps in blast)
qed

lemma do_crash_ok:
  assumes ord: "iteration_order ord" and inv: "sim_inv s" and bound: "sim_bound n s" and n: "n \<le> 43200"
  shows "\<exists>s'. do_crash ord word s = Inr s' \<and> sim_inv s' \<and> sim_bound (Suc n) s'"
proof -
  obtain d where view: "sim_view d s" using inv by (auto simp: sim_inv_def)
  have sv: "store_view (eng_store (sim_engine s)) d" and wf: "hm_wf (sim_committed s)" "hm_wf (sim_durable s)"
    and sync: "ws_sync_each (eng_store (sim_engine s)) = (sim_mode s = Strict)" and keys: "\<And>i. sim_key_ok d s i"
    using view by (simp_all add: sim_view_def)
  obtain w where w: "open_with io_ok (ws_file (eng_store (sim_engine s))) (sim_mode s = Strict) = Inr w" "store_view w d"
      "ws_get w = d" "ws_sync_each w = (sim_mode s = Strict)"
    by (rule store_view_open [OF sv])
  define s1 where "s1 = s\<lparr>sim_stats := (sim_stats s)\<lparr>st_crashes := st_crashes (sim_stats s) + 1\<rparr>,
      sim_engine := engine_new (wal_ops word) w SIM_LEASE_MS,
      sim_committed := (if sim_mode s = GroupCommit then sim_durable s else sim_committed s)\<rparr>"
  have "sim_key_ok d s1 i" for i
  proof (cases "sim_mode s")
    case Strict
    then have "d = ws_get (eng_store (sim_engine s))" using store_view_sync [OF sv] sync by simp
    then show ?thesis using keys [of i] Strict
      by (simp add: sim_key_ok_def s1_def engine_new_def engine_with_ttl_def w(3))
  next
    case GroupCommit
    then show ?thesis using key_ok_lose keys [of i]
      by (simp add: sim_key_ok_def s1_def engine_new_def engine_with_ttl_def w(3))
  qed
  then have view1: "sim_view d s1" using view w(2,4)
    by (simp add: s1_def sim_view_def engine_new_def engine_with_ttl_def)
  have clock: "unat (sim_now s1) \<le> 86400000" using bound n by (simp add: s1_def sim_bound_def)
  have "fold_ok (check_replay word) (ord (sim_committed s1)) s1 = Inr s1"
    by (rule check_replays_ok [OF view1 clock]) (use wf in \<open>auto simp: order_set [OF ord] s1_def\<close>)
  then have "do_crash ord word s = Inr s1"
    using w(1) by (cases "sim_mode s") (simp_all add: do_crash_def open_store_mode s1_def Let_def)
  then show ?thesis using view1 bound by (auto simp: sim_inv_def sim_bound_def s1_def)
qed

section \<open>Flush\<close>

text \<open>Marking the committed outcomes as durable, from entries the two oracles agree on.\<close>

lemma mark_durables_ok:
  assumes "\<forall>(i, oc) \<in> set xs. hm_get com i = Some oc" and "\<forall>i oc. hm_get (sim_durable s) i = Some oc \<longrightarrow> hm_get com i = Some oc"
    and "hm_wf (sim_durable s)"
  shows "\<exists>m. fold_ok (\<lambda>(index, outcome). mark_durable index outcome) xs s = Inr (s\<lparr>sim_durable := m\<rparr>) \<and> hm_wf m \<and>
    (\<forall>i. hm_get m i = (if i \<in> fst ` set xs then hm_get com i else hm_get (sim_durable s) i))"
  using assms
proof (induction xs arbitrary: s)
  case Nil
  then show ?case by (intro exI [of _ "sim_durable s"]) simp
next
  case (Cons x xs)
  obtain i oc where x: "x = (i, oc)" by force
  have c: "hm_get com i = Some oc" using Cons.prems(1) x by simp
  show ?case
  proof (cases "hm_get (sim_durable s) i")
    case None
    let ?s = "s\<lparr>sim_durable := hm_insert i oc (sim_durable s)\<rparr>"
    have "mark_durable i oc s = Inr ?s" using None by (simp add: mark_durable_def)
    moreover obtain m where "fold_ok (\<lambda>(index, outcome). mark_durable index outcome) xs ?s = Inr (?s\<lparr>sim_durable := m\<rparr>)"
        "hm_wf m" "\<forall>j. hm_get m j = (if j \<in> fst ` set xs then hm_get com j else hm_get (sim_durable ?s) j)"
    proof -
      have "\<forall>(i, oc) \<in> set xs. hm_get com i = Some oc" using Cons.prems(1) by simp
      moreover have "\<forall>j oc. hm_get (sim_durable ?s) j = Some oc \<longrightarrow> hm_get com j = Some oc"
        using Cons.prems(2) c by (auto simp: map_simps split: if_splits)
      moreover have "hm_wf (sim_durable ?s)" using Cons.prems(3) by simp
      ultimately show thesis using Cons.IH [of ?s] that by auto
    qed
    ultimately show ?thesis using c by (intro exI [of _ m]) (auto simp: x map_simps)
  next
    case (Some oc')
    then have "mark_durable i oc s = Inr s" using Cons.prems(2) c by (auto simp: mark_durable_def)
    moreover obtain m where "fold_ok (\<lambda>(index, outcome). mark_durable index outcome) xs s = Inr (s\<lparr>sim_durable := m\<rparr>)"
        "hm_wf m" "\<forall>j. hm_get m j = (if j \<in> fst ` set xs then hm_get com j else hm_get (sim_durable s) j)"
      using Cons.IH [OF _ Cons.prems(2,3)] Cons.prems(1) by auto
    ultimately show ?thesis using Some Cons.prems(2) by (intro exI [of _ m]) (auto simp: x)
  qed
qed

lemma do_flush_ok:
  assumes ord: "iteration_order ord" and inv: "sim_inv s" and bound: "sim_bound n s" and mode: "sim_mode s = GroupCommit"
  shows "\<exists>s'. do_flush ord word s = Inr s' \<and> sim_inv s' \<and> sim_bound (Suc n) s'"
proof -
  obtain d where view: "sim_view d s" using inv by (auto simp: sim_inv_def)
  let ?w = "eng_store (sim_engine s)"
  have sv: "store_view ?w d" and wf: "hm_wf (sim_committed s)" "hm_wf (sim_durable s)"
    and keys: "\<And>i. sim_key_ok d s i" using view by (simp_all add: sim_view_def)
  define s1 where "s1 = s\<lparr>sim_stats := (sim_stats s)\<lparr>st_flushes := st_flushes (sim_stats s) + 1\<rparr>,
      sim_engine := engine_flush (wal_ops word) (sim_engine s)\<rparr>"
  have e: "eng_store (engine_flush (wal_ops word) (sim_engine s)) = ws_flush ?w"
    "ttl_ms (engine_flush (wal_ops word) (sim_engine s)) = ttl_ms (sim_engine s)" by (simp_all add: engine_flush_def)
  have agree: "hm_get (sim_durable s) i = Some oc \<Longrightarrow> hm_get (sim_committed s) i = Some oc" for i oc
    using keys [of i] by (auto simp: sim_key_ok_def key_ok_def)
  obtain m where m: "do_flush ord word s = Inr (s1\<lparr>sim_durable := m\<rparr>)" "hm_wf m"
      "\<And>i. hm_get m i = (if i \<in> fst ` set (sim_committed s) then hm_get (sim_committed s) i else hm_get (sim_durable s) i)"
    using mark_durables_ok [of "ord (sim_committed s)" "sim_committed s" s1] wf agree order_set [OF ord]
    by (auto simp: do_flush_def Let_def s1_def)
  have "hm_get m i = hm_get (sim_committed s) i" for i
  proof (cases "hm_get (sim_committed s) i")
    case None
    then have "i \<notin> fst ` set (sim_committed s)" "hm_get (sim_durable s) i = None"
      using agree [of i] by (simp add: map_of_eq_None_iff, cases "hm_get (sim_durable s) i", simp_all)
    then show ?thesis using m(3) [of i] None by simp
  next
    case (Some oc)
    then have "i \<in> fst ` set (sim_committed s)" by (metis map_of_eq_None_iff option.distinct(1))
    then show ?thesis using m(3) [of i] by simp
  qed
  then have "sim_key_ok (ws_get ?w) (s1\<lparr>sim_durable := m\<rparr>) i" for i
    using key_ok_force keys [of i] mode by (simp add: sim_key_ok_def s1_def e store_view_flush [OF sv])
  then have "sim_view (ws_get ?w) (s1\<lparr>sim_durable := m\<rparr>)"
    using view store_view_flush [OF sv] m(2) by (simp add: sim_view_def s1_def e)
  then show ?thesis using m(1) bound by (auto simp: sim_inv_def sim_bound_def s1_def)
qed

section \<open>Runs\<close>

lemma sim_step_ok:
  assumes "iteration_order ord" and "sim_inv s" and "sim_bound n s" and "n \<le> 43200"
  shows "\<exists>s'. sim_step ord word s = Inr s' \<and> sim_inv s' \<and> sim_bound (Suc n) s'"
proof -
  define s1 where "s1 = s\<lparr>sim_rng := rng_next (sim_rng s)\<rparr>"
  have s1: "sim_inv s1" "sim_bound n s1" using assms by (simp_all add: s1_def)
  note ok = do_begin_ok [OF s1 assms(4), of word] do_complete_ok [OF s1 assms(4), of word]
    do_advance_clock_ok [OF s1 assms(4)] do_crash_ok [OF assms(1) s1 assms(4), of word]
  let ?ok = "\<lambda>r. \<exists>s'. r = Inr s' \<and> sim_inv s' \<and> sim_bound (Suc n) s'"
  let ?count = "\<lambda>s. s\<lparr>sim_stats := (sim_stats s)\<lparr>st_steps := st_steps (sim_stats s) + 1\<rparr>\<rparr>"
  have post: "?ok (map_sum id ?count r)" if "?ok r" for r using that by auto
  show ?thesis
  proof (cases "sim_mode s1")
    case Strict
    then show ?thesis using ok
      by (simp add: sim_step_def below_def Let_def post flip: s1_def)
  next
    case GroupCommit
    then show ?thesis using ok do_flush_ok [OF assms(1) s1 GroupCommit, of word]
      by (simp add: sim_step_def below_def Let_def post flip: s1_def)
  qed
qed

lemma sim_run_ok:
  "iteration_order ord \<Longrightarrow> sim_inv s \<Longrightarrow> sim_bound m s \<Longrightarrow> m + n \<le> 43201 \<Longrightarrow>
   \<exists>s'. sim_run ord word n s = Inr s' \<and> sim_inv s'"
proof (induction n arbitrary: m s)
  case (Suc n)
  obtain s' where "sim_step ord word s = Inr s'" "sim_inv s'" "sim_bound (Suc m) s'"
    using sim_step_ok [OF Suc.prems(1,2,3)] Suc.prems(4) by auto
  with Suc.IH [of s' "Suc m"] Suc.prems(1,4) show ?case by simp
qed simp

lemma sim_with_mode_ok: "\<exists>s. sim_with_mode word seed mode = Inr s \<and> sim_inv s \<and> sim_bound 0 s"
proof -
  let ?w = "\<lparr>ws_index = [], ws_file = [], ws_pending = [], ws_sync_each = (mode = Strict), ws_chain_root = GENESIS\<rparr>"
  have "wal_rep ?w [] []" by (simp add: wal_rep_def)
  then have "store_view ?w (\<lambda>_. None)" unfolding store_view_def
    by (intro exI [of _ "[]"]) (simp add: fun_eq_iff)
  moreover have "open_store mode [] = Inr ?w"
    using open_with_log [of "[]" "[]" "mode = Strict"] by (simp add: open_store_mode)
  moreover have "key_ok mode i None None None None None None {}" for i by (cases mode) (simp_all add: key_ok_def)
  ultimately show ?thesis
    by (auto simp: sim_with_mode_def sim_inv_def sim_view_def sim_key_ok_def sim_bound_def workers_of_def
        engine_new_def engine_with_ttl_def ws_get_def intro!: exI [of _ "\<lambda>_. None"])
qed

lemma run_seed_ok:
  assumes "iteration_order ord" and "unat steps \<le> 43200"
  shows "\<exists>acc'. run_seed ord word mode steps seed acc = Inr acc'"
proof -
  obtain s0 where s0: "sim_with_mode word (of_nat seed) mode = Inr s0" "sim_inv s0" "sim_bound 0 s0"
    using sim_with_mode_ok by blast
  have "\<exists>s. sim_run ord word (unat steps) s0 = Inr s \<and> sim_inv s"
    by (rule sim_run_ok [OF assms(1) s0(2,3)]) (use assms(2) in simp)
  with s0(1) show ?thesis by (auto simp: run_seed_def)
qed

lemma fold_ok_total: "(\<And>x s. \<exists>s'. f x s = Inr s') \<Longrightarrow> \<exists>s'. fold_ok f xs s = Inr s'"
proof (induction xs arbitrary: s)
  case (Cons x xs)
  obtain s' where "f x s = Inr s'" using Cons.prems by blast
  with Cons.IH [OF Cons.prems, of s'] show ?case by simp
qed simp

section \<open>Properties\<close>

text \<open>C14. The campaign passes. Whatever the number of seeds and the iteration order of the hash maps, the runner
  returns its totals for both durability modes: with at most 43200 steps per seed none of the assertions of
  the simulation fails. In strict mode no key is completed twice and no token is unknown; in group-commit mode
  an outcome that was flushed never changes although crashes lose the writes after the last flush. In
  both, a replay returns the committed outcome, to the request that produced it, and after each crash
  every committed key is replayed from the reopened log. A step moves the clock by at most 1999 ms, so
  43200 steps stay within the default time to live of 24 hours, after which a key may run again.\<close>

theorem campaign_passes:
  assumes "iteration_order ord" and "unat (sim_env_u64 env (ascii ''ONCED_SIM_STEPS'') 2000) \<le> 43200"
  shows "\<exists>strict group. sim_main ord word env = Inr [(Strict, strict), (GroupCommit, group)]"
proof -
  let ?steps = "sim_env_u64 env (ascii ''ONCED_SIM_STEPS'') 2000"
  let ?seeds = "[0..<unat (sim_env_u64 env (ascii ''ONCED_SIM_SEEDS'') 200)]"
  have "\<exists>acc. fold_ok (run_seed ord word mode ?steps) ?seeds stats_default = Inr acc" for mode
    by (rule fold_ok_total) (rule run_seed_ok [OF assms])
  then obtain strict group where "fold_ok (run_seed ord word Strict ?steps) ?seeds stats_default = Inr strict"
      "fold_ok (run_seed ord word GroupCommit ?steps) ?seeds stats_default = Inr group"
    by metis
  then show ?thesis by (simp add: sim_main_def Let_def)
qed

theorem campaign_passes_witness:
  "\<exists>strict group. sim_main rev id (\<lambda>_. None) = Inr [(Strict, strict), (GroupCommit, group)]"
  by (rule campaign_passes) (simp_all add: iteration_order_def sim_env_u64_def)

end
