(* ===== verification/Spec2Isabelle.thy ===== *)
theory Spec2Isabelle
  imports Onced_Fips Onced_Replication Onced_Tamper Onced_Velocity Onced_Pow Onced_Process Onced_Uring Onced_Fast Onced_Sim_Campaign
begin

text \<open>
  A verification development of onced, an HTTP gateway in Rust that makes requests with an idempotency
  key take effect once. Paths below are relative to \<^verbatim>\<open>src/crates\<close>.

  \<^bold>\<open>The program.\<close> \<^verbatim>\<open>onced-core\<close> holds the engine (a lease and a fencing token per key), the stores it runs
  on (memory, write-ahead log, replicas), the hashes, and the abuse controls (sliding windows, sketches,
  velocity, proof of work). \<^verbatim>\<open>onced-gateway\<close> parses HTTP, asks the engine before it forwards a request and
  records the response after, and shards keys over several engines. \<^verbatim>\<open>onced-fast\<close> and \<^verbatim>\<open>onced-uring\<close> are
  two other transports around the same router. \<^verbatim>\<open>onced-sim\<close> drives engine and log through random faults and
  asserts the guarantees.

  \<^bold>\<open>The theories.\<close>
  \<^item> \<open>Onced_Prelude\<close>: machine words, little- and big-endian bytes, UTF-8, saturating arithmetic, hash maps
    (association lists, with the iteration order a parameter) and ordered maps.
  \<^item> \<open>Onced_Types\<close> (\<^verbatim>\<open>onced-core/src/lib.rs\<close>): keys, fingerprints, fences, outcomes, key states.
  \<^item> \<open>Onced_Store\<close> (\<^verbatim>\<open>store.rs\<close>): the trait as a record of operations, its contract as the locales
    \<open>key_store\<close> and \<open>fenced_store\<close>, the memory store as an interpretation.
  \<^item> \<open>Onced_Engine\<close> (\<^verbatim>\<open>engine.rs\<close>): every operation of the engine. The lemmas are proved once for any
    \<open>key_store\<close>: the engine simulates a map specification, a commit is final, a lease excludes, a
    superseded token is refused.
  \<^item> \<open>Onced_Hash\<close>, \<open>Onced_Fips\<close> (\<^verbatim>\<open>hash.rs\<close>): SHA-256 and HMAC, and that they are the functions of the standards, the
    constants included.
  \<^item> \<open>Onced_Wal_Codec\<close>, \<open>Onced_Wal\<close> (\<^verbatim>\<open>wal.rs\<close>): record format, CRC, hash chain, replay, open, put, flush,
    compaction. \<open>wal_rep w dl pl\<close> says that the file holds the log \<open>dl\<close> and the buffer \<open>pl\<close>; the store is
    an interpretation of \<open>key_store\<close> for every iteration order.
  \<^item> \<open>Onced_Recovery\<close>: a node is an engine over a log; its events are calls, and crashes in the middle of
    a call, which leave any prefix of the buffered bytes or any stage of a compaction. Durability,
    atomicity and fencing are invariants of its runs.
  \<^item> \<open>Onced_Tamper\<close>: what damage to a log file opening detects, and what the chain root commits to.
  \<^item> \<open>Onced_Replication\<close> (\<^verbatim>\<open>replication.rs\<close>): the replicated store, again a \<open>key_store\<close>. A call of the group is the
    same call on each node, so each node is one of \<open>Onced_Recovery\<close>.
  \<^item> \<open>Onced_F64\<close>, \<open>Onced_Abuse\<close>, \<open>Onced_Sketch\<close>, \<open>Onced_Velocity\<close>, \<open>Onced_Pow\<close> (\<^verbatim>\<open>abuse.rs\<close>, \<^verbatim>\<open>sketch.rs\<close>,
    \<^verbatim>\<open>hll.rs\<close>, \<^verbatim>\<open>velocity.rs\<close>, \<^verbatim>\<open>pow.rs\<close>): the abuse controls over exactly rounded binary64 arithmetic, with
    their error and memory bounds.
  \<^item> \<open>Onced_Text\<close>, \<open>Onced_Http\<close> (\<^verbatim>\<open>onced-gateway/src/http.rs\<close>): string primitives, parsers, serializers,
    round trips; what a parser accepts has the types of the code.
  \<^item> \<open>Onced_Gateway\<close> (\<^verbatim>\<open>gateway.rs\<close>), \<open>Onced_Router\<close> (\<^verbatim>\<open>router.rs\<close>), \<open>Onced_Server\<close> (\<^verbatim>\<open>server.rs\<close>, \<^verbatim>\<open>main.rs\<close>):
    the request handler in its phases, metrics, sharding, one connection, configuration. Concurrent
    requests are interleavings of the sections that hold a lock; the projection of a run to a shard is
    a run of its gateway.
  \<^item> \<open>Onced_Uring\<close> (\<^verbatim>\<open>onced-uring\<close>): reading, answering and forwarding one request of the io_uring server;
    reading ends whatever the client sends.
  \<^item> \<open>Onced_Fast\<close> (\<^verbatim>\<open>onced-fast\<close>): the asynchronous transport, with the functions of axum, http and reqwest that
    it calls as the fields of a record. A retry is answered from the cache whatever the libraries then do; the
    binary builds the same router as the blocking gateway.
  \<^item> \<open>Onced_Sim\<close>, \<open>Onced_Sim_Campaign\<close> (\<^verbatim>\<open>onced-sim\<close>): the simulation with its generator and oracle; no assertion of
    the whole campaign fails, in strict and in group-commit mode. One invariant covers both modes.
  \<^item> \<open>Onced_Node\<close>: the nodes reached from an empty disk, on which the recovery lemmas are stated once more as
    facts on runs.
  \<^item> \<open>Onced_Service\<close>: one gateway with its engine, log and crashes. The events are the locked sections of requests
    and crashes in the middle of one; a run projects to a run of the node below.
  \<^item> \<open>Onced_Process\<close>: the gateway binary. \<open>gateway_main\<close> builds the router from the log files, a crash stops all shards,
    each in the middle of a section, and the next start reads the files it left; a run projects to a run of the
    service on every shard. A response handed back within its lease is the only answer for its key until it
    expires, through any number of restarts.
  \<^item> This theory: the properties of engine, log and recovery together, on the nodes reached from an empty
    disk, and of the replicated store.

  \<^bold>\<open>Conventions.\<close> Integers of \<open>w\<close> bits are words and wrap; \<open>usize\<close> is \<open>nat\<close>, with the wrap
  written out in the Count-Min sketch, whose dimensions are the caller's. A string is its UTF-8 bytes.
  A panic or an error is a value of a sum or option type. Time is the argument it is in the code. Code
  outside the repository (the backend, the routing hash \<open>DefaultHasher\<close>, the natural logarithm, the
  environment) is a parameter. File operations of the log succeed between crashes; the failure of one
  is a branch of \<open>open_with\<close>.

  \<^bold>\<open>Bounds.\<close> Recursions follow their data or have a termination proof; none has fuel. A record is
  encodable when its payload is shorter than \<open>2 ^ 32\<close> bytes, the range of its length field. The result
  on the simulation is for 43200 steps, since a step advances the clock by at most 1999 ms and the
  default time to live is 24 h. Properties on tamper evidence name a SHA-256 collision explicitly
  instead of assuming that there is none.

  \<^bold>\<open>Not modelled.\<close> The runtimes (threads, tokio, io_uring), accept loops, socket timeouts and the background
  tasks that call \<open>prune_expired\<close>, whose calls are events of the runs; connection pooling, and a request that the
  asynchronous runtime drops before its response arrives, which leaves its key to the lease; the
  benchmark, fuzz targets and tests.
\<close>

section \<open>The engine\<close>

text \<open>C8. Refinement. On every sequence of calls an engine answers the same over \<open>MemoryStore\<close>, over
  \<open>WalStore\<close> (whatever order its compactions write the index in) and over a plain map from keys to states.\<close>

theorem engine_refines_map:
  "engine_answers memory_ops (engine_with_ttl memory_ops ms_new lease ttl) evs =
     engine_answers map_ops (engine_with_ttl map_ops (\<lambda>_. None) lease ttl) evs \<and>
   engine_answers (wal_ops ord) (fresh_node sync lease ttl) evs =
     engine_answers map_ops (engine_with_ttl map_ops (\<lambda>_. None) lease ttl) evs"
proof -
  have "abs_engine memory_ops (engine_with_ttl memory_ops ms_new lease ttl) =
      engine_with_ttl map_ops (\<lambda>_. None) lease ttl"
    "abs_engine (wal_ops ord) (fresh_node sync lease ttl) = engine_with_ttl map_ops (\<lambda>_. None) lease ttl"
    by (simp_all add: abs_engine_def engine_with_ttl_def map_ops_def memory_ops_def fun_eq_iff
        default_max_in_progress_fence_def)
  then show ?thesis
    using mem.abs_answers [of "engine_with_ttl memory_ops ms_new lease ttl" evs]
      wal.abs_answers [of "fresh_node sync lease ttl" ord evs] by simp
qed

text \<open>C9. At most one commit per key and time-to-live. Once \<open>complete\<close> has succeeded for a key, then after
  any calls that happen before the outcome expires, every further \<open>complete\<close> for that key is refused, and
  every \<open>begin\<close> replays the committed outcome for the same request and reports a mismatch for another.\<close>

theorem commit_is_final:
  assumes "ms_inv (eng_store e)"
    and "fst (engine_complete memory_ops e tok oc t) = Inr ()"
    and "\<forall>ev \<in> set evs. \<not> event_at_or_after (saturating_add t (ttl_ms e)) ev"
  shows "let e' = engine_exec memory_ops e (EvComplete tok oc t # evs) in
    (\<forall>f oc' t'. fst (engine_complete memory_ops e' \<lparr>tok_key = tok_key tok, tok_fence = f\<rparr> oc' t') =
       Inl AlreadyCompleted) \<and>
    (\<exists>fp. \<forall>fp' now. now < saturating_add t (ttl_ms e) \<longrightarrow>
       fst (engine_begin memory_ops e' (tok_key tok) fp' now) =
         (if fp' = fp then Begin_Replay oc else Begin_Mismatch))"
proof -
  obtain fp l where g: "store_get memory_ops (eng_store e) (tok_key tok) = Some (InProgress (tok_fence tok) fp l)"
    using assms(2) by (auto simp: mem.complete_ok_iff)
  show ?thesis
    using mem.complete_then_immutable [OF assms(1) g assms(3), of oc]
      mem.replays_until_ttl [OF assms(1) g assms(3), of _ oc]
    by (auto simp: Let_def engine_complete_def simp del: engine_exec.simps)
qed

text \<open>C10. Fencing. Once a key has been taken over by another worker, the earlier token is refused for ever,
  whatever calls follow (as long as the 64-bit fence counter does not wrap).\<close>

theorem superseded_token_never_commits:
  assumes "ms_inv (eng_store e)" and "fence_val (tok_fence tok) < next_fence e"
    and "fst (engine_begin memory_ops e (tok_key tok) fp now) = Begin_Run tok'"
    and "unat (next_fence e) + length evs + 1 < 2 ^ 64"
  shows "fst (engine_complete memory_ops
      (engine_exec memory_ops (snd (engine_begin memory_ops e (tok_key tok) fp now)) evs) tok oc t) \<noteq> Inr ()"
proof (intro mem.superseded_refused mem.superseded_exec)
  have ne: "next_fence e \<noteq> - 1" using assms(4) by (auto simp: unat_minus_one)
  show "superseded memory_ops (snd (engine_begin memory_ops e (tok_key tok) fp now)) tok"
    using mem.takeover_supersedes [OF assms(1,2) ne assms(3)] .
  show "ms_inv (eng_store (snd (engine_begin memory_ops e (tok_key tok) fp now)))"
    using mem.begin_store(1) [OF assms(1)] .
  show "unat (next_fence (snd (engine_begin memory_ops e (tok_key tok) fp now))) + length evs < 2 ^ 64"
    using assms(4) unat_plus_one [OF ne] by simp
qed

text \<open>C11. Mutual exclusion. While the lease of a run has not expired and its holder has not completed, no
  \<open>begin\<close> for the key starts a second run: the same request is told to wait, another one mismatches.\<close>

theorem lease_excludes:
  assumes "ms_inv (eng_store e)"
    and "fst (engine_begin memory_ops e k fp t) = Begin_Run tok"
    and "\<forall>ev \<in> set evs. \<not> event_at_or_after (saturating_add t (lease_ms e)) ev"
    and "\<forall>oc t'. EvComplete tok oc t' \<notin> set evs"
    and "now < saturating_add t (lease_ms e)"
  shows "fst (engine_begin memory_ops (engine_exec memory_ops e (EvBegin k fp t # evs)) k fp' now) =
    (if fp' = fp then Begin_InProgress else Begin_Mismatch)"
proof -
  let ?e = "snd (engine_begin memory_ops e k fp t)"
  have start: "begin_decision (ttl_ms e) fp t (store_get memory_ops (eng_store e) k) = Act_Start"
    and tok: "tok = \<lparr>tok_key = k, tok_fence = Fence (next_fence e)\<rparr>"
    using assms(2) by (auto simp: mem.begin_result split: begin_action.splits)
  then have "store_get memory_ops (eng_store ?e) k =
      Some (InProgress (Fence (next_fence e)) fp (saturating_add t (lease_ms e)))"
    using mem.begin_store(2) [OF assms(1), of k fp t k] by simp
  then have "store_get memory_ops (eng_store (engine_exec memory_ops ?e evs)) k =
      Some (InProgress (Fence (next_fence e)) fp (saturating_add t (lease_ms e)))"
    using mem.begin_store(1) [OF assms(1)] assms(3,4) tok by (intro mem.lease_exec) auto
  with assms(5) show ?thesis by (auto simp: mem.begin_result simp flip: not_less)
qed

text \<open>A worker takes the key, loses its lease, and another one takes over.\<close>

definition sample_engine :: "memory_store engine" where
  "sample_engine = engine_with_ttl memory_ops ms_new 1000 60000"

definition sample_tok :: "u64 \<Rightarrow> run_token" where
  "sample_tok n = \<lparr>tok_key = sample_key, tok_fence = Fence n\<rparr>"

lemma sample_engine_simps [simp]:
  "ms_inv (eng_store sample_engine)" "next_fence sample_engine = 1" "ttl_ms sample_engine = 60000"
  "lease_ms sample_engine = 1000" "store_get memory_ops (eng_store sample_engine) k = None"
  "tok_key (sample_tok n) = sample_key" "tok_fence (sample_tok n) = Fence n"
  by (simp_all add: sample_engine_def engine_with_ttl_def sample_tok_def memory_ops_def
      default_max_in_progress_fence_def)

lemma sample_saturating [simp]: 
  "saturating_add (0 :: u64) 1000 = 1000" "saturating_add (5 :: u64) 60000 = 60005"
  by (simp_all add: saturating_add_def)

theorem commit_is_final_witness:
  "fst (engine_complete memory_ops
     (engine_exec memory_ops (snd (engine_begin memory_ops sample_engine sample_key sample_fp 0))
        [EvComplete (sample_tok 1) sample_outcome 5, EvBegin sample_key sample_fp 9])
     (sample_tok 1) sample_outcome 6) = Inl AlreadyCompleted"
proof -
  let ?e = "snd (engine_begin memory_ops sample_engine sample_key sample_fp 0)"
  have "ttl_ms ?e = 60000" using engine_step_ttl [of memory_ops sample_engine "EvBegin sample_key sample_fp 0"] by simp
  then show ?thesis
    using commit_is_final [of ?e "sample_tok 1" sample_outcome 5 "[EvBegin sample_key sample_fp 9]"]
    by (auto simp: mem.begin_store mem.complete_ok_iff Let_def sample_tok_def simp del: engine_exec.simps)
qed

theorem superseded_token_never_commits_witness:
  "let e = snd (engine_begin memory_ops sample_engine sample_key sample_fp 0) in
   fst (engine_complete memory_ops (snd (engine_begin memory_ops e sample_key sample_fp 1000))
     (sample_tok 1) sample_outcome 1001) \<noteq> Inr ()"
proof -
  let ?e = "snd (engine_begin memory_ops sample_engine sample_key sample_fp 0)"
  have "fst (engine_begin memory_ops ?e sample_key sample_fp 1000) = Begin_Run (sample_tok 2)"
    by (simp add: mem.begin_result mem.begin_store sample_tok_def)
  then show ?thesis
    using superseded_token_never_commits [of ?e "sample_tok 1" sample_fp 1000 "sample_tok 2" "[]"]
    by (simp add: mem.begin_store Let_def)
qed

theorem lease_excludes_witness:
  "fst (engine_begin memory_ops
     (engine_exec memory_ops sample_engine [EvBegin sample_key sample_fp 0, EvComplete (sample_tok 7) sample_outcome 3])
     sample_key sample_fp 999) = Begin_InProgress"
  using lease_excludes [of sample_engine sample_key sample_fp 0 "sample_tok 1"
      "[EvComplete (sample_tok 7) sample_outcome 3]" 999 sample_fp]
  by (simp add: mem.begin_result sample_tok_def del: engine_exec.simps)

section \<open>Durability\<close>

text \<open>C6. Recovery never fails. From an empty disk, through every sequence of calls and crashes (a crash may
  cut any call at any byte it writes), every restart opens its log without an error, in strict and in
  group-commit mode.\<close>

theorem restart_never_fails:
  assumes "iteration_order ord" and "\<forall>ev \<in> set evs. event_ok (node_call ev)"
  shows "\<exists>e. node_exec ord (fresh_node sync lease ttl) evs = Inr e"
  using node_exec_ok [OF fresh_node_ok(1) assms(2,1)] by blast

theorem restart_never_fails_witness:
  "\<exists>e. node_exec (\<lambda>m. m) (fresh_node True 1000 60000)
     [CrashIn (EvBegin sample_key sample_fp 0) 13, Call (EvBegin sample_key sample_fp 1), CrashIn (EvPrune 2) 50] = Inr e"
  by (rule restart_never_fails) (simp_all del: event_ok.simps add: event_ok.simps(4))

text \<open>C7. Atomicity. A call of a strict node that a crash cuts off at any byte has, after the restart, either
  not happened at all or happened completely.\<close>

theorem crash_is_atomic:
  assumes "iteration_order ord" and "\<forall>c \<in> set evs. event_ok (node_call c)" and "event_ok ev"
    and "node_exec ord (fresh_node True lease ttl) evs = Inr e"
  shows "\<exists>e'. node_step ord e (CrashIn ev n) = Inr e' \<and>
    (ws_get (eng_store e') = ws_get (eng_store e) \<or>
     ws_get (eng_store e') = ws_get (eng_store (snd (engine_step (wal_ops ord) e ev))))"
proof -
  note r = reachable_node [OF assms(1,2,4)]
  obtain e' where "node_step ord e (CrashIn ev n) = Inr e'"
    by (rule node_step_ok [OF r(1) _ assms(1), of "CrashIn ev n"]) (use assms(3) in simp_all)
  with strict_crash_atomic [OF r(1) _ assms(3,1)] r(4) show ?thesis by auto
qed

theorem crash_is_atomic_witness:
  "\<exists>e'. node_step (\<lambda>m. m) (fresh_node True 1000 60000) (CrashIn (EvBegin sample_key sample_fp 0) 13) = Inr e'"
  using crash_is_atomic [of "\<lambda>m. m" "[]" "EvBegin sample_key sample_fp 0" 1000 60000 "fresh_node True 1000 60000" 13]
  by (auto simp del: event_ok.simps)

text \<open>C2. Exactly once across crashes. On a strict node, once \<open>complete\<close> has returned success, the outcome is
  committed: after any calls and any crashes before it expires the node restarts, refuses every other
  \<open>complete\<close> for the key, and replays the outcome for the same request.\<close>

theorem commit_survives_crashes:
  assumes "iteration_order ord" and "\<forall>ev \<in> set (evs0 @ evs). event_ok (node_call ev)"
    and "node_exec ord (fresh_node True lease ttl) evs0 = Inr e"
    and "event_ok (EvComplete tok oc t)" and "fst (engine_complete (wal_ops ord) e tok oc t) = Inr ()"
    and "\<forall>ev \<in> set evs. \<not> event_at_or_after (saturating_add t ttl) (node_call ev)"
  shows "\<exists>e'. node_exec ord (snd (engine_complete (wal_ops ord) e tok oc t)) evs = Inr e' \<and>
    (\<forall>f oc' t'. fst (engine_complete (wal_ops ord) e' \<lparr>tok_key = tok_key tok, tok_fence = f\<rparr> oc' t') =
       Inl AlreadyCompleted) \<and>
    (\<exists>fp. \<forall>fp' now. now < saturating_add t ttl \<longrightarrow>
       fst (engine_begin (wal_ops ord) e' (tok_key tok) fp' now) =
         (if fp' = fp then Begin_Replay oc else Begin_Mismatch))"
proof -
  let ?e = "snd (engine_complete (wal_ops ord) e tok oc t)"
  have r: "node_ok e" "ttl_ms e = ttl" "ws_sync_each (eng_store e)"
    using reachable_node [OF assms(1) _ assms(3)] assms(2) by auto
  obtain fp where d: "durable ?e (tok_key tok) (Completed fp oc t)"
    by (rule strict_complete_durable [OF r(1,3) assms(4,1,5)])
  have e: "node_ok ?e" "ttl_ms ?e = ttl"
    using node_step_ok [OF r(1) _ assms(1), of "Call (EvComplete tok oc t)"] assms(4) r(2) by auto
  have evs: "\<forall>ev \<in> set evs. event_ok (node_call ev)" using assms(2) by simp
  obtain e' where e': "node_exec ord ?e evs = Inr e'" "ttl_ms e' = ttl"
    using node_exec_ok [OF e(1) evs assms(1)] e(2) by auto
  have "durable e' (tok_key tok) (Completed fp oc t)"
    using durable_exec [OF e(1) d evs assms(1) _ e'(1)] assms(6) e(2) by simp
  with e' durable_answers show ?thesis by (intro exI [of _ e']) auto
qed

theorem commit_survives_crashes_witness:
  "let e = snd (engine_begin (wal_ops (\<lambda>m. m)) (fresh_node True 1000 60000) sample_key sample_fp 0);
       e = snd (engine_complete (wal_ops (\<lambda>m. m)) e (sample_tok 1) sample_outcome 5)
   in \<exists>e'. node_exec (\<lambda>m. m) e [CrashIn (EvBegin sample_key sample_fp 6) 2] = Inr e'"
proof -
  let ?e = "snd (engine_begin (wal_ops (\<lambda>m. m)) (fresh_node True 1000 60000) sample_key sample_fp 0)"
  have "fst (engine_complete (wal_ops (\<lambda>m. m)) ?e (sample_tok 1) sample_outcome 5) = Inr ()"
    by (simp add: wal.complete_ok_iff fresh_node_begin)
  then show ?thesis
    using commit_survives_crashes [of "\<lambda>m. m" "[Call (EvBegin sample_key sample_fp 0)]"
        "[CrashIn (EvBegin sample_key sample_fp 6) 2]" 1000 60000 ?e "sample_tok 1" sample_outcome 5]
      sample_events_ok(2) [of "Fence 1" 5]
    by (auto simp: Let_def sample_tok_def simp del: event_ok.simps)
qed

text \<open>C12. Group commit. On a group-commit node an outcome is safe from the first \<open>flush\<close> after it: from then on
  crashes cannot lose it before it expires.\<close>

theorem flush_makes_durable:
  assumes "iteration_order ord" and "\<forall>ev \<in> set (evs0 @ evs). event_ok (node_call ev)"
    and "node_exec ord (fresh_node False lease ttl) evs0 = Inr e"
    and "ws_get (eng_store e) k = Some (Completed fp oc t)"
    and "\<forall>ev \<in> set evs. \<not> event_at_or_after (saturating_add t ttl) (node_call ev)"
  shows "\<exists>e'. node_exec ord (engine_flush (wal_ops ord) e) evs = Inr e' \<and>
    (\<forall>fp' now. now < saturating_add t ttl \<longrightarrow>
       fst (engine_begin (wal_ops ord) e' k fp' now) = (if fp' = fp then Begin_Replay oc else Begin_Mismatch))"
proof -
  have r: "node_ok e" "ttl_ms e = ttl"
    using reachable_node [OF assms(1) _ assms(3)] assms(2) by auto
  let ?e = "engine_flush (wal_ops ord) e"
  note d = flush_durable [OF r(1) assms(4), of ord]
  have t: "ttl_ms ?e = ttl" using r(2) by (simp add: engine_flush_def)
  have evs: "\<forall>ev \<in> set evs. event_ok (node_call ev)" using assms(2) by simp
  obtain e' where e': "node_exec ord ?e evs = Inr e'" "ttl_ms e' = ttl"
    using node_exec_ok [OF d(2) evs assms(1)] t by auto
  have "durable e' k (Completed fp oc t)"
    using durable_exec [OF d(2,1) evs assms(1) _ e'(1)] assms(5) t by simp
  with e' durable_answers(1) show ?thesis by (intro exI [of _ e']) auto
qed

text \<open>C3. Fencing across crashes. A worker holds a key of a strict node, loses its lease, and at \<open>t0\<close> another
  run takes over. Until \<open>t0 + ttl\<close>, through any calls and crashes, the first worker's token never commits.\<close>

theorem zombie_fenced_across_crashes:
  assumes "iteration_order ord" and "\<forall>ev \<in> set (evs0 @ evs). event_ok (node_call ev)"
    and "node_exec ord (fresh_node True lease ttl) evs0 = Inr e"
    and "ws_get (eng_store e) (tok_key tok) = Some (InProgress (tok_fence tok) fp0 l)"
    and "event_ok (EvBegin (tok_key tok) fp t0)"
    and "fst (engine_begin (wal_ops ord) e (tok_key tok) fp t0) = Begin_Run tok'"
    and "\<forall>ev \<in> set evs. event_in_window t0 (saturating_add t0 ttl) (node_call ev)"
    and "length evs0 + length evs < 2 ^ 63"
  shows "\<exists>e'. node_exec ord (snd (engine_begin (wal_ops ord) e (tok_key tok) fp t0)) evs = Inr e' \<and>
    fst (engine_complete (wal_ops ord) e' tok oc t) \<noteq> Inr ()"
proof -
  let ?e = "snd (engine_begin (wal_ops ord) e (tok_key tok) fp t0)"
  have r: "node_ok e" "ttl_ms e = ttl" "ws_sync_each (eng_store e)"
    using reachable_node [OF assms(1) _ assms(3)] assms(2) by auto
  then have inv: "ws_inv (eng_store e)" by (auto simp: node_ok_def wal_rep_inv)
  have f: "engine_fences (wal_ops ord) e" "unat (next_fence e) \<le> 1 + length evs0"
    using strict_fences_exec [OF fresh_node_ok(1) _ assms(1) _ fresh_node_fences _ assms(3)] assms(2,8) by auto
  then have ne: "next_fence e \<noteq> - 1" using assms(8) by (auto simp: unat_minus_one)
  have step: "node_step ord e (Call (EvBegin (tok_key tok) fp t0)) = Inr ?e" by simp
  have e: "node_ok ?e" "ttl_ms ?e = ttl" "ws_sync_each (eng_store ?e)"
    using node_step_ok [OF r(1) _ assms(1), of "Call (EvBegin (tok_key tok) fp t0)"] assms(5) r by auto
  note fe = strict_fences_step [OF r(1,3) _ assms(1) f(1) ne step]
  have "begin_decision (ttl_ms e) fp t0 (ws_get (eng_store e) (tok_key tok)) = Act_Start"
    using assms(6) by (auto simp: wal.begin_result split: begin_action.splits)
  then have "ws_get (eng_store ?e) (tok_key tok) = Some (InProgress (Fence (next_fence e)) fp (saturating_add t0 (lease_ms e)))"
    using wal.begin_store(2) [OF inv, of ord "tok_key tok" fp t0 "tok_key tok"] by simp
  moreover have "fence_val (tok_fence tok) < next_fence e" using f(1) assms(4) by (auto simp: engine_fences_def)
  ultimately have off: "fenced_off ?e tok (saturating_add t0 ttl)" by (simp add: fenced_off_def)
  have evs: "\<forall>ev \<in> set evs. event_ok (node_call ev)" using assms(2) by simp
  obtain e' where e': "node_exec ord ?e evs = Inr e'"
    using node_exec_ok [OF e(1) evs assms(1)] by auto
  have "fenced_off e' tok (saturating_add t0 ttl)"
    by (rule fenced_off_exec [OF e(1,3) assms(1) _ fe(1) off _ _ e'])
      (use evs assms(5,7,8) e(2) fe(2) f(2) in auto)
  with e' fenced_off_refused show ?thesis by blast
qed

theorem zombie_fenced_across_crashes_witness:
  "let e = snd (engine_begin (wal_ops (\<lambda>m. m)) (fresh_node True 1000 60000) sample_key sample_fp 0);
       e = snd (engine_begin (wal_ops (\<lambda>m. m)) e sample_key sample_fp 1000)
   in \<exists>e'. node_exec (\<lambda>m. m) e [CrashIn (EvComplete (sample_tok 2) sample_outcome 1001) 40] = Inr e' \<and>
      fst (engine_complete (wal_ops (\<lambda>m. m)) e' (sample_tok 1) sample_outcome 1002) \<noteq> Inr ()"
proof -
  let ?e = "snd (engine_begin (wal_ops (\<lambda>m. m)) (fresh_node True 1000 60000) sample_key sample_fp 0)"
  have "fst (engine_begin (wal_ops (\<lambda>m. m)) ?e sample_key sample_fp 1000) = Begin_Run (sample_tok 2)"
    by (simp add: wal.begin_result fresh_node_begin sample_tok_def)
  moreover have "saturating_add (1000 :: u64) 60000 = 61000" by (simp add: saturating_add_def)
  moreover have "node_exec (\<lambda>m. m) (fresh_node True 1000 60000) [Call (EvBegin sample_key sample_fp 0)] = Inr ?e"
    by simp
  ultimately show ?thesis
    using zombie_fenced_across_crashes [of "\<lambda>m. m" "[Call (EvBegin sample_key sample_fp 0)]"
        "[CrashIn (EvComplete (sample_tok 2) sample_outcome 1001) 40]" 1000 60000 ?e "sample_tok 1" sample_fp 1000
        sample_fp 1000 "sample_tok 2" sample_outcome 1002]
      sample_events_ok(2) [of "Fence 2" 1001]
    by (simp add: Let_def fresh_node_begin sample_tok_def del: event_ok.simps node_exec.simps)
qed

theorem flush_makes_durable_witness:
  "\<exists>e e'. node_exec (\<lambda>m. m) (fresh_node False 1000 60000)
       [Call (EvBegin sample_key sample_fp 0), Call (EvComplete (sample_tok 1) sample_outcome 5)] = Inr e \<and>
     node_exec (\<lambda>m. m) (engine_flush (wal_ops (\<lambda>m. m)) e) [CrashIn (EvBegin sample_key sample_fp 6) 0] = Inr e' \<and>
     fst (engine_begin (wal_ops (\<lambda>m. m)) e' sample_key sample_fp 7) = Begin_Replay sample_outcome"
proof -
  let ?o = "wal_ops (\<lambda>m. m)" and ?evs = "[Call (EvBegin sample_key sample_fp 0), Call (EvComplete (sample_tok 1) sample_outcome 5)]"
  let ?e1 = "snd (engine_begin ?o (fresh_node False 1000 60000) sample_key sample_fp 0)"
  let ?e = "snd (engine_complete ?o ?e1 (sample_tok 1) sample_outcome 5)"
  have x: "node_exec (\<lambda>m. m) (fresh_node False 1000 60000) ?evs = Inr ?e" by simp
  have "ws_inv (eng_store ?e1)" using wal.begin_store(1) by simp
  then have g: "ws_get (eng_store ?e) sample_key = Some (Completed sample_fp sample_outcome 5)"
    using wal.complete_store(2) [of ?e1 "\<lambda>m. m" "sample_tok 1" sample_outcome 5 sample_key]
    by (simp add: fresh_node_begin)
  show ?thesis
    using flush_makes_durable [OF _ _ x g, of "[CrashIn (EvBegin sample_key sample_fp 6) 0]"] x
      sample_events_ok(2) [of "Fence 1" 5]
    by (fastforce simp: sample_tok_def simp del: event_ok.simps node_exec.simps)
qed

lemma restart_next_fence:
  "node_step ord e (CrashIn ev n) = Inr e' \<Longrightarrow> next_fence e' = ws_max_in_progress_fence (eng_store e') + 1"
  by (auto simp: node_restart_def engine_with_ttl_def split: sum.splits)

text \<open>A restart of a strict node that holds no in-progress key starts minting at 1 again.\<close>

lemma restart_forgets_fences:
  assumes "node_ok e" and "ws_sync_each (eng_store e)" and "iteration_order ord"
    and "\<And>k f fp l. ws_get (eng_store e) k \<noteq> Some (InProgress f fp l)"
  obtains e' where "node_step ord e (CrashIn EvFlush 0) = Inr e'" "ws_get (eng_store e') = ws_get (eng_store e)"
    "next_fence e' = 1" "ttl_ms e' = ttl_ms e" "node_ok e'"
proof -
  have ok: "event_ok (node_call (CrashIn EvFlush 0))" by simp
  obtain e' where e': "node_step ord e (CrashIn EvFlush 0) = Inr e'" "node_ok e'" "ttl_ms e' = ttl_ms e"
    by (rule node_step_ok [OF assms(1) ok assms(3)])
  have "ws_inv (eng_store e)" using assms(1) by (auto simp: node_ok_def wal_rep_inv)
  then have "ws_get (eng_store (engine_flush (wal_ops ord) e)) = ws_get (eng_store e)"
    using wal.flush_prune_get(1) [of e ord] by (simp add: fun_eq_iff)
  then have g: "ws_get (eng_store e') = ws_get (eng_store e)"
    using strict_crash_atomic [OF assms(1,2) _ assms(3) e'(1)] by simp
  have "ws_inv (eng_store e')" using e'(2) by (auto simp: node_ok_def wal_rep_inv)
  with max_in_progress_fence_attained have "ws_max_in_progress_fence (eng_store e') = 0"
    using assms(4) unfolding g [symmetric] by blast
  with restart_next_fence [OF e'(1)] have "next_fence e' = 1" by simp
  with e' g show thesis by (intro that) auto
qed

text \<open>C39. The fence counter is seeded from the in-progress keys only, so fences are minted again after a restart.
  A worker that stalls across a takeover, a restart and the expiry of the outcome commits on the fence
  it shares with a later run: here the token of the first run completes the third one.\<close>

theorem fence_reused_after_restart:
  "\<exists>e. node_exec (\<lambda>m. m) (fresh_node True 1000 60000)
      [Call (EvBegin sample_key sample_fp 0), Call (EvBegin sample_key sample_fp 1000),
       Call (EvComplete (sample_tok 2) sample_outcome 1001), CrashIn EvFlush 0,
       Call (EvBegin sample_key sample_fp 61001)] = Inr e \<and>
    fst (engine_complete (wal_ops (\<lambda>m. m)) e (sample_tok 1) sample_outcome 61002) = Inr ()"
proof -
  let ?o = "wal_ops (\<lambda>m. m)"
  let ?evs = "[EvBegin sample_key sample_fp 0, EvBegin sample_key sample_fp 1000, EvComplete (sample_tok 2) sample_outcome 1001]"
  define e where "e = engine_exec ?o (fresh_node True 1000 60000) ?evs"
  have sat: "saturating_add (1000 :: u64) 1000 = 2000" "saturating_add (1001 :: u64) 60000 = 61001"
    by (simp_all add: saturating_add_def)
  have x: "node_exec (\<lambda>m. m) (fresh_node True 1000 60000) (map Call ?evs) = Inr e" by (simp add: e_def)
  have r: "node_ok e" "ttl_ms e = 60000" "ws_sync_each (eng_store e)"
    using reachable_node [OF iteration_order_id _ x] sample_events_ok(2) [of "Fence 2" 1001]
    by (auto simp: sample_tok_def simp del: event_ok.simps)
  have ab: "abs_engine ?o e = engine_exec map_ops (abs_engine ?o (fresh_node True 1000 60000)) ?evs"
    unfolding e_def by (rule wal.abs_exec) simp
  have "eng_store (engine_exec map_ops (abs_engine ?o (fresh_node True 1000 60000)) ?evs) =
      [sample_key \<mapsto> Completed sample_fp sample_outcome 1001]"
    using sat by (simp add: abs_engine_def map_ops_def engine_defs fun_eq_iff)
  then have g: "ws_get (eng_store e) = [sample_key \<mapsto> Completed sample_fp sample_outcome 1001]"
    unfolding ab [symmetric] by (simp add: abs_engine_def)
  then have none: "ws_get (eng_store e) k \<noteq> Some (InProgress f fp l)" for k f fp l by simp
  obtain e' where e': "node_step (\<lambda>m. m) e (CrashIn EvFlush 0) = Inr e'" "ws_get (eng_store e') = ws_get (eng_store e)"
      "next_fence e' = 1" "ttl_ms e' = ttl_ms e" "node_ok e'"
    by (rule restart_forgets_fences [OF r(1,3) iteration_order_id none])
  have inv: "ws_inv (eng_store e')" using e'(5) by (auto simp: node_ok_def wal_rep_inv)
  let ?e = "snd (engine_begin ?o e' sample_key sample_fp 61001)"
  have "\<exists>fp l. ws_get (eng_store ?e) sample_key = Some (InProgress (Fence 1) fp l)"
    using wal.begin_store(2) [OF inv, of "\<lambda>m. m" sample_key sample_fp 61001 sample_key] e' g r(2) sat by simp
  then have "fst (engine_complete ?o ?e (sample_tok 1) sample_outcome 61002) = Inr ()"
    by (simp add: wal.complete_ok_iff)
  with e'(1) show ?thesis by (simp add: e_def del: node_step.simps(2))
qed

section \<open>The log format\<close>

text \<open>C19. Round trip of a record: decoding what \<open>encode_record\<close> wrote, whatever follows it, returns the key, the
  state, the length and the chain value; and no proper prefix of it decodes or is taken for a complete
  frame, so a torn write is always recognised.\<close>

theorem record_round_trip:
  assumes "encodable k v"
  shows "decode_record (encode_record k v prev @ rest) =
      Some (length (encode_record k v prev), k, v, record_chain k v prev) \<and>
    (\<forall>n < length (encode_record k v prev).
       decode_record (take n (encode_record k v prev)) = None \<and>
       \<not> is_complete_frame (take n (encode_record k v prev)))"
  using decode_encode_record [OF assms] take_encode_record_frame [OF assms] by blast

theorem record_round_trip_witness:
  "\<exists>n c. decode_record (encode_record sample_key (InProgress (Fence 0) sample_fp 0) GENESIS @ [1, 2, 3]) =
     Some (n, sample_key, InProgress (Fence 0) sample_fp 0, c)"
  using record_round_trip [of sample_key "InProgress (Fence 0) sample_fp 0" GENESIS "[1, 2, 3]"]
    sample_events_ok(1) by simp

text \<open>C20. Decoding is safe on arbitrary bytes: an accepted record lies inside the buffer, has at least its
  40-byte header, depends on no byte after it, and carries values of the Rust types (UTF-8 strings,
  32-byte fingerprints, sorted header maps).\<close>

theorem decode_record_safe:
  assumes "decode_record buf = Some (n, k, v, c)"
  shows "40 \<le> n \<and> n \<le> length buf \<and> wf_key k \<and> wf_state v \<and> length c = 32 \<and>
    decode_record (take n buf @ rest) = Some (n, k, v, c)"
  using decode_record_bounds [OF assms] decode_record_wf [OF assms] decode_record_local [OF assms] by simp

theorem decode_record_safe_witness:
  "\<exists>n. 40 \<le> n \<and> decode_record (take n (encode_record sample_key (InProgress (Fence 0) sample_fp 0) GENESIS) @ [9]) \<noteq> None"
proof -
  have "decode_record (encode_record sample_key (InProgress (Fence 0) sample_fp 0) GENESIS @ []) \<noteq> None"
    using decode_encode_record [of sample_key "InProgress (Fence 0) sample_fp 0" GENESIS "[]"] sample_events_ok(1)
    by (simp del: append_Nil2)
  then obtain n k v c where
    "decode_record (encode_record sample_key (InProgress (Fence 0) sample_fp 0) GENESIS) = Some (n, k, v, c)"
    by (auto simp: prod_cases3)
  from decode_record_safe [OF this] show ?thesis by blast
qed

section \<open>Cryptography\<close>

text \<open>C21. \<open>sha256\<close> is the function of FIPS 180-4 and \<open>hmac_sha256\<close> that of RFC 2104 over it, for every input and
  every key length.\<close>

theorem hashes_meet_standards:
  "sha256 m = fips_sha256 m \<and> hmac_sha256 key msg = rfc_hmac key msg"
  by (simp add: sha256_fips hmac_rfc)

section \<open>Replication\<close>

text \<open>C13. Failover. A group of strict nodes runs any calls from empty disks and dies inside one more call, with any
  part of that call's bytes on each node. Whichever node is promoted, by opening its log and building an engine on
  it, opening succeeds; the node holds for every key what the group held before or after the interrupted
  call; it mints fences above every run still in progress; and it answers all further calls as the whole group
  would after a restart.\<close>

theorem failover_promotes:
  assumes "iteration_order ord" and "\<forall>c \<in> set (ev # evs). event_ok c" and "length evs + 3 < 2 ^ 64"
    and "rs_new (replicate n (eng_store (fresh_node True lease ttl))) = Inr r"
    and "e = engine_exec (replicated_ops (wal_ops ord)) (engine_with_ttl (replicated_ops (wal_ops ord)) r lease ttl) evs"
    and "i < n"
  shows "\<exists>p e'. node_restart ord (rs_member e i) (crash_image ord (rs_member e i) ev b) = Inr p \<and>
    (e' = e \<or> e' = snd (engine_step (replicated_ops (wal_ops ord)) e ev)) \<and>
    ws_get (eng_store p) = rs_get (wal_ops ord) (eng_store e') \<and>
    (\<forall>k f fp l. ws_get (eng_store p) k = Some (InProgress f fp l) \<longrightarrow> fence_val f < next_fence p) \<and>
    (\<forall>evs'. engine_answers (wal_ops ord) p evs' =
      engine_answers (replicated_ops (wal_ops ord)) (engine_with_ttl (replicated_ops (wal_ops ord)) (eng_store e') lease ttl) evs')"
proof -
  let ?o = "wal_ops ord" and ?r = "replicated_ops (wal_ops ord)" and ?m = "rs_member e i"
  let ?e0 = "engine_with_ttl ?r r lease ttl"
  have r: "rs_inv ?o ws_inv r" "replicas r = replicate n (eng_store (fresh_node True lease ttl))"
    using assms(4) by (auto simp: rs_new_def rs_inv_def rs_get_def fun_eq_iff split: if_splits)
  have inv: "rs_inv ?o ws_inv (eng_store e)" using rep_wal.exec_inv [of ord ?e0 evs] r(1) by (simp add: assms(5))
  have inv': "rs_inv ?o ws_inv (eng_store (snd (engine_step ?r e ev)))" by (rule rep_wal.step_inv [OF inv])
  have m0: "rs_member ?e0 i = fresh_node True lease ttl" using assms(6) r(2) fresh_node_open(2) [of ord True lease ttl]
    by (simp add: rs_member_def engine_with_ttl_def replicated_ops_def rs_max_in_progress_fence_def fresh_node_def)
  have m: "?m = engine_exec ?o (fresh_node True lease ttl) evs" and len: "i < length (replicas (eng_store e))"
    using wal.rs_member_exec [of ord ?e0 i evs] r assms(6) by (simp_all add: assms(5) m0)
  have calls: "node_exec ord (fresh_node True lease ttl) (map Call evs) = Inr ?m" by (simp add: node_exec_calls m)
  have ok: "\<forall>c \<in> set (map Call evs). event_ok (node_call c)" "event_ok ev" using assms(2) by auto
  note n = reachable_node [OF assms(1) ok(1) calls]
  obtain p where p: "node_step ord ?m (CrashIn ev b) = Inr p" "node_ok p" "ttl_ms p = ttl" "lease_ms p = lease"
    using node_step_ok [OF n(1) _ assms(1), of "CrashIn ev b"] ok(2) n(2,3) by auto
  have p': "ws_inv (eng_store p)" using p(2) by (auto simp: node_ok_def wal_rep_inv)
  have "node_exec ord (fresh_node True lease ttl) (map Call evs @ [CrashIn ev b]) = Inr p"
    using calls p(1) by (simp add: node_exec_append)
  then have fences: "engine_fences ?o p"
    using strict_fences_exec [OF fresh_node_ok(1) _ assms(1) _ fresh_node_fences, of True lease ttl "map Call evs @ [CrashIn ev b]" p]
      ok assms(3) by auto
  have step: "snd (engine_step ?o ?m ev) = rs_member (snd (engine_step ?r e ev)) i" using rs_member_step [OF inv len] by simp
  obtain e' where e': "e' = e \<or> e' = snd (engine_step ?r e ev)" "rs_inv ?o ws_inv (eng_store e')"
      "ws_get (eng_store p) = rs_get ?o (eng_store e')"
    using strict_crash_atomic [OF n(1) _ ok(2) assms(1) p(1)] n(4) inv inv' len
      rs_nodes_step [of e ?o ev] step by (auto simp: rs_inv_def)
  have z: "ws_inv (replicas (eng_store e') ! 0)" "ws_get (replicas (eng_store e') ! 0) = rs_get ?o (eng_store e')"
    using e'(2) by (auto simp: rs_inv_def)
  have "next_fence p = ws_max_in_progress_fence (eng_store p) + 1"
    using p(1) by (auto simp: node_restart_def engine_with_ttl_def split: sum.splits)
  also have "\<dots> = next_fence (engine_with_ttl ?r (eng_store e') lease ttl)"
    using ws_max_in_progress_fence_get [OF p' z(1)] z(2) e'(3)
    by (simp add: engine_with_ttl_def replicated_ops_def rs_max_in_progress_fence_def)
  finally have "engine_answers ?o p evs' = engine_answers ?r (engine_with_ttl ?r (eng_store e') lease ttl) evs'" for evs'
    by (intro wal.replicated_answers p') (use p(3,4) e'(2,3) in simp_all)
  with p(1) e' fences show ?thesis by (intro exI [of _ p] exI [of _ e']) (simp add: engine_fences_def)
qed

theorem failover_promotes_witness:
  "let ops = replicated_ops (wal_ops (\<lambda>m. m)); st = eng_store (fresh_node True 1000 60000);
       e = engine_exec ops (engine_with_ttl ops \<lparr>replicas = [st, st]\<rparr> 1000 60000)
         [EvBegin sample_key sample_fp 0, EvComplete \<lparr>tok_key = sample_key, tok_fence = Fence 1\<rparr> sample_outcome 5]
   in \<exists>p. node_restart (\<lambda>m. m) (rs_member e 1) (crash_image (\<lambda>m. m) (rs_member e 1) (EvBegin sample_key sample_fp 6) 13) = Inr p \<and>
      engine_answers (wal_ops (\<lambda>m. m)) p [EvBegin sample_key sample_fp 9] = [AnsBegin (Begin_Replay sample_outcome)]"
proof -
  let ?r = "replicated_ops (wal_ops (\<lambda>m. m))" and ?st = "eng_store (fresh_node True 1000 60000)"
  let ?evs = "[EvBegin sample_key sample_fp 0, EvComplete \<lparr>tok_key = sample_key, tok_fence = Fence 1\<rparr> sample_outcome 5]"
  let ?e0 = "engine_with_ttl ?r \<lparr>replicas = [?st, ?st]\<rparr> 1000 60000" and ?ev = "EvBegin sample_key sample_fp 6"
  have new: "rs_new (replicate 2 ?st) = Inr \<lparr>replicas = [?st, ?st]\<rparr>" by (simp add: rs_new_def numeral_2_eq_2)
  have inv: "rs_inv (wal_ops (\<lambda>m. m)) ws_inv (eng_store ?e0)" by (auto simp: rs_inv_def rs_get_def fun_eq_iff)
  have abs0: "abs_engine ?r ?e0 = \<lparr>eng_store = \<lambda>_. None, lease_ms = 1000, ttl_ms = 60000, next_fence = 1\<rparr>"
    by (simp add: abs_engine_def engine_with_ttl_def replicated_ops_def rs_get_def fun_eq_iff rs_max_in_progress_fence_def
        fresh_node_def ws_max_in_progress_fence_def ws_get_def List.map_filter_def)
  have get: "rs_get (wal_ops (\<lambda>m. m)) (eng_store (engine_exec ?r ?e0 es)) sample_key = Some (Completed sample_fp sample_outcome 5)"
    if "es = ?evs \<or> es = ?evs @ [?ev]" for es
  proof -
    have "store_get ?r (eng_store (engine_exec ?r ?e0 es)) = eng_store (engine_exec map_ops (abs_engine ?r ?e0) es)"
      unfolding rep_wal.abs_exec [OF inv, symmetric] by (simp add: abs_engine_def)
    moreover have "eng_store (engine_exec map_ops (abs_engine ?r ?e0) es) sample_key = Some (Completed sample_fp sample_outcome 5)"
      using that unfolding abs0 by (auto simp: engine_defs map_ops_def Let_def saturating_add_def)
    ultimately show ?thesis by (simp add: replicated_ops_def)
  qed
  have ok: "\<forall>c \<in> set (?ev # ?evs). event_ok c" by (simp del: event_ok.simps)
  obtain p e' where p: "node_restart (\<lambda>m. m) (rs_member (engine_exec ?r ?e0 ?evs) 1)
      (crash_image (\<lambda>m. m) (rs_member (engine_exec ?r ?e0 ?evs) 1) ?ev 13) = Inr p"
      and e': "e' = engine_exec ?r ?e0 ?evs \<or> e' = snd (engine_step ?r (engine_exec ?r ?e0 ?evs) ?ev)"
      and ans: "\<forall>evs'. engine_answers (wal_ops (\<lambda>m. m)) p evs' = engine_answers ?r (engine_with_ttl ?r (eng_store e') 1000 60000) evs'"
    using failover_promotes [OF iteration_order_id ok _ new refl, of 1 13] by auto
  have "store_get ?r (eng_store e') sample_key = Some (Completed sample_fp sample_outcome 5)"
    using e' get [of ?evs] get [of "?evs @ [?ev]"] by (auto simp: replicated_ops_def)
  then have "engine_answers (wal_ops (\<lambda>m. m)) p [EvBegin sample_key sample_fp 9] = [AnsBegin (Begin_Replay sample_outcome)]"
    unfolding ans [rule_format] by (simp add: rep_wal.begin_result engine_with_ttl_def saturating_add_def)
  with p show ?thesis unfolding Let_def by blast
qed

end
